(* ===== verification/Go_Prelude.thy ===== *)
theory Go_Prelude
  imports Complex_Main "HOL-Library.Word" "HOL-Library.List_Lexorder" "HOL-Library.Char_ord"
    "HOL-Library.AList"
begin

section \<open>What the program uses of Go and its standard library\<close>

text \<open>
  Machine integers, strings, errors, results and association lists, as the components share
  them. Go's \<open>int\<close>, \<open>int64\<close> and \<open>time.Duration\<close> are 64-bit two's complement: they are
  \<open>int\<close> here, and every operation of the source that can overflow is wrapped by \<open>wrap64\<close>.
  Strings are byte sequences (\<open>string\<close>), compared byte by byte as Go does. A Go map that the
  code ranges over is an association list with distinct keys; the list order stands for the
  order in which one run of the program happens to visit the map.
\<close>

named_theorems store_simps \<open>what one operation does to the visible content of a store\<close>
named_theorems keyspace \<open>facts that place a key under a prefix\<close>

subsection \<open>64-bit integers\<close>

definition wrap64 :: "int \<Rightarrow> int" where
  "wrap64 x = (x + 2 ^ 63) mod 2 ^ 64 - 2 ^ 63"

definition max_int64 :: int where "max_int64 = 2 ^ 63 - 1"
definition min_int64 :: int where "min_int64 = - (2 ^ 63)"

definition in_int64 :: "int \<Rightarrow> bool" where
  "in_int64 x \<longleftrightarrow> min_int64 \<le> x \<and> x \<le> max_int64"

lemma in_int64_iff: "in_int64 x \<longleftrightarrow> - (2 ^ 63) \<le> x \<and> x < 2 ^ 63"
  by (auto simp: in_int64_def min_int64_def max_int64_def)

lemma wrap64_id [simp]: "in_int64 x \<Longrightarrow> wrap64 x = x"
  by (simp add: wrap64_def in_int64_iff)

lemma in_int64_nonneg: "0 \<le> x \<Longrightarrow> in_int64 x \<longleftrightarrow> x < 2 ^ 63"
  unfolding in_int64_iff by linarith

lemma in_int64_literal [simp]:
  "in_int64 0" "in_int64 1" "in_int64 (- 1)" "in_int64 (numeral n) \<longleftrightarrow> (numeral n :: int) < 2 ^ 63"
     apply (simp_all only: in_int64_iff)
     apply simp_all [3]
  using in_int64_nonneg [of "numeral n"] in_int64_iff zero_le_numeral by blast

lemma wrap64_0 [simp]: "wrap64 0 = 0"
  by simp

lemma in_int64_wrap64 [simp]: "in_int64 (wrap64 x)"
proof -
  have "0 \<le> (x + 2 ^ 63) mod (2::int) ^ 64" "(x + 2 ^ 63) mod (2::int) ^ 64 < 2 ^ 64"
    by simp_all
  then show ?thesis by (auto simp: wrap64_def in_int64_iff)
qed

lemma wrap64_eq_iff: "wrap64 x = wrap64 y \<longleftrightarrow> x mod 2 ^ 64 = y mod 2 ^ 64"
proof
  assume "wrap64 x = wrap64 y"
  then have "(x + 2 ^ 63) mod (2 ^ 64) = (y + 2 ^ 63) mod 2 ^ 64" by (simp add: wrap64_def)
  then have "(x + 2 ^ 63 - 2 ^ 63) mod (2 ^ 64) = (y + 2 ^ 63 - 2 ^ 63) mod 2 ^ 64"
    by (rule mod_diff_cong) simp
  then show "x mod 2 ^ 64 = y mod 2 ^ 64" by simp
next
  assume "x mod 2 ^ 64 = y mod 2 ^ 64"
  then have "(x + 2 ^ 63) mod 2 ^ 64 = (y + 2 ^ 63) mod 2 ^ 64" by (rule mod_add_cong) simp
  then show "wrap64 x = wrap64 y" by (simp add: wrap64_def)
qed

lemma wrap64_mod: "wrap64 x mod 2 ^ 64 = x mod 2 ^ 64"
  unfolding wrap64_def by (simp add: mod_diff_left_eq)

text \<open>Additions may be wrapped at each step or once at the end.\<close>

lemma wrap64_wrap64 [simp]: "wrap64 (wrap64 x) = wrap64 x"
  by simp

lemma wrap64_add_left [simp]: "wrap64 (wrap64 x + y) = wrap64 (x + y)"
  unfolding wrap64_eq_iff by (rule mod_add_cong [OF wrap64_mod refl])

lemma wrap64_add_right [simp]: "wrap64 (x + wrap64 y) = wrap64 (x + y)"
  unfolding wrap64_eq_iff by (rule mod_add_cong [OF refl wrap64_mod])

text \<open>Go's integer division and remainder truncate towards zero.\<close>

definition go_div :: "int \<Rightarrow> int \<Rightarrow> int" where
  "go_div a b = wrap64 (sgn a * sgn b * (\<bar>a\<bar> div \<bar>b\<bar>))"

definition go_mod :: "int \<Rightarrow> int \<Rightarrow> int" where
  "go_mod a b = sgn a * (\<bar>a\<bar> mod \<bar>b\<bar>)"

lemma go_div_nonneg: "0 \<le> a \<Longrightarrow> 0 < b \<Longrightarrow> in_int64 a \<Longrightarrow> go_div a b = a div b"
proof -
  assume a: "0 \<le> a" "0 < b" "in_int64 a"
  have "a div b \<le> a div 1" using a by (intro zdiv_mono2) simp_all
  then have "a div b \<le> a" by simp
  moreover have "0 \<le> a div b" using a by (simp add: pos_imp_zdiv_nonneg_iff)
  ultimately have "in_int64 (a div b)" using a by (auto simp: in_int64_iff)
  moreover have "sgn a * sgn b * (\<bar>a\<bar> div \<bar>b\<bar>) = a div b"
    using a by (cases "a = 0") (auto simp: sgn_if)
  ultimately show ?thesis by (simp add: go_div_def)
qed

lemma go_mod_nonneg: "0 \<le> a \<Longrightarrow> 0 < b \<Longrightarrow> go_mod a b = a mod b"
  by (cases "a = 0") (auto simp: go_mod_def)

subsection \<open>Errors and results\<close>

text \<open>
  The errors the code distinguishes: the sentinels it compares with \<open>errors.Is\<close>, the SDK types
  it looks for with \<open>errors.As\<close>, wrapping by \<open>fmt.Errorf\<close> with \<open>%w\<close>, and plain messages.
  The text of a wrapping message identifies the call site, not the full formatted string.
\<close>

datatype go_error =
    Err_not_found                    \<comment> \<open>\<open>s3client.ErrNotFound\<close>\<close>
  | Err_shared_bucket                \<comment> \<open>\<open>safety.ErrSharedBucket\<close>\<close>
  | Err_eof                          \<comment> \<open>\<open>io.EOF\<close>\<close>
  | No_such_key string               \<comment> \<open>\<open>*types.NoSuchKey\<close>, an API error with code \<open>NoSuchKey\<close>\<close>
  | Api_error string string          \<comment> \<open>any other \<open>smithy.APIError\<close>: code and message\<close>
  | Response_error int go_error      \<comment> \<open>\<open>*smithyhttp.ResponseError\<close>: status and wrapped error\<close>
  | Wrap_error string go_error       \<comment> \<open>\<open>fmt.Errorf\<close> with \<open>%w\<close>\<close>
  | Plain_error string               \<comment> \<open>\<open>errors.New\<close>, or \<open>fmt.Errorf\<close> without \<open>%w\<close>\<close>

fun err_chain :: "go_error \<Rightarrow> go_error list" where
  "err_chain (Response_error n e) = Response_error n e # err_chain e"
| "err_chain (Wrap_error m e) = Wrap_error m e # err_chain e"
| "err_chain e = [e]"

definition errors_is :: "go_error \<Rightarrow> go_error \<Rightarrow> bool" where
  "errors_is e target \<longleftrightarrow> target \<in> set (err_chain e)"

lemma err_chain_nonempty [simp]: "err_chain e \<noteq> []"
  by (cases e) auto

text \<open>A call returns a value, an error, or panics.\<close>

datatype 'a res = Ok 'a | Err go_error | Panic

fun is_ok :: "'a res \<Rightarrow> bool" where
  "is_ok (Ok a) = True"
| "is_ok _ = False"

subsection \<open>Strings\<close>

text \<open>\<open>strings.HasPrefix\<close>, \<open>HasSuffix\<close>, \<open>TrimPrefix\<close>, \<open>Index\<close>, \<open>ToUpper\<close>, \<open>ToLower\<close>, and
  \<open>ReplaceAll\<close> for single characters; letters are ASCII.\<close>

definition has_prefix :: "string \<Rightarrow> string \<Rightarrow> bool" where
  "has_prefix s p \<longleftrightarrow> take (length p) s = p"

definition has_suffix :: "string \<Rightarrow> string \<Rightarrow> bool" where
  "has_suffix s q \<longleftrightarrow> length q \<le> length s \<and> drop (length s - length q) s = q"

definition trim_prefix :: "string \<Rightarrow> string \<Rightarrow> string" where
  "trim_prefix s p = (if has_prefix s p then drop (length p) s else s)"

fun str_index :: "string \<Rightarrow> string \<Rightarrow> int" where
  "str_index s d = (if has_prefix s d then 0 else
     case s of [] \<Rightarrow> -1 | c # r \<Rightarrow> let i = str_index r d in if i < 0 then -1 else i + 1)"

declare str_index.simps [simp del]

definition char_upper :: "char \<Rightarrow> char" where
  "char_upper c = (let n = (of_char c :: nat) in if 97 \<le> n \<and> n \<le> 122 then char_of (n - 32) else c)"

definition char_lower :: "char \<Rightarrow> char" where
  "char_lower c = (let n = (of_char c :: nat) in if 65 \<le> n \<and> n \<le> 90 then char_of (n + 32) else c)"

definition to_upper :: "string \<Rightarrow> string" where "to_upper = map char_upper"
definition to_lower :: "string \<Rightarrow> string" where "to_lower = map char_lower"

definition replace_char :: "char \<Rightarrow> char \<Rightarrow> string \<Rightarrow> string" where
  "replace_char a b = map (\<lambda>c. if c = a then b else c)"

lemma has_prefix_iff [keyspace]: "has_prefix s p \<longleftrightarrow> (\<exists>t. s = p @ t)"
  unfolding has_prefix_def by (metis append_take_drop_id append_eq_conv_conj)

lemma has_prefix_append [simp, keyspace]: "has_prefix (p @ t) p"
  by (simp add: has_prefix_def)

lemma has_prefix_Nil [simp]: "has_prefix s []"
  by (simp add: has_prefix_def)

lemma has_prefix_refl [simp]: "has_prefix s s"
  by (simp add: has_prefix_def)

lemma has_prefix_trans: "has_prefix s p \<Longrightarrow> has_prefix p q \<Longrightarrow> has_prefix s q"
  by (auto simp: has_prefix_iff)

lemma has_suffix_iff: "has_suffix s q \<longleftrightarrow> (\<exists>t. s = t @ q)"
proof
  assume "has_suffix s q"
  then have "s = take (length s - length q) s @ q"
    unfolding has_suffix_def by (metis append_take_drop_id)
  then show "\<exists>t. s = t @ q" by blast
qed (auto simp: has_suffix_def)

lemma has_suffix_append [simp]: "has_suffix (t @ q) q"
  by (auto simp: has_suffix_iff)

text \<open>The idiom \<open>if !strings.HasSuffix(prefix, "/") { prefix += "/" }\<close>.\<close>

definition slash_terminated :: "string \<Rightarrow> string" where
  "slash_terminated p = (if has_suffix p ''/'' then p else p @ ''/'')"

lemma has_suffix_slash_terminated [simp]: "has_suffix (slash_terminated p) ''/''"
  by (simp add: slash_terminated_def)

lemma slash_terminated_idem [simp]: "slash_terminated (slash_terminated p) = slash_terminated p"
  by (simp add: slash_terminated_def)

lemma slash_terminated_nonempty [simp]: "slash_terminated p \<noteq> []"
  by (auto simp: slash_terminated_def has_suffix_def)

subsection \<open>Association lists updated entry by entry\<close>

text \<open>A loop over the entries of one map that updates another at the same key, from the value there.\<close>

lemma fold_upsert:
  assumes "\<And>k v m. step (k, v) m = AList.update k (g k v (map_of m k)) m"
    and "distinct (map fst xs)"
  shows "map_of (fold step xs m) k =
    (case map_of xs k of None \<Rightarrow> map_of m k | Some v \<Rightarrow> Some (g k v (map_of m k)))"
  using assms(2)
proof (induction xs arbitrary: m)
  case (Cons r xs)
  obtain k' v where [simp]: "r = (k', v)" by fastforce
  show ?case
  proof (cases "k = k'")
    case True
    with Cons.prems have "map_of xs k = None" by (simp add: map_of_eq_None_iff)
    with Cons True show ?thesis by (simp add: assms(1) update_conv')
  next
    case False
    with Cons show ?thesis by (simp add: assms(1) update_conv' split: option.split)
  qed
qed simp

lemma distinct_fold_upsert:
  assumes "\<And>k v m. step (k, v) m = AList.update k (g k v (map_of m k)) m"
  shows "distinct (map fst m) \<Longrightarrow> distinct (map fst (fold step xs m))"
  by (induction xs arbitrary: m) (auto simp: assms distinct_update split_paired_all)

lemma set_alist_update: "set (AList.update k v al) \<subseteq> insert (k, v) (set al)"
  by (induction al) auto

lemma sum_alist_update:
  fixes g :: "'k \<times> 'v \<Rightarrow> 'a::comm_monoid_add"
  shows "sum_list (map g (AList.update k v al)) + (case map_of al k of None \<Rightarrow> 0 | Some v0 \<Rightarrow> g (k, v0)) =
    sum_list (map g al) + g (k, v)"
  by (induction al) (auto simp: ac_simps split: option.splits)

lemma sum_alist_update_int:
  fixes g :: "'k \<times> 'v \<Rightarrow> int"
  shows "sum_list (map g (AList.update k v al)) =
    sum_list (map g al) + g (k, v) - (case map_of al k of None \<Rightarrow> 0 | Some v0 \<Rightarrow> g (k, v0))"
  using sum_alist_update [of g k v al] by linarith

lemma wrap64_over:
  assumes "2 ^ 63 \<le> x" "x < 2 ^ 63 + 2 ^ 64"
  shows "wrap64 x = x - 2 ^ 64"
proof -
  have "wrap64 x = wrap64 (x - 2 ^ 64)" by (simp add: wrap64_eq_iff)
  moreover have "in_int64 (x - 2 ^ 64)" using assms by (simp add: in_int64_iff)
  ultimately show ?thesis by simp
qed

end
