(* ===== verification/S3_Client.thy ===== *)
theory S3_Client
  imports Go_Prelude
begin

section \<open>The client interface (\<open>internal/s3client/s3client.go\<close>)\<close>

text \<open>
  The interface \<open>Client\<close> is a record of operations over the state \<open>'s\<close> of the store behind it.
  An operation returns its Go results as \<open>'a res\<close> and the new state. A request body is the byte
  list its reader delivers, a response body the bytes up to EOF; contexts are not modelled.
  The two locales at the end are the contracts the rest of the program relies on: what an
  operation may touch at all (\<open>store_frame\<close>) and what it achieves when no fault occurs
  (\<open>reliable_store\<close>).
\<close>

type_synonym bytes = "8 word list"

record list_result =
  lr_keys :: "string list"
  lr_common_prefixes :: "string list"
  lr_next :: string
  lr_truncated :: bool

type_synonym tagset = "(string \<times> string) list"

record 's client =
  cl_put :: "string \<Rightarrow> bytes \<Rightarrow> int \<Rightarrow> 's \<Rightarrow> unit res \<times> 's"
  cl_get :: "string \<Rightarrow> 's \<Rightarrow> bytes res \<times> 's"
  cl_range_get :: "string \<Rightarrow> int \<Rightarrow> int \<Rightarrow> 's \<Rightarrow> bytes res \<times> 's"
  cl_head :: "string \<Rightarrow> 's \<Rightarrow> int res \<times> 's"
  cl_delete :: "string \<Rightarrow> 's \<Rightarrow> unit res \<times> 's"
  cl_list :: "string \<Rightarrow> string \<Rightarrow> string \<Rightarrow> int \<Rightarrow> 's \<Rightarrow> list_result res \<times> 's"
  cl_copy :: "string \<Rightarrow> string \<Rightarrow> 's \<Rightarrow> unit res \<times> 's"
  cl_get_tags :: "string \<Rightarrow> 's \<Rightarrow> tagset res \<times> 's"
  cl_put_tags :: "string \<Rightarrow> tagset \<Rightarrow> 's \<Rightarrow> unit res \<times> 's"
  cl_multipart :: "string \<Rightarrow> bytes \<Rightarrow> int \<Rightarrow> 's \<Rightarrow> unit res \<times> 's"

subsection \<open>\<open>joinPrefix\<close>\<close>

definition join_prefix :: "string \<Rightarrow> string \<Rightarrow> string" where
  "join_prefix prefix key0 =
     (let key = trim_prefix key0 ''/'' in
      if prefix = [] then key
      else let p = slash_terminated prefix in
        if has_prefix key p then key else p @ key)"

lemma trim_prefix_id [simp]: "\<not> has_prefix s p \<Longrightarrow> trim_prefix s p = s"
  by (simp add: trim_prefix_def)

lemma join_prefix_under [keyspace]:
  "prefix \<noteq> [] \<Longrightarrow> has_prefix (join_prefix prefix key) (slash_terminated prefix)"
  by (simp add: join_prefix_def Let_def)

lemma has_prefix_mono_slash: "has_prefix (slash_terminated p) ''/'' \<longleftrightarrow> p = [] \<or> has_prefix p ''/''"
  by (cases p) (auto simp: slash_terminated_def has_prefix_def has_suffix_def)

lemma no_slash_under: "has_prefix k p \<Longrightarrow> p \<noteq> [] \<Longrightarrow> \<not> has_prefix p ''/'' \<Longrightarrow> \<not> has_prefix k ''/''"
  by (cases p; cases k) (auto simp: has_prefix_def)

text \<open>A key already under a prefix that does not start with a slash stays as it is.\<close>

lemma join_prefix_fixpoint:
  assumes "prefix \<noteq> []" "\<not> has_prefix prefix ''/''" "has_prefix key (slash_terminated prefix)"
  shows "join_prefix prefix key = key"
proof -
  have "\<not> has_prefix (slash_terminated prefix) ''/''" using assms by (simp add: has_prefix_mono_slash)
  then have "\<not> has_prefix key ''/''" using assms(3) no_slash_under by auto
  then show ?thesis using assms by (simp add: join_prefix_def)
qed

lemma join_prefix_idem:
  assumes "prefix \<noteq> []" "\<not> has_prefix prefix ''/''"
  shows "join_prefix prefix (join_prefix prefix key) = join_prefix prefix key"
  using assms join_prefix_under by (intro join_prefix_fixpoint) auto

text \<open>Keys without a leading slash and not already under the prefix keep their identity.\<close>

lemma join_prefix_relative:
  assumes "prefix \<noteq> []" "\<not> has_prefix key ''/''" "\<not> has_prefix key (slash_terminated prefix)"
  shows "join_prefix prefix key = slash_terminated prefix @ key"
  using assms by (simp add: join_prefix_def)

subsection \<open>\<open>IsNotFound\<close> (\<open>internal/s3client/aws.go\<close>)\<close>

fun is_no_such_key :: "go_error \<Rightarrow> bool" where
  "is_no_such_key (No_such_key m) = True"
| "is_no_such_key _ = False"

fun response_status :: "go_error \<Rightarrow> int option" where
  "response_status (Response_error n e) = Some n"
| "response_status _ = None"

definition is_not_found :: "go_error \<Rightarrow> bool" where
  "is_not_found e =
     (if errors_is e Err_not_found then True
      else if list_ex is_no_such_key (err_chain e) then True
      else case List.map_filter response_status (err_chain e) of
             n # _ \<Rightarrow> n = 404
           | [] \<Rightarrow> False)"

lemma is_not_found_wrap: "is_not_found (Wrap_error m e) = is_not_found e"
  by (simp add: is_not_found_def errors_is_def)

lemma is_not_found_sentinel [simp]: "is_not_found Err_not_found"
  by (simp add: is_not_found_def errors_is_def)

subsection \<open>The contracts of a client\<close>

text \<open>
  \<open>view\<close> is the content of the bucket behind the client, \<open>addr\<close> the object key an argument of
  the client addresses. \<open>store_frame\<close> holds with or without faults: an operation changes at most
  the object it addresses, and a listing names only keys under the prefix it asks for.
\<close>

locale store_frame =
  fixes cl :: "'s client"
    and view :: "'s \<Rightarrow> string \<Rightarrow> bytes option"
    and addr :: "string \<Rightarrow> string"
  assumes put_frame: "x \<noteq> addr k \<Longrightarrow> view (snd (cl_put cl k b n s)) x = view s x"
    and multipart_frame: "x \<noteq> addr k \<Longrightarrow> view (snd (cl_multipart cl k b n s)) x = view s x"
    and delete_frame: "x \<noteq> addr k \<Longrightarrow> view (snd (cl_delete cl k s)) x = view s x"
    and copy_frame: "x \<noteq> addr d \<Longrightarrow> view (snd (cl_copy cl src d s)) x = view s x"
    and get_frame: "view (snd (cl_get cl k s)) = view s"
    and range_frame: "view (snd (cl_range_get cl k off len s)) = view s"
    and head_frame: "view (snd (cl_head cl k s)) = view s"
    and list_frame: "view (snd (cl_list cl p d tok m s)) = view s"
    and list_under: "fst (cl_list cl p d tok m s) = Ok r \<Longrightarrow> k \<in> set (lr_keys r) \<Longrightarrow> has_prefix k (addr p)"
    and get_tags_frame: "view (snd (cl_get_tags cl k s)) = view s"
    and put_tags_frame: "view (snd (cl_put_tags cl k ts s)) = view s"
begin

lemmas reads_frame = get_frame range_frame head_frame list_frame get_tags_frame put_tags_frame

lemmas writes_frame = put_frame multipart_frame delete_frame copy_frame

end

text \<open>
  \<open>reliable_store\<close>: in a state with \<open>calm\<close> (no fault pending, a consistent store) the operations
  succeed as documented. \<open>after tok k\<close> says that key \<open>k\<close> lies behind the continuation token
  \<open>tok\<close>; a truncated page is non-empty and its token separates it from the rest.
\<close>

locale reliable_store = store_frame cl view addr
  for cl :: "'s client" and view :: "'s \<Rightarrow> string \<Rightarrow> bytes option" and addr :: "string \<Rightarrow> string" +
  fixes calm :: "'s \<Rightarrow> bool"
    and after :: "string \<Rightarrow> string \<Rightarrow> bool"
  assumes finite_view: "calm s \<Longrightarrow> finite (dom (view s))"
    and after_start: "after '''' k"
    and delete_calm: "calm s \<Longrightarrow> calm (snd (cl_delete cl k s))"
    and delete_gone: "calm s \<Longrightarrow> view (snd (cl_delete cl k s)) (addr k) = None"
    and delete_ok: "calm s \<Longrightarrow> view s (addr k) \<noteq> None \<Longrightarrow> fst (cl_delete cl k s) = Ok ()"
    and delete_missing: "calm s \<Longrightarrow> view s (addr k) = None \<Longrightarrow>
          fst (cl_delete cl k s) = Ok () \<or> (\<exists>e. fst (cl_delete cl k s) = Err e \<and> is_not_found e)"
    and list_calm: "calm s \<Longrightarrow> calm (snd (cl_list cl p d tok m s))"
    and list_page: "calm s \<Longrightarrow> 0 < m \<Longrightarrow> m < 2 ^ 31 \<Longrightarrow> \<exists>r rest.
          fst (cl_list cl p '''' tok m s) = Ok r \<and>
          sorted_list_of_set {k \<in> dom (view s). has_prefix k (addr p) \<and> after tok k} = lr_keys r @ rest \<and>
          length (lr_keys r) = min (nat m) (length (lr_keys r @ rest)) \<and>
          (lr_truncated r \<longleftrightarrow> rest \<noteq> []) \<and>
          (lr_truncated r \<longrightarrow> (\<forall>k \<in> set rest. after (lr_next r) k))"
    and put_calm: "calm s \<Longrightarrow> calm (snd (cl_put cl k b n s))"
    and put_ok: "calm s \<Longrightarrow> n = int (length b) \<Longrightarrow>
          fst (cl_put cl k b n s) = Ok () \<and> view (snd (cl_put cl k b n s)) (addr k) = Some b"
    and multipart_calm: "calm s \<Longrightarrow> calm (snd (cl_multipart cl k b n s))"
    and multipart_ok: "calm s \<Longrightarrow>
          fst (cl_multipart cl k b n s) = Ok () \<and> view (snd (cl_multipart cl k b n s)) (addr k) = Some b"
    and get_calm: "calm s \<Longrightarrow> calm (snd (cl_get cl k s))"
    and get_some: "calm s \<Longrightarrow> view s (addr k) = Some b \<Longrightarrow> fst (cl_get cl k s) = Ok b"
    and get_none: "calm s \<Longrightarrow> view s (addr k) = None \<Longrightarrow>
          \<exists>e. fst (cl_get cl k s) = Err e \<and> is_not_found e"
    and copy_calm: "calm s \<Longrightarrow> calm (snd (cl_copy cl src d s))"
    and range_calm: "calm s \<Longrightarrow> calm (snd (cl_range_get cl k off len s))"
    and head_calm: "calm s \<Longrightarrow> calm (snd (cl_head cl k s))"
    and get_tags_calm: "calm s \<Longrightarrow> calm (snd (cl_get_tags cl k s))"
    and put_tags_calm: "calm s \<Longrightarrow> calm (snd (cl_put_tags cl k ts s))"
    and head_some: "calm s \<Longrightarrow> view s (addr k) = Some b \<Longrightarrow> fst (cl_head cl k s) = Ok (int (length b))"
    and range_some: "calm s \<Longrightarrow> view s (addr k) = Some b \<Longrightarrow> 0 \<le> off \<Longrightarrow> 0 < len \<Longrightarrow>
          off < int (length b) \<Longrightarrow> off + len < 2 ^ 63 \<Longrightarrow>
          fst (cl_range_get cl k off len s) = Ok (take (nat len) (drop (nat off) b))"
    and list_next: "calm s \<Longrightarrow> 0 < m \<Longrightarrow> m < 2 ^ 31 \<Longrightarrow> fst (cl_list cl p '''' tok m s) = Ok r \<Longrightarrow> lr_truncated r \<Longrightarrow>
          {k \<in> dom (view s). has_prefix k (addr p) \<and> after (lr_next r) k} =
          {k \<in> dom (view s). has_prefix k (addr p) \<and> after tok k} - set (lr_keys r)"
    and list_flat: "calm s \<Longrightarrow> 0 < m \<Longrightarrow> m < 2 ^ 31 \<Longrightarrow> fst (cl_list cl p '''' tok m s) = Ok r \<Longrightarrow>
          lr_common_prefixes r = []"
    and list_returns: "calm s \<Longrightarrow> fst (cl_list cl p d tok m s) \<noteq> Panic"
    and head_returns: "calm s \<Longrightarrow> fst (cl_head cl k s) \<noteq> Panic"
    and copy_returns: "calm s \<Longrightarrow> fst (cl_copy cl src d s) \<noteq> Panic"
    and get_tags_returns: "calm s \<Longrightarrow> fst (cl_get_tags cl k s) \<noteq> Panic"
    and put_tags_returns: "calm s \<Longrightarrow> fst (cl_put_tags cl k ts s) \<noteq> Panic"
begin

lemma delete_view: "calm s \<Longrightarrow> view (snd (cl_delete cl k s)) = (view s)(addr k := None)"
  using delete_gone delete_frame by fastforce

lemma put_view:
  "calm s \<Longrightarrow> n = int (length b) \<Longrightarrow> view (snd (cl_put cl k b n s)) = (view s)(addr k \<mapsto> b)"
  using put_ok put_frame by fastforce

lemma multipart_view: "calm s \<Longrightarrow> view (snd (cl_multipart cl k b n s)) = (view s)(addr k \<mapsto> b)"
  using multipart_ok multipart_frame by fastforce

lemmas view_simps = delete_view put_view multipart_view reads_frame

lemmas calm_steps = delete_calm list_calm put_calm multipart_calm get_calm copy_calm range_calm
  head_calm get_tags_calm put_tags_calm

end

text \<open>
  \<open>client_invariant\<close>: a property of the store that no operation of the client destroys. What a
  workload does to the store it does through the client, so such a property outlives any run.
\<close>

locale client_invariant =
  fixes cl :: "'s client" and Q :: "'s \<Rightarrow> bool"
  assumes put_keeps: "Q s \<Longrightarrow> Q (snd (cl_put cl k b n s))"
    and multipart_keeps: "Q s \<Longrightarrow> Q (snd (cl_multipart cl k b n s))"
    and delete_keeps: "Q s \<Longrightarrow> Q (snd (cl_delete cl k s))"
    and copy_keeps: "Q s \<Longrightarrow> Q (snd (cl_copy cl src k s))"
    and get_keeps: "Q s \<Longrightarrow> Q (snd (cl_get cl k s))"
    and range_keeps: "Q s \<Longrightarrow> Q (snd (cl_range_get cl k off len s))"
    and head_keeps: "Q s \<Longrightarrow> Q (snd (cl_head cl k s))"
    and list_keeps: "Q s \<Longrightarrow> Q (snd (cl_list cl p d tok m s))"
    and get_tags_keeps: "Q s \<Longrightarrow> Q (snd (cl_get_tags cl k s))"
    and put_tags_keeps: "Q s \<Longrightarrow> Q (snd (cl_put_tags cl k ts s))"
begin

lemmas keeps = put_keeps multipart_keeps delete_keeps copy_keeps get_keeps range_keeps head_keeps
  list_keeps get_tags_keeps put_tags_keeps

text \<open>The same for a call whose result has been taken apart.\<close>

lemma call_keeps:
  "cl_put cl k b n s = (uo, s1) \<Longrightarrow> Q s \<Longrightarrow> Q s1"
  "cl_multipart cl k b n s = (uo, s1) \<Longrightarrow> Q s \<Longrightarrow> Q s1"
  "cl_delete cl k s = (uo, s1) \<Longrightarrow> Q s \<Longrightarrow> Q s1"
  "cl_copy cl src k s = (uo, s1) \<Longrightarrow> Q s \<Longrightarrow> Q s1"
  "cl_get cl k s = (bo, s1) \<Longrightarrow> Q s \<Longrightarrow> Q s1"
  "cl_range_get cl k off len s = (bo, s1) \<Longrightarrow> Q s \<Longrightarrow> Q s1"
  "cl_head cl k s = (io, s1) \<Longrightarrow> Q s \<Longrightarrow> Q s1"
  "cl_list cl p d tok m s = (lo, s1) \<Longrightarrow> Q s \<Longrightarrow> Q s1"
  "cl_get_tags cl k s = (tagso, s1) \<Longrightarrow> Q s \<Longrightarrow> Q s1"
  "cl_put_tags cl k ts s = (uo, s1) \<Longrightarrow> Q s \<Longrightarrow> Q s1"
  using keeps by (metis snd_conv)+

end

text \<open>Being calm is one, and so is the content of an object that no argument of the client addresses.\<close>

sublocale reliable_store \<subseteq> calm_inv: client_invariant cl calm
  by unfold_locales (simp_all add: calm_steps)

context reliable_store
begin

lemma calm_invariant: "client_invariant cl calm"
  by (rule calm_inv.client_invariant_axioms)

end

context store_frame
begin

lemma unaddressed_invariant:
  assumes "x \<notin> range addr"
  shows "client_invariant cl (\<lambda>s. view s x = v)"
  using assms by unfold_locales (simp_all add: reads_frame writes_frame image_def)

end

text \<open>
  For a program to get to its end, more has to be known than for it to do no harm: that ranged reads
  return, that a missing object has no size, that every page of a listing, grouped or not, continues
  later than the page before it, and that a copy stores the content of an object that is there.
\<close>

locale responsive_store = reliable_store cl view addr calm after
  for cl :: "'s client" and view :: "'s \<Rightarrow> string \<Rightarrow> bytes option" and addr :: "string \<Rightarrow> string"
    and calm :: "'s \<Rightarrow> bool" and after :: "string \<Rightarrow> string \<Rightarrow> bool" +
  assumes range_returns: "calm s \<Longrightarrow> 0 \<le> off \<Longrightarrow> 0 \<le> len \<Longrightarrow> off + len < 2 ^ 63 \<Longrightarrow>
          fst (cl_range_get cl k off len s) \<noteq> Panic"
    and head_none: "calm s \<Longrightarrow> view s (addr k) = None \<Longrightarrow> \<exists>e. fst (cl_head cl k s) = Err e"
    and list_later: "calm s \<Longrightarrow> 0 < m \<Longrightarrow> m < 2 ^ 31 \<Longrightarrow> fst (cl_list cl p d tok m s) = Ok r \<Longrightarrow> lr_truncated r \<Longrightarrow>
          {k \<in> dom (view s). has_prefix k (addr p) \<and> after (lr_next r) k} \<subset>
          {k \<in> dom (view s). has_prefix k (addr p) \<and> after tok k}"
    and copy_source: "\<exists>x. view (snd (cl_copy cl src d s)) (addr d) = view s x"
begin

text \<open>No call panics.\<close>

lemma calls_return:
  assumes "calm s"
  shows "n = int (length b) \<Longrightarrow> fst (cl_put cl k b n s) \<noteq> Panic" "fst (cl_multipart cl k b n s) \<noteq> Panic"
    "fst (cl_delete cl k s) \<noteq> Panic" "fst (cl_get cl k s) \<noteq> Panic" "fst (cl_head cl k s) \<noteq> Panic"
    "fst (cl_list cl p d tok m s) \<noteq> Panic" "fst (cl_copy cl src k s) \<noteq> Panic"
    "fst (cl_get_tags cl k s) \<noteq> Panic" "fst (cl_put_tags cl k ts s) \<noteq> Panic"
proof -
  show "fst (cl_delete cl k s) \<noteq> Panic"
    using delete_ok [OF assms, of k] delete_missing [OF assms, of k] by fastforce
  show "fst (cl_get cl k s) \<noteq> Panic"
    using get_some [OF assms, of k] get_none [OF assms, of k] by fastforce
qed (use assms in \<open>simp_all add: put_ok multipart_ok head_returns list_returns copy_returns
    get_tags_returns put_tags_returns\<close>)

end

end
