(* ===== verification/Fake_Client.thy ===== *)
theory Fake_Client
  imports S3_Client
begin

section \<open>The in-memory client (\<open>internal/s3client/fake/fake.go\<close>)\<close>

text \<open>
  The maps of \<open>fake.Client\<close> are association lists with distinct keys. Every operation runs under
  the mutex or touches the maps in one critical section, so it is one function on the state; the
  artificial delay is part of the state and \<open>fake_pause\<close> says for how many nanoseconds an operation
  sleeps, but time itself does not pass in the model. The wrap-around of \<open>int32(len(keys))\<close> in
  \<open>List\<close> (a store of more than \<open>2 ^ 31\<close> keys) is left out. \<open>fail\<close> holds at most one scheduled error per
  operation name; the next call of that operation consumes it.
\<close>

record fake_state =
  fs_objects :: "(string \<times> bytes) list"
  fs_tags :: "(string \<times> tagset) list"
  fs_fail :: "(string \<times> go_error) list"
  fs_delay :: int

definition fake_new :: fake_state where
  "fake_new = \<lparr>fs_objects = [], fs_tags = [], fs_fail = [], fs_delay = 0\<rparr>"

definition fake_fail_op :: "string \<Rightarrow> go_error \<Rightarrow> fake_state \<Rightarrow> fake_state" where
  "fake_fail_op op e s = s\<lparr>fs_fail := AList.update op e (fs_fail s)\<rparr>"

definition fake_set_delay :: "int \<Rightarrow> fake_state \<Rightarrow> fake_state" where
  "fake_set_delay d s = s\<lparr>fs_delay := d\<rparr>"

definition fake_pause :: "fake_state \<Rightarrow> int" where
  "fake_pause s = (if 0 < fs_delay s then fs_delay s else 0)"

definition fake_objects :: "fake_state \<Rightarrow> (string \<times> int) list" where
  "fake_objects s = map (\<lambda>(k, v). (k, int (length v))) (fs_objects s)"

definition check_fail :: "string \<Rightarrow> fake_state \<Rightarrow> go_error option \<times> fake_state" where
  "check_fail op s =
     (case map_of (fs_fail s) op of
        Some e \<Rightarrow> (Some e, s\<lparr>fs_fail := AList.delete op (fs_fail s)\<rparr>)
      | None \<Rightarrow> (None, s))"

definition fake_put :: "string \<Rightarrow> bytes \<Rightarrow> int \<Rightarrow> fake_state \<Rightarrow> unit res \<times> fake_state" where
  "fake_put key body n s =
     (case check_fail ''put'' s of
        (Some e, s) \<Rightarrow> (Err e, s)
      | (None, s) \<Rightarrow>
          if 0 \<le> n \<and> int (length body) \<noteq> n
          then (Err (Plain_error ''fake: body size mismatch''), s)
          else (Ok (), s\<lparr>fs_objects := AList.update key body (fs_objects s)\<rparr>))"

definition fake_get :: "string \<Rightarrow> fake_state \<Rightarrow> bytes res \<times> fake_state" where
  "fake_get key s =
     (case check_fail ''get'' s of
        (Some e, s) \<Rightarrow> (Err e, s)
      | (None, s) \<Rightarrow>
          (case map_of (fs_objects s) key of
             None \<Rightarrow> (Err Err_not_found, s)
           | Some b \<Rightarrow> (Ok b, s)))"

text \<open>The slice expression \<open>b[lo:hi]\<close> on a byte slice whose capacity is its length.\<close>

definition go_slice :: "'a list \<Rightarrow> int \<Rightarrow> int \<Rightarrow> 'a list res" where
  "go_slice b lo hi =
     (if 0 \<le> lo \<and> lo \<le> hi \<and> hi \<le> int (length b)
      then Ok (take (nat (hi - lo)) (drop (nat lo) b)) else Panic)"

definition fake_range_get :: "string \<Rightarrow> int \<Rightarrow> int \<Rightarrow> fake_state \<Rightarrow> bytes res \<times> fake_state" where
  "fake_range_get key off len s =
     (case check_fail ''range_get'' s of
        (Some e, s) \<Rightarrow> (Err e, s)
      | (None, s) \<Rightarrow>
          (case map_of (fs_objects s) key of
             None \<Rightarrow> (Err Err_not_found, s)
           | Some b \<Rightarrow>
               (let e0 = wrap64 (off + len);
                    e1 = (if e0 > int (length b) then int (length b) else e0)
                in if off > int (length b) then (Ok [], s) else (go_slice b off e1, s))))"

definition fake_head :: "string \<Rightarrow> fake_state \<Rightarrow> int res \<times> fake_state" where
  "fake_head key s =
     (case check_fail ''head'' s of
        (Some e, s) \<Rightarrow> (Err e, s)
      | (None, s) \<Rightarrow>
          (case map_of (fs_objects s) key of
             None \<Rightarrow> (Err Err_not_found, s)
           | Some b \<Rightarrow> (Ok (int (length b)), s)))"

definition fake_delete :: "string \<Rightarrow> fake_state \<Rightarrow> unit res \<times> fake_state" where
  "fake_delete key s =
     (case check_fail ''delete'' s of
        (Some e, s) \<Rightarrow> (Err e, s)
      | (None, s) \<Rightarrow> (Ok (), s\<lparr>fs_objects := AList.delete key (fs_objects s)\<rparr>))"

text \<open>
  The grouping loop of \<open>List\<close>: a key with the delimiter behind the prefix contributes its
  common prefix once, in order of first appearance; every other key stays in the page.
\<close>

fun group_keys ::
  "string \<Rightarrow> string \<Rightarrow> string list \<Rightarrow> string list \<Rightarrow> string list \<Rightarrow> string list \<times> string list" where
  "group_keys p d [] cps flat = (cps, flat)"
| "group_keys p d (k # ks) cps flat =
     (let rest = trim_prefix k p; idx = str_index rest d in
      if 0 \<le> idx then
        let cp = p @ take (nat idx + length d) rest in
        group_keys p d ks (if cp \<in> set cps then cps else cps @ [cp]) flat
      else group_keys p d ks cps (flat @ [k]))"

text \<open>The keys a call considers, and the page it makes of them.\<close>

definition list_keys :: "string \<Rightarrow> string \<Rightarrow> (string \<times> bytes) list \<Rightarrow> string list" where
  "list_keys p tok objs =
     (let keys = sort (filter (\<lambda>k. has_prefix k p) (map fst objs)) in
      if tok \<noteq> [] then dropWhile (\<lambda>k. k < tok) keys else keys)"

definition cut_page :: "int \<Rightarrow> string list \<Rightarrow> string list \<Rightarrow> list_result" where
  "cut_page m cps keys =
     (if int (length keys) > m
      then \<lparr>lr_keys = take (nat m) keys, lr_common_prefixes = cps,
            lr_next = keys ! nat m, lr_truncated = True\<rparr>
      else \<lparr>lr_keys = keys, lr_common_prefixes = cps, lr_next = '''', lr_truncated = False\<rparr>)"

definition list_page :: "string \<Rightarrow> string \<Rightarrow> int \<Rightarrow> string list \<Rightarrow> list_result" where
  "list_page p d max_keys keys0 =
     (let m = (if max_keys \<le> 0 then 1000 else max_keys);
          (cps, keys) = (if d \<noteq> [] then group_keys p d keys0 [] [] else ([], keys0))
      in cut_page m cps keys)"

definition fake_list ::
  "string \<Rightarrow> string \<Rightarrow> string \<Rightarrow> int \<Rightarrow> fake_state \<Rightarrow> list_result res \<times> fake_state" where
  "fake_list p d tok max_keys s =
     (case check_fail ''list'' s of
        (Some e, s) \<Rightarrow> (Err e, s)
      | (None, s) \<Rightarrow> (Ok (list_page p d max_keys (list_keys p tok (fs_objects s))), s))"

definition fake_copy :: "string \<Rightarrow> string \<Rightarrow> fake_state \<Rightarrow> unit res \<times> fake_state" where
  "fake_copy src dst s =
     (case check_fail ''copy'' s of
        (Some e, s) \<Rightarrow> (Err e, s)
      | (None, s) \<Rightarrow>
          (case map_of (fs_objects s) src of
             None \<Rightarrow> (Err Err_not_found, s)
           | Some b \<Rightarrow> (Ok (), s\<lparr>fs_objects := AList.update dst b (fs_objects s)\<rparr>)))"

definition fake_get_tags :: "string \<Rightarrow> fake_state \<Rightarrow> tagset res \<times> fake_state" where
  "fake_get_tags key s =
     (case check_fail ''get_tagging'' s of
        (Some e, s) \<Rightarrow> (Err e, s)
      | (None, s) \<Rightarrow>
          (case map_of (fs_tags s) key of
             None \<Rightarrow> (Ok [], s)
           | Some t \<Rightarrow> (Ok t, s)))"

definition fake_put_tags :: "string \<Rightarrow> tagset \<Rightarrow> fake_state \<Rightarrow> unit res \<times> fake_state" where
  "fake_put_tags key tags s =
     (case check_fail ''put_tagging'' s of
        (Some e, s) \<Rightarrow> (Err e, s)
      | (None, s) \<Rightarrow> (Ok (), s\<lparr>fs_tags := AList.update key tags (fs_tags s)\<rparr>))"

definition fake_multipart :: "string \<Rightarrow> bytes \<Rightarrow> int \<Rightarrow> fake_state \<Rightarrow> unit res \<times> fake_state" where
  "fake_multipart key body n s =
     (case check_fail ''multipart_complete'' s of
        (Some e, s) \<Rightarrow> (Err e, s)
      | (None, s) \<Rightarrow> (Ok (), s\<lparr>fs_objects := AList.update key body (fs_objects s)\<rparr>))"

definition fake_client :: "fake_state client" where
  "fake_client =
     \<lparr>cl_put = fake_put, cl_get = fake_get, cl_range_get = fake_range_get, cl_head = fake_head,
      cl_delete = fake_delete, cl_list = fake_list, cl_copy = fake_copy,
      cl_get_tags = fake_get_tags, cl_put_tags = fake_put_tags, cl_multipart = fake_multipart\<rparr>"

lemma fake_client_sel [simp]:
  "cl_put fake_client = fake_put" "cl_get fake_client = fake_get"
  "cl_range_get fake_client = fake_range_get" "cl_head fake_client = fake_head"
  "cl_delete fake_client = fake_delete" "cl_list fake_client = fake_list"
  "cl_copy fake_client = fake_copy" "cl_get_tags fake_client = fake_get_tags"
  "cl_put_tags fake_client = fake_put_tags" "cl_multipart fake_client = fake_multipart"
  by (simp_all add: fake_client_def)

lemmas fake_op_defs = fake_put_def fake_get_def fake_range_get_def fake_head_def fake_delete_def
  fake_list_def fake_copy_def fake_get_tags_def fake_put_tags_def fake_multipart_def

subsection \<open>Fault injection\<close>

definition fake_view :: "fake_state \<Rightarrow> string \<Rightarrow> bytes option" where
  "fake_view s = map_of (fs_objects s)"

lemma check_fail_objects [simp]: "fs_objects (snd (check_fail op s)) = fs_objects s"
  by (simp add: check_fail_def split: option.splits)

lemma check_fail_none [simp]: "map_of (fs_fail s) op = None \<Longrightarrow> check_fail op s = (None, s)"
  by (simp add: check_fail_def)

lemma check_fail_some [simp]: "map_of (fs_fail s) op = Some e \<Longrightarrow>
    check_fail op s = (Some e, s\<lparr>fs_fail := AList.delete op (fs_fail s)\<rparr>)"
  by (simp add: check_fail_def)

text \<open>A scheduled error fires exactly once.\<close>

lemma fail_op_fires: "check_fail op (fake_fail_op op e s) = (Some e, s\<lparr>fs_fail := AList.delete op (fs_fail s)\<rparr>)"
  by (simp add: check_fail_def fake_fail_op_def update_conv' AList.delete_update_same)

subsection \<open>Frame and well-formedness\<close>

lemma group_keys_flat:
  "set (snd (group_keys p d ks cps flat)) \<subseteq> set flat \<union> set ks"
proof (induction ks arbitrary: cps flat)
  case (Cons k ks)
  obtain cps' flat' where "group_keys p d (k # ks) cps flat = group_keys p d ks cps' flat'"
    "flat' = flat \<or> flat' = flat @ [k]"
    by (simp add: Let_def) (metis (full_types))
  then show ?case using Cons [of cps' flat'] by auto
qed simp

lemma cut_page_keys: "set (lr_keys (cut_page m cps keys)) \<subseteq> set keys"
  by (auto simp: cut_page_def dest: in_set_takeD)

lemma list_page_keys: "set (lr_keys (list_page p d m ks)) \<subseteq> set ks"
proof (cases "group_keys p d ks [] []")
  case (Pair cps keys)
  then have "set keys \<subseteq> set ks" using group_keys_flat [of p d ks "[]" "[]"] by simp
  then show ?thesis using Pair cut_page_keys by (simp add: list_page_def Let_def) blast
qed

lemma list_keys_under: "k \<in> set (list_keys p tok objs) \<Longrightarrow> has_prefix k p"
  by (auto simp: list_keys_def Let_def split: if_splits dest: set_dropWhileD)

lemma fake_list_under:
  assumes "fst (fake_list p d tok m s) = Ok r" "k \<in> set (lr_keys r)"
  shows "has_prefix k p"
proof (cases "map_of (fs_fail s) ''list''")
  case None
  then have "r = list_page p d m (list_keys p tok (fs_objects s))"
    using assms(1) by (simp add: fake_list_def)
  then show ?thesis using assms(2) list_page_keys list_keys_under by blast
qed (use assms in \<open>simp add: fake_list_def\<close>)

interpretation fake_frame: store_frame fake_client fake_view id
proof (unfold_locales, goal_cases)
  case (1 x k b n s) then show ?case
    by (cases "map_of (fs_fail s) ''put''") (auto simp: fake_put_def fake_view_def update_conv')
next
  case (2 x k b n s) then show ?case
    by (cases "map_of (fs_fail s) ''multipart_complete''")
      (auto simp: fake_multipart_def fake_view_def update_conv')
next
  case (3 x k s) then show ?case
    by (cases "map_of (fs_fail s) ''delete''") (auto simp: fake_delete_def fake_view_def)
next
  case (4 x d src s) then show ?case
    by (cases "map_of (fs_fail s) ''copy''")
      (auto simp: fake_copy_def fake_view_def update_conv' split: option.splits)
next
  case (5 k s) then show ?case
    by (cases "map_of (fs_fail s) ''get''") (auto simp: fake_get_def fake_view_def split: option.splits)
next
  case (6 k off len s) then show ?case
    by (cases "map_of (fs_fail s) ''range_get''")
      (auto simp: fake_range_get_def fake_view_def Let_def split: option.splits)
next
  case (7 k s) then show ?case
    by (cases "map_of (fs_fail s) ''head''") (auto simp: fake_head_def fake_view_def split: option.splits)
next
  case (8 p d tok m s) then show ?case
    by (cases "map_of (fs_fail s) ''list''")
      (auto simp: fake_list_def fake_view_def Let_def split: prod.splits)
next
  case (9 p d tok m s r k) then show ?case using fake_list_under [of p d tok m s r k] by simp
next
  case (10 k s) then show ?case
    by (cases "map_of (fs_fail s) ''get_tagging''")
      (auto simp: fake_get_tags_def fake_view_def split: option.splits)
next
  case (11 k ts s) then show ?case
    by (cases "map_of (fs_fail s) ''put_tagging''") (auto simp: fake_put_tags_def fake_view_def)
qed

definition fake_wf :: "fake_state \<Rightarrow> bool" where
  "fake_wf s \<longleftrightarrow> distinct (map fst (fs_objects s)) \<and> distinct (map fst (fs_tags s))
     \<and> distinct (map fst (fs_fail s))"

lemma fake_wf_new: "fake_wf fake_new"
  by (simp add: fake_wf_def fake_new_def)

lemma check_fail_wf: "fake_wf s \<Longrightarrow> fake_wf (snd (check_fail op s))"
  by (cases "map_of (fs_fail s) op") (auto simp: fake_wf_def distinct_delete)

lemma fake_wf_update_obj [simp]: "fake_wf s \<Longrightarrow> fake_wf (s\<lparr>fs_objects := AList.update k v (fs_objects s)\<rparr>)"
  by (simp add: fake_wf_def distinct_update)

lemma fake_wf_delete_obj [simp]: "fake_wf s \<Longrightarrow> fake_wf (s\<lparr>fs_objects := AList.delete k (fs_objects s)\<rparr>)"
  by (simp add: fake_wf_def distinct_delete)

lemma fake_wf_update_tags [simp]: "fake_wf s \<Longrightarrow> fake_wf (s\<lparr>fs_tags := AList.update k v (fs_tags s)\<rparr>)"
  by (simp add: fake_wf_def distinct_update)

text \<open>Every operation keeps the maps well-formed, whatever it returns.\<close>

lemma fake_ops_wf:
  assumes "fake_wf s"
  shows "fake_wf (snd (fake_put k b n s))" "fake_wf (snd (fake_get k s))"
    "fake_wf (snd (fake_range_get k off len s))" "fake_wf (snd (fake_head k s))"
    "fake_wf (snd (fake_delete k s))" "fake_wf (snd (fake_list p d tok m s))"
    "fake_wf (snd (fake_copy src dst s))" "fake_wf (snd (fake_get_tags k s))"
    "fake_wf (snd (fake_put_tags k t s))" "fake_wf (snd (fake_multipart k b n s))"
  using check_fail_wf [OF assms]
  by (auto simp: fake_op_defs Let_def assms split: option.splits prod.splits)
    (metis snd_conv fake_wf_update_obj fake_wf_delete_obj fake_wf_update_tags)+

interpretation fake_wf_inv: client_invariant fake_client fake_wf
  by unfold_locales (simp_all add: fake_ops_wf)

subsection \<open>Listing\<close>

lemma dropWhile_sorted_filter:
  fixes t :: "'a::linorder"
  shows "sorted xs \<Longrightarrow> dropWhile (\<lambda>k. k < t) xs = filter (\<lambda>k. t \<le> k) xs"
proof (induction xs)
  case (Cons x xs)
  show ?case
  proof (cases "x < t")
    case False
    then have "\<forall>k \<in> set xs. t \<le> k" using Cons.prems by auto
    then show ?thesis using False by (simp add: filter_id_conv)
  qed (use Cons in auto)
qed simp

lemma Nil_le_string [simp]: "[] \<le> (k::string)"
  by simp

text \<open>The page before truncation: the keys under the prefix from the token on, in order.\<close>

definition keys_from :: "string \<Rightarrow> string \<Rightarrow> (string \<times> bytes) list \<Rightarrow> string list" where
  "keys_from p tok objs = sort (filter (\<lambda>k. has_prefix k p \<and> tok \<le> k) (map fst objs))"

lemma keys_from_set: "set (keys_from p tok objs) = {k \<in> fst ` set objs. has_prefix k p \<and> tok \<le> k}"
  by (auto simp: keys_from_def)

lemma list_keys_eq: "list_keys p tok objs = keys_from p tok objs"
  by (auto simp: list_keys_def keys_from_def Let_def dropWhile_sorted_filter filter_sort conj_commute)

lemma keys_from_sorted_list_of_set:
  assumes "distinct (map fst objs)"
  shows "sorted_list_of_set {k \<in> dom (map_of objs). has_prefix k p \<and> tok \<le> k} = keys_from p tok objs"
proof -
  let ?xs = "filter (\<lambda>k. has_prefix k p \<and> tok \<le> k) (map fst objs)"
  have "{k \<in> dom (map_of objs). has_prefix k p \<and> tok \<le> k} = set ?xs"
    by (auto simp: dom_map_of_conv_image_fst)
  moreover have "distinct ?xs" using assms by (rule distinct_filter)
  ultimately show ?thesis
    by (simp only: sorted_list_of_set_sort_remdups distinct_remdups_id keys_from_def)
qed

lemma fake_list_flat:
  assumes "map_of (fs_fail s) ''list'' = None"
  shows "fake_list p '''' tok m s =
    (let keys = keys_from p tok (fs_objects s); m' = nat (if m \<le> 0 then 1000 else m) in
     (Ok (if m' < length keys
          then \<lparr>lr_keys = take m' keys, lr_common_prefixes = [], lr_next = keys ! m', lr_truncated = True\<rparr>
          else \<lparr>lr_keys = keys, lr_common_prefixes = [], lr_next = '''', lr_truncated = False\<rparr>), s))"
  using assms by (auto simp: fake_list_def list_page_def cut_page_def list_keys_eq Let_def)

subsection \<open>The client contract\<close>

definition fake_calm :: "fake_state \<Rightarrow> bool" where
  "fake_calm s \<longleftrightarrow> fake_wf s \<and> fs_fail s = []"

lemma fake_calm_fail [simp]: "fake_calm s \<Longrightarrow> fs_fail s = []"
  by (simp add: fake_calm_def)

lemma fake_calm_update [simp]:
  "fake_calm s \<Longrightarrow> fake_calm (s\<lparr>fs_objects := AList.update k v (fs_objects s)\<rparr>)"
  "fake_calm s \<Longrightarrow> fake_calm (s\<lparr>fs_objects := AList.delete k (fs_objects s)\<rparr>)"
  "fake_calm s \<Longrightarrow> fake_calm (s\<lparr>fs_tags := AList.update k t (fs_tags s)\<rparr>)"
  by (simp_all add: fake_calm_def)

lemma fake_list_page:
  assumes "fake_calm s" and "0 < m"
  shows "\<exists>r rest. fst (fake_list p '''' tok m s) = Ok r \<and>
     sorted_list_of_set {k \<in> dom (fake_view s). has_prefix k p \<and> tok \<le> k} = lr_keys r @ rest \<and>
     length (lr_keys r) = min (nat m) (length (lr_keys r @ rest)) \<and>
     (lr_truncated r \<longleftrightarrow> rest \<noteq> []) \<and>
     (lr_truncated r \<longrightarrow> (\<forall>k \<in> set rest. lr_next r \<le> k))"
proof -
  let ?keys = "keys_from p tok (fs_objects s)"
  have page: "sorted_list_of_set {k \<in> dom (fake_view s). has_prefix k p \<and> tok \<le> k} = ?keys"
    using keys_from_sorted_list_of_set [of "fs_objects s" p tok] assms
    by (simp only: fake_view_def fake_calm_def fake_wf_def)
  have srt: "sorted ?keys" by (simp add: keys_from_def)
  show ?thesis
  proof (cases "nat m < length ?keys")
    case True
    let ?r = "\<lparr>lr_keys = take (nat m) ?keys, lr_common_prefixes = [],
               lr_next = ?keys ! nat m, lr_truncated = True\<rparr>"
    have d: "drop (nat m) ?keys = ?keys ! nat m # drop (Suc (nat m)) ?keys"
      using True by (simp add: Cons_nth_drop_Suc)
    have "sorted (drop (nat m) ?keys)" using srt by (rule sorted_wrt_drop)
    then have "\<forall>k \<in> set (drop (nat m) ?keys). ?keys ! nat m \<le> k" unfolding d by auto
    moreover have "fst (fake_list p '''' tok m s) = Ok ?r"
      using True assms by (simp add: fake_list_flat Let_def)
    moreover have "drop (nat m) ?keys \<noteq> []" using True by simp
    ultimately show ?thesis using True page
      by (intro exI [of _ ?r] exI [of _ "drop (nat m) ?keys"]) (simp del: drop_eq_Nil)
  next
    case False
    let ?r = "\<lparr>lr_keys = ?keys, lr_common_prefixes = [], lr_next = '''', lr_truncated = False\<rparr>"
    have "fst (fake_list p '''' tok m s) = Ok ?r"
      using False assms by (simp add: fake_list_flat Let_def)
    then show ?thesis using False page
      by (intro exI [of _ ?r] exI [of _ "[]"]) simp
  qed
qed

lemma sorted_distinct_nth_le:
  fixes ks :: "'a::linorder list"
  assumes "sorted ks" "distinct ks" "n < length ks" "k \<in> set ks"
  shows "ks ! n \<le> k \<longleftrightarrow> k \<notin> set (take n ks)"
proof -
  obtain i where i: "i < length ks" "k = ks ! i" using assms(4) by (metis in_set_conv_nth)
  have "k \<in> set (take n ks) \<longleftrightarrow> i < n"
    using i assms(2,3) by (auto simp: in_set_conv_nth nth_eq_iff_index_eq)
  moreover have "ks ! n \<le> ks ! i \<longleftrightarrow> n \<le> i"
    using assms(1-3) i(1) sorted_iff_nth_mono [of ks] nth_eq_iff_index_eq [of ks n i]
    by (metis linorder_not_le nle_le order_less_imp_le)
  ultimately show ?thesis using i(2) by auto
qed

lemma fake_list_next:
  assumes "fake_calm s" "0 < m" "fst (fake_list p '''' tok m s) = Ok r" "lr_truncated r"
  shows "{k \<in> dom (fake_view s). has_prefix k p \<and> lr_next r \<le> k} =
    {k \<in> dom (fake_view s). has_prefix k p \<and> tok \<le> k} - set (lr_keys r)"
proof -
  let ?keys = "keys_from p tok (fs_objects s)"
  have r: "nat m < length ?keys" "lr_keys r = take (nat m) ?keys" "lr_next r = ?keys ! nat m"
    using assms by (auto simp: fake_list_flat Let_def split: if_splits)
  have dom: "dom (fake_view s) = fst ` set (fs_objects s)"
    by (simp add: fake_view_def dom_map_of_conv_image_fst)
  have "distinct (map fst (fs_objects s))" using assms(1) unfolding fake_calm_def fake_wf_def by blast
  then have "distinct ?keys" unfolding keys_from_def distinct_sort by (rule distinct_filter)
  moreover have "sorted ?keys" by (simp add: keys_from_def)
  ultimately have le: "lr_next r \<le> k \<longleftrightarrow> k \<notin> set (lr_keys r)" if "k \<in> set ?keys" for k
    using sorted_distinct_nth_le [OF _ _ r(1) that] r(2,3) by simp
  have "lr_next r \<in> set ?keys" using r(1,3) by simp
  then have tok: "tok \<le> lr_next r" by (simp add: keys_from_set)
  have "lr_next r \<le> k \<longleftrightarrow> tok \<le> k \<and> k \<notin> set (lr_keys r)" if "k \<in> fst ` set (fs_objects s)" "has_prefix k p" for k
  proof (cases "tok \<le> k")
    case True
    then show ?thesis using le [of k] that by (simp add: keys_from_set)
  next
    case False
    then show ?thesis using tok order_trans by blast
  qed
  then show ?thesis unfolding dom by blast
qed

lemma fake_calm_ops [simp]:
  assumes "fake_calm s"
  shows "fake_calm (snd (fake_put k b n s))" "fake_calm (snd (fake_get k s))"
    "fake_calm (snd (fake_delete k s))" "fake_calm (snd (fake_list p d tok m s))"
    "fake_calm (snd (fake_copy src dst s))" "fake_calm (snd (fake_multipart k b n s))"
    "fake_calm (snd (fake_head k s))" "fake_calm (snd (fake_range_get k off len s))"
    "fake_calm (snd (fake_get_tags k s))" "fake_calm (snd (fake_put_tags k t s))"
  using assms by (auto simp: fake_op_defs Let_def split: option.splits prod.splits)

lemma fake_delete_Ok: "fake_calm s \<Longrightarrow> fst (fake_delete k s) = Ok ()"
  by (simp add: fake_delete_def)

lemma fake_range_some:
  assumes "fake_calm s" "fake_view s k = Some b" "0 \<le> off" "0 < len" "off < int (length b)" "off + len < 2 ^ 63"
  shows "fst (fake_range_get k off len s) = Ok (take (nat len) (drop (nat off) b))"
proof -
  have fail: "map_of (fs_fail s) ''range_get'' = None" using assms(1) by simp
  define e where "e = (if off + len > int (length b) then int (length b) else off + len)"
  have w: "wrap64 (off + len) = off + len" using assms by (intro wrap64_id) (simp add: in_int64_iff)
  have e: "off \<le> e" "e \<le> int (length b)" "nat (e - off) = min (nat len) (length b - nat off)"
    using assms(3-5) by (auto simp: e_def)
  have "fst (fake_range_get k off len s) = go_slice b off e"
    using assms(2,5) fail by (simp add: fake_range_get_def check_fail_def fake_view_def w e_def Let_def)
  also have "\<dots> = Ok (take (nat (e - off)) (drop (nat off) b))"
    using assms(3) e(1,2) by (simp add: go_slice_def)
  finally show ?thesis by (simp add: e(3) min_def)
qed

interpretation fake: reliable_store fake_client fake_view id fake_calm "\<lambda>tok k. tok \<le> k"
proof (unfold_locales, goal_cases)
  case (1 s) show ?case by (simp add: fake_view_def finite_dom_map_of)
next
  case (8 s m p tok) then show ?case using fake_list_page [of s m p tok] by simp
next
  case (22 s k b off len) then show ?case using fake_range_some [of s k b off len] by simp
next
  case (23 s m p tok r) then show ?case using fake_list_next [of s m p tok r] by simp
next
  case (24 s m p tok r) then show ?case by (auto simp: fake_list_flat Let_def split: if_splits)
next
  case (25 s p d tok m) then show ?case by (simp add: fake_list_def check_fail_def)
next
  case (29 s k ts) then show ?case by (simp add: fake_put_tags_def check_fail_def)
qed (auto simp: fake_op_defs fake_view_def Let_def update_conv' delete_conv' split: option.splits)

subsection \<open>The in-memory client is responsive\<close>

lemma group_keys_filter:
  "snd (group_keys p d ks cps flat) = flat @ filter (\<lambda>k. str_index (trim_prefix k p) d < 0) ks"
  by (induction p d ks cps flat rule: group_keys.induct) (auto simp: Let_def not_le)

text \<open>A truncated page starts at the least key listed and continues at a later one.\<close>

lemma list_page_next:
  assumes "lr_truncated (list_page p d m keys)" "0 < m" "sorted keys" "distinct keys"
  shows "lr_next (list_page p d m keys) \<in> set keys \<and> (\<exists>k \<in> set keys. k < lr_next (list_page p d m keys))"
proof -
  define flat where "flat = (if d \<noteq> [] then snd (group_keys p d keys [] []) else keys)"
  have page: "\<exists>cps. list_page p d m keys = cut_page m cps flat"
    using assms(2) by (cases "group_keys p d keys [] []") (auto simp: list_page_def flat_def)
  have flat: "sorted flat" "distinct flat" "set flat \<subseteq> set keys"
    using assms(3,4) by (auto simp: flat_def group_keys_filter sorted_wrt_filter)
  have nxt: "lr_next (list_page p d m keys) = flat ! nat m" "nat m < length flat"
    using page assms(1,2) by (auto simp: cut_page_def split: if_splits)
  have "flat ! 0 \<le> flat ! nat m" using flat(1) nxt(2) by (simp add: sorted_nth_mono)
  moreover have "flat ! 0 \<noteq> flat ! nat m"
    using flat(2) nxt(2) assms(2) by (subst nth_eq_iff_index_eq) auto
  ultimately have "flat ! 0 < flat ! nat m" by simp
  moreover have "flat ! 0 \<in> set flat" "flat ! nat m \<in> set flat" using nxt(2) by (auto intro: nth_mem)
  ultimately show ?thesis using flat(3) by (auto simp: nxt(1))
qed

lemma fake_list_later:
  assumes "fake_calm s" "0 < m" "fst (fake_list p d tok m s) = Ok r" "lr_truncated r"
  shows "{k \<in> dom (fake_view s). has_prefix k p \<and> lr_next r \<le> k} \<subset>
    {k \<in> dom (fake_view s). has_prefix k p \<and> tok \<le> k}"
proof -
  let ?keys = "keys_from p tok (fs_objects s)"
  have r: "r = list_page p d m ?keys" using assms(1,3) by (simp add: fake_list_def list_keys_eq)
  have "distinct (map fst (fs_objects s))" using assms(1) unfolding fake_calm_def fake_wf_def by blast
  then have "distinct ?keys" unfolding keys_from_def distinct_sort by (rule distinct_filter)
  moreover have "sorted ?keys" by (simp add: keys_from_def)
  ultimately obtain k where k: "lr_next r \<in> set ?keys" "k \<in> set ?keys" "k < lr_next r"
    using list_page_next [of p d m ?keys] assms(2,4) unfolding r by blast
  have dom: "dom (fake_view s) = fst ` set (fs_objects s)"
    by (simp add: fake_view_def dom_map_of_conv_image_fst)
  have "tok \<le> lr_next r" using k(1) by (simp add: keys_from_set)
  moreover have "k \<in> fst ` set (fs_objects s)" "has_prefix k p" "tok \<le> k" "\<not> lr_next r \<le> k"
    using k(2,3) by (simp_all add: keys_from_set)
  ultimately show ?thesis unfolding dom by (blast intro: order_trans)
qed

lemma fake_range_returns:
  assumes "fake_calm s" "0 \<le> off" "0 \<le> len" "off + len < 2 ^ 63"
  shows "fst (fake_range_get k off len s) \<noteq> Panic"
proof -
  have "wrap64 (off + len) = off + len" using assms by (intro wrap64_id) (simp add: in_int64_iff)
  then show ?thesis
    using assms by (auto simp: fake_range_get_def Let_def go_slice_def split: option.splits)
qed

interpretation fake: responsive_store fake_client fake_view id fake_calm "\<lambda>tok k. tok \<le> k"
proof (unfold_locales, goal_cases)
  case (1 s off len k) then show ?case using fake_range_returns [of s off len k] by simp
next
  case (2 s k) then show ?case by (simp add: fake_head_def fake_view_def)
next
  case (3 s m p d tok r) then show ?case using fake_list_later [of s m p d tok r] by simp
next
  case (4 src d s)
  show ?case
  proof (cases "map_of (fs_fail s) ''copy'' = None \<and> fake_view s src \<noteq> None")
    case True
    then show ?thesis by (intro exI [of _ src]) (auto simp: fake_copy_def fake_view_def update_conv')
  next
    case False
    then show ?thesis
      by (intro exI [of _ d]) (auto simp: fake_copy_def check_fail_def fake_view_def split: option.splits)
  qed
qed

end
