(* ===== verification/Aws_Client.thy ===== *)
theory Aws_Client
  imports Fake_Client Go_Strconv
begin

section \<open>The SDK-backed client (\<open>internal/s3client/aws.go\<close>, \<open>transport.go\<close>)\<close>

text \<open>
  The AWS SDK is not part of the repository: the requests it can send are the record \<open>'s sdk\<close>, a
  parameter of every definition that uses it. The client itself turns each call of the interface
  into one request on full object keys and unpacks the answer. What S3 documents about these
  requests is the locale \<open>s3_endpoint\<close>; with it the client satisfies the contracts of
  \<open>S3_Client\<close>, addressing the keys below its prefix.
\<close>

subsection \<open>Construction\<close>

record aws_config =
  ac_endpoint :: string
  ac_region :: string
  ac_bucket :: string
  ac_prefix :: string
  ac_path_style :: bool
  ac_credentials :: "string \<times> string"
  ac_part_size :: int
  ac_concurrency :: int
  ac_max_retries :: int

record sdk_options =
  so_region :: string
  so_path_style :: bool
  so_credentials :: "string \<times> string"
  so_max_attempts :: int
  so_base_endpoint :: "string option"

record uploader_options =
  up_part_size :: "int option"      \<comment> \<open>\<open>None\<close>: the SDK's default is kept\<close>
  up_concurrency :: "int option"

record aws =
  aws_options :: sdk_options
  aws_bucket :: string
  aws_prefix :: string
  aws_uploader :: uploader_options

definition new_aws :: "aws_config \<Rightarrow> aws" where
  "new_aws cfg =
     (let attempts = (if ac_max_retries cfg \<le> 0 then 1 else ac_max_retries cfg) in
      \<lparr>aws_options =
         \<lparr>so_region = ac_region cfg, so_path_style = ac_path_style cfg,
          so_credentials = ac_credentials cfg, so_max_attempts = attempts,
          so_base_endpoint = (if ac_endpoint cfg \<noteq> [] then Some (ac_endpoint cfg) else None)\<rparr>,
       aws_bucket = ac_bucket cfg, aws_prefix = ac_prefix cfg,
       aws_uploader =
         \<lparr>up_part_size = (if 0 < ac_part_size cfg then Some (ac_part_size cfg) else None),
          up_concurrency = (if 0 < ac_concurrency cfg then Some (ac_concurrency cfg) else None)\<rparr>\<rparr>)"

record transport_options =
  to_max_idle :: int
  to_tls_skip :: bool
  to_http2 :: bool

record transport =
  tr_max_idle_conns :: int
  tr_max_idle_per_host :: int
  tr_max_per_host :: int
  tr_disable_compression :: bool
  tr_force_http2 :: bool
  tr_insecure :: bool

definition new_transport :: "transport_options \<Rightarrow> transport" where
  "new_transport opt =
     (let max_idle = (if to_max_idle opt \<le> 0 then 4096 else to_max_idle opt) in
      \<lparr>tr_max_idle_conns = 0, tr_max_idle_per_host = max_idle, tr_max_per_host = 0,
       tr_disable_compression = True, tr_force_http2 = to_http2 opt, tr_insecure = to_tls_skip opt\<rparr>)"

subsection \<open>Requests\<close>

record list_input =
  li_bucket :: string
  li_prefix :: string
  li_max_keys :: int
  li_delimiter :: "string option"
  li_token :: "string option"

record list_output =
  lo_truncated :: "bool option"
  lo_next :: "string option"
  lo_contents :: "string option list"
  lo_prefixes :: "string option list"

record 's sdk =
  sdk_put_object :: "string \<Rightarrow> string \<Rightarrow> bytes \<Rightarrow> int \<Rightarrow> 's \<Rightarrow> unit res \<times> 's"
  sdk_get_object :: "string \<Rightarrow> string \<Rightarrow> string option \<Rightarrow> 's \<Rightarrow> bytes res \<times> 's"
  sdk_head_object :: "string \<Rightarrow> string \<Rightarrow> 's \<Rightarrow> int option res \<times> 's"
  sdk_delete_object :: "string \<Rightarrow> string \<Rightarrow> 's \<Rightarrow> unit res \<times> 's"
  sdk_list_objects :: "list_input \<Rightarrow> 's \<Rightarrow> list_output res \<times> 's"
  sdk_copy_object :: "string \<Rightarrow> string \<Rightarrow> string \<Rightarrow> 's \<Rightarrow> unit res \<times> 's"
  sdk_get_tagging :: "string \<Rightarrow> string \<Rightarrow> 's \<Rightarrow> (string option \<times> string option) list res \<times> 's"
  sdk_put_tagging :: "string \<Rightarrow> string \<Rightarrow> tagset \<Rightarrow> 's \<Rightarrow> unit res \<times> 's"
  sdk_upload :: "string \<Rightarrow> string \<Rightarrow> bytes \<Rightarrow> 's \<Rightarrow> unit res \<times> 's"

definition aws_key :: "aws \<Rightarrow> string \<Rightarrow> string" where
  "aws_key a k = join_prefix (aws_prefix a) k"

definition aws_put :: "aws \<Rightarrow> 's sdk \<Rightarrow> string \<Rightarrow> bytes \<Rightarrow> int \<Rightarrow> 's \<Rightarrow> unit res \<times> 's" where
  "aws_put a api key body n = sdk_put_object api (aws_bucket a) (aws_key a key) body n"

definition aws_get :: "aws \<Rightarrow> 's sdk \<Rightarrow> string \<Rightarrow> 's \<Rightarrow> bytes res \<times> 's" where
  "aws_get a api key = sdk_get_object api (aws_bucket a) (aws_key a key) None"

definition byte_range :: "int \<Rightarrow> int \<Rightarrow> string" where
  "byte_range off len = ''bytes='' @ format_int off @ ''-'' @ format_int (wrap64 (off + len - 1))"

definition aws_range_get :: "aws \<Rightarrow> 's sdk \<Rightarrow> string \<Rightarrow> int \<Rightarrow> int \<Rightarrow> 's \<Rightarrow> bytes res \<times> 's" where
  "aws_range_get a api key off len =
     sdk_get_object api (aws_bucket a) (aws_key a key) (Some (byte_range off len))"

definition aws_head :: "aws \<Rightarrow> 's sdk \<Rightarrow> string \<Rightarrow> 's \<Rightarrow> int res \<times> 's" where
  "aws_head a api key s =
     (case sdk_head_object api (aws_bucket a) (aws_key a key) s of
        (Ok None, s) \<Rightarrow> (Ok 0, s)
      | (Ok (Some n), s) \<Rightarrow> (Ok n, s)
      | (Err e, s) \<Rightarrow> (Err e, s)
      | (Panic, s) \<Rightarrow> (Panic, s))"

definition aws_delete :: "aws \<Rightarrow> 's sdk \<Rightarrow> string \<Rightarrow> 's \<Rightarrow> unit res \<times> 's" where
  "aws_delete a api key = sdk_delete_object api (aws_bucket a) (aws_key a key)"

definition unpack_list :: "list_output \<Rightarrow> list_result" where
  "unpack_list out =
     \<lparr>lr_keys = List.map_filter id (lo_contents out),
      lr_common_prefixes = List.map_filter id (lo_prefixes out),
      lr_next = (case lo_next out of Some t \<Rightarrow> t | None \<Rightarrow> ''''),
      lr_truncated = (lo_truncated out = Some True)\<rparr>"

definition aws_list ::
  "aws \<Rightarrow> 's sdk \<Rightarrow> string \<Rightarrow> string \<Rightarrow> string \<Rightarrow> int \<Rightarrow> 's \<Rightarrow> list_result res \<times> 's" where
  "aws_list a api p d tok m s =
     (let inp = \<lparr>li_bucket = aws_bucket a, li_prefix = aws_key a p, li_max_keys = m,
                 li_delimiter = (if d \<noteq> [] then Some d else None),
                 li_token = (if tok \<noteq> [] then Some tok else None)\<rparr>
      in case sdk_list_objects api inp s of
           (Ok out, s) \<Rightarrow> (Ok (unpack_list out), s)
         | (Err e, s) \<Rightarrow> (Err e, s)
         | (Panic, s) \<Rightarrow> (Panic, s))"

definition aws_copy :: "aws \<Rightarrow> 's sdk \<Rightarrow> string \<Rightarrow> string \<Rightarrow> 's \<Rightarrow> unit res \<times> 's" where
  "aws_copy a api src dst =
     sdk_copy_object api (aws_bucket a) (aws_key a dst) (aws_bucket a @ ''/'' @ aws_key a src)"

text \<open>Entries without key or value are dropped; a later entry for a key replaces an earlier one.\<close>

definition unpack_tags :: "(string option \<times> string option) list \<Rightarrow> tagset" where
  "unpack_tags ts = fold (\<lambda>t m. case t of (Some k, Some v) \<Rightarrow> AList.update k v m | _ \<Rightarrow> m) ts []"

definition aws_get_tags :: "aws \<Rightarrow> 's sdk \<Rightarrow> string \<Rightarrow> 's \<Rightarrow> tagset res \<times> 's" where
  "aws_get_tags a api key s =
     (case sdk_get_tagging api (aws_bucket a) (aws_key a key) s of
        (Ok ts, s) \<Rightarrow> (Ok (unpack_tags ts), s)
      | (Err e, s) \<Rightarrow> (Err e, s)
      | (Panic, s) \<Rightarrow> (Panic, s))"

definition aws_put_tags :: "aws \<Rightarrow> 's sdk \<Rightarrow> string \<Rightarrow> tagset \<Rightarrow> 's \<Rightarrow> unit res \<times> 's" where
  "aws_put_tags a api key tags = sdk_put_tagging api (aws_bucket a) (aws_key a key) tags"

definition aws_multipart :: "aws \<Rightarrow> 's sdk \<Rightarrow> string \<Rightarrow> bytes \<Rightarrow> int \<Rightarrow> 's \<Rightarrow> unit res \<times> 's" where
  "aws_multipart a api key body n = sdk_upload api (aws_bucket a) (aws_key a key) body"

definition aws_client :: "aws \<Rightarrow> 's sdk \<Rightarrow> 's client" where
  "aws_client a api =
     \<lparr>cl_put = aws_put a api, cl_get = aws_get a api, cl_range_get = aws_range_get a api,
      cl_head = aws_head a api, cl_delete = aws_delete a api, cl_list = aws_list a api,
      cl_copy = aws_copy a api, cl_get_tags = aws_get_tags a api,
      cl_put_tags = aws_put_tags a api, cl_multipart = aws_multipart a api\<rparr>"

lemma aws_client_sel [simp]:
  "cl_put (aws_client a api) = aws_put a api" "cl_get (aws_client a api) = aws_get a api"
  "cl_range_get (aws_client a api) = aws_range_get a api" "cl_head (aws_client a api) = aws_head a api"
  "cl_delete (aws_client a api) = aws_delete a api" "cl_list (aws_client a api) = aws_list a api"
  "cl_copy (aws_client a api) = aws_copy a api" "cl_get_tags (aws_client a api) = aws_get_tags a api"
  "cl_put_tags (aws_client a api) = aws_put_tags a api"
  "cl_multipart (aws_client a api) = aws_multipart a api"
  by (simp_all add: aws_client_def)

lemmas aws_op_defs = aws_put_def aws_get_def aws_range_get_def aws_head_def aws_delete_def
  aws_list_def aws_copy_def aws_get_tags_def aws_put_tags_def aws_multipart_def

lemma map_filter_id_Some [simp]: "List.map_filter id (map Some xs) = xs"
  by (induction xs) simp_all

text \<open>The three wrappers that unpack an answer leave the state to the request.\<close>

lemma aws_unpack_snd [simp]:
  "snd (aws_list a api p d tok m s) =
     snd (sdk_list_objects api
       \<lparr>li_bucket = aws_bucket a, li_prefix = aws_key a p, li_max_keys = m,
        li_delimiter = (if d \<noteq> [] then Some d else None),
        li_token = (if tok \<noteq> [] then Some tok else None)\<rparr> s)"
  "snd (aws_head a api k s) = snd (sdk_head_object api (aws_bucket a) (aws_key a k) s)"
  "snd (aws_get_tags a api k s) = snd (sdk_get_tagging api (aws_bucket a) (aws_key a k) s)"
  by (simp_all add: aws_list_def aws_head_def aws_get_tags_def Let_def split: prod.splits res.splits option.splits)

lemma aws_list_Ok:
  assumes "fst (sdk_list_objects api
       \<lparr>li_bucket = aws_bucket a, li_prefix = aws_key a p, li_max_keys = m,
        li_delimiter = (if d \<noteq> [] then Some d else None),
        li_token = (if tok \<noteq> [] then Some tok else None)\<rparr> s) = Ok out"
  shows "fst (aws_list a api p d tok m s) = Ok (unpack_list out)"
  using assms unfolding aws_list_def Let_def
  by (cases "sdk_list_objects api
       \<lparr>li_bucket = aws_bucket a, li_prefix = aws_key a p, li_max_keys = m,
        li_delimiter = (if d \<noteq> [] then Some d else None),
        li_token = (if tok \<noteq> [] then Some tok else None)\<rparr> s")
    (simp only: prod.case res.case fst_conv)

lemma aws_list_OkD:
  assumes "fst (aws_list a api p d tok m s) = Ok r"
  obtains out inp where "fst (sdk_list_objects api inp s) = Ok out" "r = unpack_list out"
    "li_prefix inp = aws_key a p"
proof -
  let ?inp = "\<lparr>li_bucket = aws_bucket a, li_prefix = aws_key a p, li_max_keys = m,
        li_delimiter = (if d \<noteq> [] then Some d else None),
        li_token = (if tok \<noteq> [] then Some tok else None)\<rparr>"
  obtain q s' where q: "sdk_list_objects api ?inp s = (q, s')" by fastforce
  have "\<exists>out. q = Ok out \<and> r = unpack_list out"
    using assms unfolding aws_list_def Let_def q prod.case by (cases q) auto
  then show thesis using that [of ?inp] q by fastforce
qed

lemma unpack_list_keys: "k \<in> set (lr_keys (unpack_list out)) \<longleftrightarrow> Some k \<in> set (lo_contents out)"
  by (force simp: unpack_list_def List.map_filter_def)

subsection \<open>What S3 documents\<close>

locale s3_endpoint =
  fixes api :: "'s sdk" and bucket :: string
    and view :: "'s \<Rightarrow> string \<Rightarrow> bytes option"
    and calm :: "'s \<Rightarrow> bool" and after :: "string \<Rightarrow> string \<Rightarrow> bool"
  assumes put_object_frame: "x \<noteq> k \<Longrightarrow> view (snd (sdk_put_object api bucket k b n s)) x = view s x"
    and upload_frame: "x \<noteq> k \<Longrightarrow> view (snd (sdk_upload api bucket k b s)) x = view s x"
    and delete_object_frame: "x \<noteq> k \<Longrightarrow> view (snd (sdk_delete_object api bucket k s)) x = view s x"
    and copy_object_frame: "x \<noteq> k \<Longrightarrow> view (snd (sdk_copy_object api bucket k src s)) x = view s x"
    and get_object_frame: "view (snd (sdk_get_object api bucket k rng s)) = view s"
    and head_object_frame: "view (snd (sdk_head_object api bucket k s)) = view s"
    and list_objects_frame: "view (snd (sdk_list_objects api inp s)) = view s"
    and list_objects_under: "fst (sdk_list_objects api inp s) = Ok out \<Longrightarrow>
          Some k \<in> set (lo_contents out) \<Longrightarrow> has_prefix k (li_prefix inp)"
    and get_tagging_frame: "view (snd (sdk_get_tagging api bucket k s)) = view s"
    and put_tagging_frame: "view (snd (sdk_put_tagging api bucket k ts s)) = view s"
    and bucket_finite: "calm s \<Longrightarrow> finite (dom (view s))"
    and first_page: "after '''' k"
    and put_object_calm: "calm s \<Longrightarrow> calm (snd (sdk_put_object api bucket k b n s))"
    and upload_calm: "calm s \<Longrightarrow> calm (snd (sdk_upload api bucket k b s))"
    and delete_object_calm: "calm s \<Longrightarrow> calm (snd (sdk_delete_object api bucket k s))"
    and copy_object_calm: "calm s \<Longrightarrow> calm (snd (sdk_copy_object api bucket k src s))"
    and get_object_calm: "calm s \<Longrightarrow> calm (snd (sdk_get_object api bucket k rng s))"
    and list_objects_calm: "calm s \<Longrightarrow> calm (snd (sdk_list_objects api inp s))"
    and put_object_ok: "calm s \<Longrightarrow> n = int (length b) \<Longrightarrow>
          fst (sdk_put_object api bucket k b n s) = Ok () \<and>
          view (snd (sdk_put_object api bucket k b n s)) k = Some b"
    and upload_ok: "calm s \<Longrightarrow> fst (sdk_upload api bucket k b s) = Ok () \<and>
          view (snd (sdk_upload api bucket k b s)) k = Some b"
    and get_object_some: "calm s \<Longrightarrow> view s k = Some b \<Longrightarrow> fst (sdk_get_object api bucket k None s) = Ok b"
    and get_object_none: "calm s \<Longrightarrow> view s k = None \<Longrightarrow>
          \<exists>e. fst (sdk_get_object api bucket k None s) = Err e \<and> is_not_found e"
    and delete_object_ok: "calm s \<Longrightarrow> fst (sdk_delete_object api bucket k s) = Ok () \<and>
          view (snd (sdk_delete_object api bucket k s)) k = None"
    and list_objects_page: "calm s \<Longrightarrow> li_bucket inp = bucket \<Longrightarrow> li_delimiter inp = None \<Longrightarrow>
          0 < li_max_keys inp \<Longrightarrow> li_max_keys inp < 2 ^ 31 \<Longrightarrow>
          tok = (case li_token inp of None \<Rightarrow> '''' | Some t \<Rightarrow> t) \<Longrightarrow> \<exists>out page rest.
          fst (sdk_list_objects api inp s) = Ok out \<and>
          sorted_list_of_set {k \<in> dom (view s). has_prefix k (li_prefix inp) \<and> after tok k} = page @ rest \<and>
          lo_contents out = map Some page \<and>
          length page = min (nat (li_max_keys inp)) (length (page @ rest)) \<and>
          lo_truncated out = Some (rest \<noteq> []) \<and>
          (rest \<noteq> [] \<longrightarrow> (\<exists>t. lo_next out = Some t \<and> (\<forall>k \<in> set rest. after t k)))"
    and head_object_calm: "calm s \<Longrightarrow> calm (snd (sdk_head_object api bucket k s))"
    and get_tagging_calm: "calm s \<Longrightarrow> calm (snd (sdk_get_tagging api bucket k s))"
    and put_tagging_calm: "calm s \<Longrightarrow> calm (snd (sdk_put_tagging api bucket k ts s))"
    and head_object_some: "calm s \<Longrightarrow> view s k = Some b \<Longrightarrow>
          fst (sdk_head_object api bucket k s) = Ok (Some (int (length b)))"
    and get_object_range: "calm s \<Longrightarrow> view s k = Some b \<Longrightarrow> 0 \<le> off \<Longrightarrow> 0 < len \<Longrightarrow>
          off < int (length b) \<Longrightarrow> off + len < 2 ^ 63 \<Longrightarrow>
          fst (sdk_get_object api bucket k (Some (byte_range off len)) s) = Ok (take (nat len) (drop (nat off) b))"
    and list_objects_next: "calm s \<Longrightarrow> li_bucket inp = bucket \<Longrightarrow> li_delimiter inp = None \<Longrightarrow>
          0 < li_max_keys inp \<Longrightarrow> li_max_keys inp < 2 ^ 31 \<Longrightarrow>
          tok = (case li_token inp of None \<Rightarrow> '''' | Some t \<Rightarrow> t) \<Longrightarrow>
          fst (sdk_list_objects api inp s) = Ok out \<Longrightarrow> lo_truncated out = Some True \<Longrightarrow>
          \<exists>t. lo_next out = Some t \<and>
            {k \<in> dom (view s). has_prefix k (li_prefix inp) \<and> after t k} =
            {k \<in> dom (view s). has_prefix k (li_prefix inp) \<and> after tok k} - {k. Some k \<in> set (lo_contents out)}"
    and list_objects_flat: "calm s \<Longrightarrow> li_delimiter inp = None \<Longrightarrow>
          fst (sdk_list_objects api inp s) = Ok out \<Longrightarrow> lo_prefixes out = []"
    and list_objects_returns: "calm s \<Longrightarrow> fst (sdk_list_objects api inp s) \<noteq> Panic"
    and head_object_returns: "calm s \<Longrightarrow> fst (sdk_head_object api bucket k s) \<noteq> Panic"
    and copy_object_returns: "calm s \<Longrightarrow> fst (sdk_copy_object api bucket k src s) \<noteq> Panic"
    and get_tagging_returns: "calm s \<Longrightarrow> fst (sdk_get_tagging api bucket k s) \<noteq> Panic"
    and put_tagging_returns: "calm s \<Longrightarrow> fst (sdk_put_tagging api bucket k ts s) \<noteq> Panic"

locale aws_over_s3 = s3_endpoint api "aws_bucket a" view calm after
  for a :: aws and api :: "'s sdk" and view :: "'s \<Rightarrow> string \<Rightarrow> bytes option"
    and calm :: "'s \<Rightarrow> bool" and after :: "string \<Rightarrow> string \<Rightarrow> bool"

sublocale aws_over_s3 \<subseteq> frame: store_frame "aws_client a api" view "aws_key a"
proof (unfold_locales, goal_cases)
  case (9 p d tok m s r k)
  then obtain out inp where "fst (sdk_list_objects api inp s) = Ok out" "r = unpack_list out"
    "li_prefix inp = aws_key a p" using aws_list_OkD by (metis aws_client_sel(6))
  with 9 show ?case using list_objects_under by (metis unpack_list_keys)
qed (simp_all add: aws_put_def aws_multipart_def aws_delete_def aws_copy_def aws_get_def
      aws_range_get_def aws_put_tags_def put_object_frame upload_frame delete_object_frame
      copy_object_frame get_object_frame head_object_frame list_objects_frame get_tagging_frame
      put_tagging_frame)

context aws_over_s3
begin

lemma list_page_aws:
  assumes "calm s" "0 < m" "m < 2 ^ 31"
  shows "\<exists>r rest. fst (aws_list a api p '''' tok m s) = Ok r \<and>
     sorted_list_of_set {k \<in> dom (view s). has_prefix k (aws_key a p) \<and> after tok k} = lr_keys r @ rest \<and>
     length (lr_keys r) = min (nat m) (length (lr_keys r @ rest)) \<and>
     (lr_truncated r \<longleftrightarrow> rest \<noteq> []) \<and>
     (lr_truncated r \<longrightarrow> (\<forall>k \<in> set rest. after (lr_next r) k))"
proof -
  let ?inp = "\<lparr>li_bucket = aws_bucket a, li_prefix = aws_key a p, li_max_keys = m,
        li_delimiter = None, li_token = (if tok \<noteq> [] then Some tok else None)\<rparr>"
  have tok: "tok = (case li_token ?inp of None \<Rightarrow> '''' | Some t \<Rightarrow> t)" by simp
  have "\<exists>out page rest. fst (sdk_list_objects api ?inp s) = Ok out \<and>
    sorted_list_of_set {k \<in> dom (view s). has_prefix k (aws_key a p) \<and> after tok k} = page @ rest \<and>
    lo_contents out = map Some page \<and> length page = min (nat m) (length (page @ rest)) \<and>
    lo_truncated out = Some (rest \<noteq> []) \<and>
    (rest \<noteq> [] \<longrightarrow> (\<exists>t. lo_next out = Some t \<and> (\<forall>k \<in> set rest. after t k)))"
    using list_objects_page [OF assms(1), of ?inp tok] assms(2,3) tok by simp
  then obtain out page rest where out: "fst (sdk_list_objects api ?inp s) = Ok out"
    "sorted_list_of_set {k \<in> dom (view s). has_prefix k (aws_key a p) \<and> after tok k} = page @ rest"
    "lo_contents out = map Some page" "length page = min (nat m) (length (page @ rest))"
    "lo_truncated out = Some (rest \<noteq> [])"
    "rest \<noteq> [] \<longrightarrow> (\<exists>t. lo_next out = Some t \<and> (\<forall>k \<in> set rest. after t k))"
    by blast
  have "fst (aws_list a api p '''' tok m s) = Ok (unpack_list out)"
    using out(1) by (intro aws_list_Ok) simp
  then show ?thesis using out
    by (intro exI [of _ "unpack_list out"] exI [of _ rest]) (auto simp: unpack_list_def)
qed

lemma aws_list_flat_input:
  assumes "fst (aws_list a api p '''' tok m s) = Ok r"
  obtains out where "r = unpack_list out"
    "fst (sdk_list_objects api \<lparr>li_bucket = aws_bucket a, li_prefix = aws_key a p, li_max_keys = m,
       li_delimiter = None, li_token = (if tok \<noteq> [] then Some tok else None)\<rparr> s) = Ok out"
proof -
  let ?inp = "\<lparr>li_bucket = aws_bucket a, li_prefix = aws_key a p, li_max_keys = m,
        li_delimiter = None, li_token = (if tok \<noteq> [] then Some tok else None)\<rparr>"
  obtain q s' where q: "sdk_list_objects api ?inp s = (q, s')" by fastforce
  have "\<exists>out. q = Ok out \<and> r = unpack_list out"
    using assms q unfolding aws_list_def Let_def by (cases q) auto
  then show thesis using that q by fastforce
qed

lemma aws_list_next:
  assumes "calm s" "0 < m" "m < 2 ^ 31" "fst (aws_list a api p '''' tok m s) = Ok r" "lr_truncated r"
  shows "{k \<in> dom (view s). has_prefix k (aws_key a p) \<and> after (lr_next r) k} =
    {k \<in> dom (view s). has_prefix k (aws_key a p) \<and> after tok k} - set (lr_keys r)"
proof -
  let ?inp = "\<lparr>li_bucket = aws_bucket a, li_prefix = aws_key a p, li_max_keys = m,
        li_delimiter = None, li_token = (if tok \<noteq> [] then Some tok else None)\<rparr>"
  obtain out where out: "r = unpack_list out" "fst (sdk_list_objects api ?inp s) = Ok out"
    using aws_list_flat_input [OF assms(4)] by metis
  have tok: "tok = (case li_token ?inp of None \<Rightarrow> '''' | Some t \<Rightarrow> t)" by simp
  have "lo_truncated out = Some True" using assms(5) out(1) by (simp add: unpack_list_def)
  then obtain t where t: "lo_next out = Some t"
    "{k \<in> dom (view s). has_prefix k (li_prefix ?inp) \<and> after t k} =
     {k \<in> dom (view s). has_prefix k (li_prefix ?inp) \<and> after tok k} - {k. Some k \<in> set (lo_contents out)}"
    using list_objects_next [OF assms(1) _ _ _ _ tok out(2)] assms(2,3) by auto
  moreover have "{k. Some k \<in> set (lo_contents out)} = set (lr_keys r)"
    unfolding out(1) using unpack_list_keys by blast
  ultimately show ?thesis by (simp add: out(1) unpack_list_def)
qed

lemma aws_list_flat:
  assumes "calm s" "fst (aws_list a api p '''' tok m s) = Ok r"
  shows "lr_common_prefixes r = []"
proof -
  obtain out where out: "r = unpack_list out"
    "fst (sdk_list_objects api \<lparr>li_bucket = aws_bucket a, li_prefix = aws_key a p, li_max_keys = m,
        li_delimiter = None, li_token = (if tok \<noteq> [] then Some tok else None)\<rparr> s) = Ok out"
    using aws_list_flat_input [OF assms(2)] by metis
  show ?thesis using list_objects_flat [OF assms(1) _ out(2)] by (simp add: out(1) unpack_list_def)
qed

lemma aws_returns:
  assumes "calm s"
  shows "fst (aws_list a api p d tok m s) \<noteq> Panic" "fst (aws_get_tags a api k s) \<noteq> Panic"
    "fst (aws_head a api k s) \<noteq> Panic"
proof -
  obtain q s' where q: "sdk_head_object api (aws_bucket a) (aws_key a k) s = (q, s')" by fastforce
  have "q \<noteq> Panic" using head_object_returns [OF assms, of "aws_key a k"] q by simp
  then show "fst (aws_head a api k s) \<noteq> Panic"
    unfolding aws_head_def q prod.case by (cases q) (simp_all split: option.split)
  let ?inp = "\<lparr>li_bucket = aws_bucket a, li_prefix = aws_key a p, li_max_keys = m,
        li_delimiter = (if d \<noteq> [] then Some d else None), li_token = (if tok \<noteq> [] then Some tok else None)\<rparr>"
  obtain q s' where q: "sdk_list_objects api ?inp s = (q, s')" by fastforce
  have "q \<noteq> Panic" using list_objects_returns [OF assms, of ?inp] q by simp
  then show "fst (aws_list a api p d tok m s) \<noteq> Panic"
    unfolding aws_list_def Let_def q prod.case by (cases q) simp_all
  obtain q s' where q: "sdk_get_tagging api (aws_bucket a) (aws_key a k) s = (q, s')" by fastforce
  have "q \<noteq> Panic" using get_tagging_returns [OF assms, of "aws_key a k"] q by simp
  then show "fst (aws_get_tags a api k s) \<noteq> Panic"
    unfolding aws_get_tags_def q prod.case by (cases q) simp_all
qed

lemma aws_head_some:
  "calm s \<Longrightarrow> view s (aws_key a k) = Some b \<Longrightarrow> fst (aws_head a api k s) = Ok (int (length b))"
  using head_object_some [of s "aws_key a k" b]
  by (cases "sdk_head_object api (aws_bucket a) (aws_key a k) s") (simp add: aws_head_def)

end

sublocale aws_over_s3 \<subseteq> reliable_store "aws_client a api" view "aws_key a" calm after
proof (unfold_locales, goal_cases)
  case (8 s m p tok) then show ?case using list_page_aws [of s m p tok] by simp
qed (auto simp: aws_put_def aws_get_def aws_delete_def aws_copy_def aws_multipart_def
      aws_range_get_def aws_put_tags_def head_object_calm get_tagging_calm put_tagging_calm
      bucket_finite first_page put_object_calm upload_calm delete_object_calm
      copy_object_calm get_object_calm list_objects_calm put_object_ok upload_ok get_object_some
      get_object_none delete_object_ok get_object_range aws_head_some
      aws_list_next aws_list_flat aws_returns copy_object_returns put_tagging_returns)

context aws_over_s3
begin

lemma aws_frame: "store_frame (aws_client a api) view (aws_key a)"
  by (rule frame.store_frame_axioms)

lemma aws_reliable: "reliable_store (aws_client a api) view (aws_key a) calm after"
  by (rule reliable_store_axioms)

end

subsection \<open>A responsive endpoint\<close>

text \<open>
  What a run needs to come to its end: a ranged read returns, a missing object has no size, a
  truncated page names a token that lies later than its own, whatever the grouping, and
  \<open>CopyObject\<close> stores the content of an object of the bucket.
\<close>

locale s3_responsive = s3_endpoint api bucket view calm after
  for api :: "'s sdk" and bucket :: string and view :: "'s \<Rightarrow> string \<Rightarrow> bytes option"
    and calm :: "'s \<Rightarrow> bool" and after :: "string \<Rightarrow> string \<Rightarrow> bool" +
  assumes get_range_returns: "calm s \<Longrightarrow> 0 \<le> off \<Longrightarrow> 0 \<le> len \<Longrightarrow> off + len < 2 ^ 63 \<Longrightarrow>
          fst (sdk_get_object api bucket k (Some (byte_range off len)) s) \<noteq> Panic"
    and head_object_none: "calm s \<Longrightarrow> view s k = None \<Longrightarrow> \<exists>e. fst (sdk_head_object api bucket k s) = Err e"
    and list_objects_later: "calm s \<Longrightarrow> li_bucket inp = bucket \<Longrightarrow>
          0 < li_max_keys inp \<Longrightarrow> li_max_keys inp < 2 ^ 31 \<Longrightarrow>
          tok = (case li_token inp of None \<Rightarrow> '''' | Some t \<Rightarrow> t) \<Longrightarrow>
          fst (sdk_list_objects api inp s) = Ok out \<Longrightarrow> lo_truncated out = Some True \<Longrightarrow>
          \<exists>t. lo_next out = Some t \<and>
            {k \<in> dom (view s). has_prefix k (li_prefix inp) \<and> after t k} \<subset>
            {k \<in> dom (view s). has_prefix k (li_prefix inp) \<and> after tok k}"
    and copy_object_source: "\<exists>x. view (snd (sdk_copy_object api bucket k src s)) k = view s x"

locale aws_over_responsive = s3_responsive api "aws_bucket a" view calm after
  for a :: aws and api :: "'s sdk" and view :: "'s \<Rightarrow> string \<Rightarrow> bytes option"
    and calm :: "'s \<Rightarrow> bool" and after :: "string \<Rightarrow> string \<Rightarrow> bool"

sublocale aws_over_responsive \<subseteq> aws_over_s3 a api view calm after
  by unfold_locales

context aws_over_responsive
begin

lemma aws_head_none:
  assumes "calm s" "view s (aws_key a k) = None"
  shows "\<exists>e. fst (aws_head a api k s) = Err e"
  using head_object_none [OF assms]
  by (cases "sdk_head_object api (aws_bucket a) (aws_key a k) s") (auto simp: aws_head_def)

lemma aws_list_later:
  assumes "calm s" "0 < m" "m < 2 ^ 31" "fst (aws_list a api p d tok m s) = Ok r" "lr_truncated r"
  shows "{k \<in> dom (view s). has_prefix k (aws_key a p) \<and> after (lr_next r) k} \<subset>
    {k \<in> dom (view s). has_prefix k (aws_key a p) \<and> after tok k}"
proof -
  let ?inp = "\<lparr>li_bucket = aws_bucket a, li_prefix = aws_key a p, li_max_keys = m,
        li_delimiter = (if d \<noteq> [] then Some d else None), li_token = (if tok \<noteq> [] then Some tok else None)\<rparr>"
  obtain q s' where q: "sdk_list_objects api ?inp s = (q, s')" by fastforce
  then obtain out where out: "q = Ok out" "r = unpack_list out"
    using assms(4) unfolding aws_list_def Let_def by (cases q) auto
  then have "fst (sdk_list_objects api ?inp s) = Ok out" using q by simp
  moreover have "lo_truncated out = Some True" using assms(5) out(2) by (simp add: unpack_list_def)
  moreover have "tok = (case li_token ?inp of None \<Rightarrow> '''' | Some t \<Rightarrow> t)" by simp
  ultimately obtain t where "lo_next out = Some t"
    "{k \<in> dom (view s). has_prefix k (li_prefix ?inp) \<and> after t k} \<subset>
     {k \<in> dom (view s). has_prefix k (li_prefix ?inp) \<and> after tok k}"
    using list_objects_later [OF assms(1), of ?inp tok out] assms(2,3) by auto
  then show ?thesis by (simp add: out(2) unpack_list_def)
qed

end

sublocale aws_over_responsive \<subseteq> responsive_store "aws_client a api" view "aws_key a" calm after
proof (unfold_locales, goal_cases)
  case (3 s m p d tok r) then show ?case using aws_list_later [of s m p d tok r] by simp
qed (auto simp: aws_range_get_def aws_copy_def get_range_returns aws_head_none copy_object_source)

context aws_over_responsive
begin

lemma aws_responsive: "responsive_store (aws_client a api) view (aws_key a) calm after"
  by (rule responsive_store_axioms)

end

subsection \<open>An endpoint in memory\<close>

text \<open>
  The requests served from the repository's in-memory store, one bucket per state: the instance
  that shows the documented laws hold together.
\<close>

definition parse_range :: "string \<Rightarrow> (int \<times> int) option" where
  "parse_range r =
     (let spec = drop 6 r; a = takeWhile (\<lambda>c. c \<noteq> CHR ''-'') spec in
      case (parse_int a, parse_int (drop (Suc (length a)) spec)) of
        (Some i, Some j) \<Rightarrow> Some (i, j)
      | _ \<Rightarrow> None)"

lemma parse_byte_range:
  assumes "0 \<le> off" "0 \<le> len" "off + len < 2 ^ 63"
  shows "parse_range (byte_range off len) = Some (off, off + len - 1)"
proof -
  have w: "wrap64 (off + len - 1) = off + len - 1" "in_int64 off" "in_int64 (off + len - 1)"
    using assms by (auto simp: in_int64_iff)
  have digits: "\<forall>c \<in> set (format_int off). c \<noteq> CHR ''-''"
    using nat_digits_all_digits [of "nat off"] assms(1) by (auto simp: format_int_def list_all_iff)
  have "takeWhile (\<lambda>c. c \<noteq> CHR ''-'') (format_int off @ ''-'' @ ds) = format_int off" for ds
    using digits by (subst takeWhile_append2) auto
  then show ?thesis
    using w by (simp add: parse_range_def byte_range_def Let_def parse_int_format_int)
qed

definition mem_sdk :: "fake_state sdk" where
  "mem_sdk =
     \<lparr>sdk_put_object = (\<lambda>_. fake_put),
      sdk_get_object = (\<lambda>_ k r. case Option.bind r parse_range of
         None \<Rightarrow> fake_get k | Some (i, j) \<Rightarrow> fake_range_get k i (j - i + 1)),
      sdk_head_object = (\<lambda>_ k s. case fake_head k s of
         (Ok n, s) \<Rightarrow> (Ok (Some n), s) | (Err e, s) \<Rightarrow> (Err e, s) | (Panic, s) \<Rightarrow> (Panic, s)),
      sdk_delete_object = (\<lambda>_. fake_delete),
      sdk_list_objects = (\<lambda>inp s.
         case fake_list (li_prefix inp) (case li_delimiter inp of None \<Rightarrow> '''' | Some d \<Rightarrow> d)
                (case li_token inp of None \<Rightarrow> '''' | Some t \<Rightarrow> t) (li_max_keys inp) s of
           (Ok r, s) \<Rightarrow> (Ok \<lparr>lo_truncated = Some (lr_truncated r),
                            lo_next = (if lr_truncated r then Some (lr_next r) else None),
                            lo_contents = map Some (lr_keys r),
                            lo_prefixes = map Some (lr_common_prefixes r)\<rparr>, s)
         | (Err e, s) \<Rightarrow> (Err e, s) | (Panic, s) \<Rightarrow> (Panic, s)),
      sdk_copy_object = (\<lambda>b d src. fake_copy (trim_prefix src (b @ ''/'')) d),
      sdk_get_tagging = (\<lambda>_ k s. case fake_get_tags k s of
         (Ok ts, s) \<Rightarrow> (Ok (map (\<lambda>(k, v). (Some k, Some v)) ts), s)
         | (Err e, s) \<Rightarrow> (Err e, s) | (Panic, s) \<Rightarrow> (Panic, s)),
      sdk_put_tagging = (\<lambda>_. fake_put_tags),
      sdk_upload = (\<lambda>_ k b. fake_multipart k b (int (length b)))\<rparr>"

lemma mem_sdk_snd:
  "snd (sdk_head_object mem_sdk b k s) = snd (fake_head k s)"
  "snd (sdk_get_tagging mem_sdk b k s) = snd (fake_get_tags k s)"
  "snd (sdk_list_objects mem_sdk inp s) =
     snd (fake_list (li_prefix inp) (case li_delimiter inp of None \<Rightarrow> '''' | Some d \<Rightarrow> d)
            (case li_token inp of None \<Rightarrow> '''' | Some t \<Rightarrow> t) (li_max_keys inp) s)"
  by (simp_all add: mem_sdk_def split: prod.splits res.splits)

lemma mem_sdk_sel:
  "sdk_put_object mem_sdk = (\<lambda>_. fake_put)"
  "sdk_get_object mem_sdk = (\<lambda>_ k r. case Option.bind r parse_range of
     None \<Rightarrow> fake_get k | Some (i, j) \<Rightarrow> fake_range_get k i (j - i + 1))"
  "sdk_delete_object mem_sdk = (\<lambda>_. fake_delete)"
  "sdk_copy_object mem_sdk = (\<lambda>b d src. fake_copy (trim_prefix src (b @ ''/'')) d)"
  "sdk_put_tagging mem_sdk = (\<lambda>_. fake_put_tags)"
  "sdk_upload mem_sdk = (\<lambda>_ k b. fake_multipart k b (int (length b)))"
  by (simp_all add: mem_sdk_def)

lemma mem_sdk_page:
  assumes "fake_calm s" "li_delimiter inp = None" "0 < li_max_keys inp"
    "tok = (case li_token inp of None \<Rightarrow> '''' | Some t \<Rightarrow> t)"
  shows "\<exists>out page rest. fst (sdk_list_objects mem_sdk inp s) = Ok out \<and>
     sorted_list_of_set {k \<in> dom (fake_view s). has_prefix k (li_prefix inp) \<and> tok \<le> k} = page @ rest \<and>
     lo_contents out = map Some page \<and>
     length page = min (nat (li_max_keys inp)) (length (page @ rest)) \<and>
     lo_truncated out = Some (rest \<noteq> []) \<and>
     (rest \<noteq> [] \<longrightarrow> (\<exists>t. lo_next out = Some t \<and> (\<forall>k \<in> set rest. t \<le> k)))"
proof -
  obtain r rest where r: "fst (fake_list (li_prefix inp) '''' tok (li_max_keys inp) s) = Ok r"
    "sorted_list_of_set {k \<in> dom (fake_view s). has_prefix k (li_prefix inp) \<and> tok \<le> k} = lr_keys r @ rest"
    "length (lr_keys r) = min (nat (li_max_keys inp)) (length (lr_keys r @ rest))"
    "lr_truncated r \<longleftrightarrow> rest \<noteq> []" "lr_truncated r \<longrightarrow> (\<forall>k \<in> set rest. lr_next r \<le> k)"
    using fake_list_page [OF assms(1,3), of "li_prefix inp" tok] by blast
  let ?out = "\<lparr>lo_truncated = Some (lr_truncated r),
               lo_next = (if lr_truncated r then Some (lr_next r) else None),
               lo_contents = map Some (lr_keys r), lo_prefixes = map Some (lr_common_prefixes r)\<rparr>"
  have "fst (sdk_list_objects mem_sdk inp s) = Ok ?out"
    using r(1) assms(2) by (cases "fake_list (li_prefix inp) '''' tok (li_max_keys inp) s")
      (simp add: mem_sdk_def assms(4) [symmetric])
  then show ?thesis using r
    by (intro exI [of _ ?out] exI [of _ "lr_keys r"] exI [of _ rest]) auto
qed

lemma mem_sdk_list_OkD:
  assumes "fst (sdk_list_objects mem_sdk inp s) = Ok out"
  obtains r d tok where "fst (fake_list (li_prefix inp) d tok (li_max_keys inp) s) = Ok r"
    "lo_contents out = map Some (lr_keys r)"
  using assms by (auto simp: mem_sdk_def split: prod.splits res.splits) (metis fst_conv)

lemma mem_sdk_next:
  assumes "fake_calm s" "li_delimiter inp = None" "0 < li_max_keys inp"
    "tok = (case li_token inp of None \<Rightarrow> '''' | Some t \<Rightarrow> t)"
    "fst (sdk_list_objects mem_sdk inp s) = Ok out" "lo_truncated out = Some True"
  shows "\<exists>t. lo_next out = Some t \<and>
    {k \<in> dom (fake_view s). has_prefix k (li_prefix inp) \<and> t \<le> k} =
    {k \<in> dom (fake_view s). has_prefix k (li_prefix inp) \<and> tok \<le> k} - {k. Some k \<in> set (lo_contents out)}"
proof -
  obtain q s' where q: "fake_list (li_prefix inp) '''' tok (li_max_keys inp) s = (q, s')" by fastforce
  then obtain r where r: "q = Ok r" "lo_contents out = map Some (lr_keys r)" "lr_truncated r"
    "lo_next out = Some (lr_next r)"
    using assms(2,5,6) by (auto simp: mem_sdk_def assms(4) [symmetric] split: res.splits)
  then show ?thesis using fake_list_next [OF assms(1,3), of "li_prefix inp" tok r] q by auto
qed

interpretation mem: aws_over_s3 a mem_sdk fake_view fake_calm "\<lambda>tok k. tok \<le> k" for a
proof (unfold_locales, goal_cases)
  case (8 inp s out k)
  obtain r d tok where "fst (fake_list (li_prefix inp) d tok (li_max_keys inp) s) = Ok r"
    "lo_contents out = map Some (lr_keys r)" using mem_sdk_list_OkD [OF 8(1)] .
  with 8 show ?case using fake_list_under by fastforce
next
  case (24 s inp tok) then show ?case using mem_sdk_page [of s inp tok] by simp
next
  case (28 s k b) then show ?case
    using fake.head_some [of s k b] by (cases "fake_head k s") (simp add: mem_sdk_def)
next
  case (29 s k b off len) then show ?case
    using fake.range_some [of s k b off len] by (simp add: mem_sdk_sel parse_byte_range)
next
  case (30 s inp tok out) then show ?case using mem_sdk_next [of s inp tok out] by simp
next
  case (31 s inp out) then show ?case
    by (auto simp: mem_sdk_def fake_list_flat Let_def split: option.splits if_splits)
next
  case (32 s inp) show ?case
    by (auto simp: mem_sdk_def fake_list_def split: option.splits prod.splits)
next
  case (33 s k) then show ?case
    using fake.head_returns [of s k] by (auto simp: mem_sdk_def split: prod.splits res.splits)
next
  case (34 s k src) then show ?case using fake.copy_returns by (simp add: mem_sdk_sel)
next
  case (36 s k ts) then show ?case by (simp add: mem_sdk_sel fake_put_tags_def check_fail_def)
next
  case (35 s k) then show ?case
    by (auto simp: mem_sdk_def fake_get_tags_def check_fail_def split: option.splits prod.splits)
qed (simp_all split: option.split add: fake.range_calm [simplified] add: mem_sdk_sel mem_sdk_snd fake_frame.put_frame [simplified]
      fake_frame.multipart_frame [simplified] fake_frame.delete_frame [simplified]
      fake_frame.copy_frame [simplified] fake_frame.reads_frame [simplified] fake.finite_view
      fake.put_ok [simplified] fake.multipart_ok [simplified] fake.delete_gone [simplified]
      fake.get_some [simplified] fake.get_none [simplified] fake_delete_Ok)

lemma mem_sdk_later:
  assumes "fake_calm s" "0 < li_max_keys inp"
    "tok = (case li_token inp of None \<Rightarrow> '''' | Some t \<Rightarrow> t)"
    "fst (sdk_list_objects mem_sdk inp s) = Ok out" "lo_truncated out = Some True"
  shows "\<exists>t. lo_next out = Some t \<and>
    {k \<in> dom (fake_view s). has_prefix k (li_prefix inp) \<and> t \<le> k} \<subset>
    {k \<in> dom (fake_view s). has_prefix k (li_prefix inp) \<and> tok \<le> k}"
proof -
  let ?d = "case li_delimiter inp of None \<Rightarrow> '''' | Some d \<Rightarrow> d"
  obtain q s' where q: "fake_list (li_prefix inp) ?d tok (li_max_keys inp) s = (q, s')" by fastforce
  then obtain r where r: "q = Ok r" "lr_truncated r" "lo_next out = Some (lr_next r)"
    using assms(4,5) by (auto simp: mem_sdk_def assms(3) [symmetric] split: res.splits)
  then show ?thesis using fake_list_later [OF assms(1,2), of "li_prefix inp" ?d tok r] q by auto
qed

interpretation mem: aws_over_responsive a mem_sdk fake_view fake_calm "\<lambda>tok k. tok \<le> k" for a
proof (unfold_locales, goal_cases)
  case (1 s off len k) then show ?case
    using fake_range_returns [of s off len k] by (simp add: mem_sdk_sel parse_byte_range)
next
  case (2 s k) then show ?case
    using fake.head_none [of s k] by (cases "fake_head k s") (auto simp: mem_sdk_def)
next
  case (3 s inp tok out) then show ?case using mem_sdk_later [of s inp tok out] by simp
next
  case (4 k src s) then show ?case using fake.copy_source by (simp add: mem_sdk_sel)
qed

subsection \<open>Properties\<close>

text \<open>C28. Every write of the client stays below its run prefix: on any endpoint whose requests change
  only the key they name, an object outside the prefix survives every put, upload, copy and
  delete, whatever key or keys the caller passes and whether or not the request fails.\<close>

theorem aws_writes_below_prefix:
  assumes "s3_endpoint api (aws_bucket a) view calm after" and "aws_prefix a \<noteq> []"
    and "\<not> has_prefix x (slash_terminated (aws_prefix a))"
  shows "view (snd (aws_put a api k b n s)) x = view s x \<and>
    view (snd (aws_multipart a api k b n s)) x = view s x \<and>
    view (snd (aws_copy a api src k s)) x = view s x \<and>
    view (snd (aws_delete a api k s)) x = view s x"
proof -
  have "store_frame (aws_client a api) view (aws_key a)"
    using aws_over_s3.intro [OF assms(1)] by (rule aws_over_s3.aws_frame)
  moreover have "x \<noteq> aws_key a k" using assms(2,3) join_prefix_under by (auto simp: aws_key_def)
  ultimately show ?thesis
    using store_frame.put_frame [of "aws_client a api" view "aws_key a" x k b n s]
      store_frame.multipart_frame [of "aws_client a api" view "aws_key a" x k b n s]
      store_frame.copy_frame [of "aws_client a api" view "aws_key a" x k src s]
      store_frame.delete_frame [of "aws_client a api" view "aws_key a" x k s] by simp
qed

theorem aws_writes_below_prefix_witness:
  "fake_view (snd (aws_delete \<lparr>aws_options = undefined, aws_bucket = ''b'', aws_prefix = ''run'',
      aws_uploader = undefined\<rparr> mem_sdk ''k''
      \<lparr>fs_objects = [(''k'', [1])], fs_tags = [], fs_fail = [], fs_delay = 0\<rparr>)) ''k'' = Some [1]"
proof -
  let ?a = "\<lparr>aws_options = undefined, aws_bucket = ''b'', aws_prefix = ''run'', aws_uploader = undefined\<rparr> :: aws"
  have "\<not> has_prefix ''k'' (slash_terminated (aws_prefix ?a))"
    by (simp add: slash_terminated_def has_suffix_def has_prefix_def)
  then show ?thesis
    using aws_writes_below_prefix [OF mem.s3_endpoint_axioms, of ?a "''k''" "''k''"]
    by (simp add: fake_view_def)
qed

text \<open>\<open>joinPrefix\<close> with a prefix that does not start with a slash puts every key below the
  slash-terminated prefix, does so exactly once however often it is applied, and leaves keys
  already below it alone. With a leading slash in the prefix the second application doubles it.\<close>

theorem join_prefix_once:
  assumes "p \<noteq> []" and "\<not> has_prefix p ''/''"
  shows "has_prefix (join_prefix p k) (slash_terminated p) \<and>
    join_prefix p (join_prefix p k) = join_prefix p k \<and>
    (has_prefix k (slash_terminated p) \<longrightarrow> join_prefix p k = k) \<and>
    join_prefix ''/p'' (join_prefix ''/p'' ''k'') = ''/p/p/k''"
  using assms join_prefix_under join_prefix_idem join_prefix_fixpoint
  by (simp add: join_prefix_def [of "''/p''"] slash_terminated_def has_suffix_def has_prefix_def trim_prefix_def)

theorem join_prefix_once_witness:
  "join_prefix ''run'' (join_prefix ''run'' ''/k'') = ''run/k''"
proof -
  have "\<not> has_prefix ''run'' ''/''" by (simp add: has_prefix_def)
  then have "join_prefix ''run'' (join_prefix ''run'' ''/k'') = join_prefix ''run'' ''/k''"
    using join_prefix_once [of "''run''" "''/k''"] by simp
  then show ?thesis
    by (simp add: join_prefix_def slash_terminated_def has_suffix_def has_prefix_def trim_prefix_def)
qed

end
