(* ===== verification/Safety.thy ===== *)
theory Safety
  imports Aws_Client
begin

section \<open>The bucket guard and the cleanup walker (\<open>internal/safety/safety.go\<close>)\<close>

text \<open>
  \<open>CheckBucket\<close> and \<open>Cleanup\<close> over any client. The cleanup loop runs as long as the client
  reports truncated pages, so it is a partial function: \<open>None\<close> means that it does not return.
  Inside \<open>reliable_store\<close> it is proved to return and to delete exactly the prefix; inside
  \<open>store_frame\<close>, faults included, it is proved to touch nothing else.
\<close>

definition check_bucket :: "'s client \<Rightarrow> string \<Rightarrow> bool \<Rightarrow> 's \<Rightarrow> unit res \<times> 's" where
  "check_bucket cl pfx allow_shared s =
     (if allow_shared then (Ok (), s)
      else let p = slash_terminated pfx in
        case cl_list cl '''' '''' '''' 5 s of
          (Err e, s) \<Rightarrow> (Err (Wrap_error ''safety check list'' e), s)
        | (Panic, s) \<Rightarrow> (Panic, s)
        | (Ok r, s) \<Rightarrow>
            (case find (\<lambda>k. \<not> has_prefix k p) (lr_keys r) of
               Some k \<Rightarrow> (Err (Wrap_error (''found '' @ k) Err_shared_bucket), s)
             | None \<Rightarrow> (Ok (), s)))"

text \<open>The loop over the keys of one page.\<close>

fun delete_page :: "'s client \<Rightarrow> string list \<Rightarrow> int \<Rightarrow> 's \<Rightarrow> (int \<times> unit res) \<times> 's" where
  "delete_page cl [] deleted s = ((deleted, Ok ()), s)"
| "delete_page cl (k # ks) deleted s =
     (case cl_delete cl k s of
        (Ok _, s) \<Rightarrow> delete_page cl ks (wrap64 (deleted + 1)) s
      | (Err e, s) \<Rightarrow>
          if is_not_found e then delete_page cl ks deleted s
          else ((deleted, Err (Wrap_error (''cleanup delete '' @ k) e)), s)
      | (Panic, s) \<Rightarrow> ((deleted, Panic), s))"

text \<open>
  One turn of the loop, up to its \<open>return\<close> (\<open>Inl\<close>) or the next turn (\<open>Inr\<close>: the continuation
  token, the number of deletions and the state).
\<close>

definition cleanup_turn ::
  "'s client \<Rightarrow> string \<Rightarrow> string \<Rightarrow> int \<Rightarrow> 's \<Rightarrow> (int \<times> unit res) \<times> 's + string \<times> int \<times> 's" where
  "cleanup_turn cl p tok deleted s =
     (case cl_list cl p '''' tok 1000 s of
        (Err e, s1) \<Rightarrow> Inl ((deleted, Err (Wrap_error ''cleanup list'' e)), s1)
      | (Panic, s1) \<Rightarrow> Inl ((deleted, Panic), s1)
      | (Ok r, s1) \<Rightarrow>
          (case delete_page cl (lr_keys r) deleted s1 of
             ((n, Ok _), s2) \<Rightarrow>
               if \<not> lr_truncated r then Inl ((n, Ok ()), s2) else Inr (lr_next r, n, s2)
           | ((n, Err e), s2) \<Rightarrow> Inl ((n, Err e), s2)
           | ((n, Panic), s2) \<Rightarrow> Inl ((n, Panic), s2)))"

partial_function (option) cleanup_loop ::
  "'s client \<Rightarrow> string \<Rightarrow> string \<Rightarrow> int \<Rightarrow> 's \<Rightarrow> ((int \<times> unit res) \<times> 's) option" where
  "cleanup_loop cl p tok deleted s =
     (case cleanup_turn cl p tok deleted s of
        Inl out \<Rightarrow> Some out
      | Inr (tok', deleted', s') \<Rightarrow> cleanup_loop cl p tok' deleted' s')"

definition cleanup :: "'s client \<Rightarrow> string \<Rightarrow> 's \<Rightarrow> ((int \<times> unit res) \<times> 's) option" where
  "cleanup cl pfx s = cleanup_loop cl (slash_terminated pfx) '''' 0 s"

subsection \<open>What cleanup may touch\<close>

text \<open>Below \<open>q\<close> every key addresses itself: \<open>q\<close> is a full key prefix for this client.\<close>

definition fixed_below :: "(string \<Rightarrow> string) \<Rightarrow> string \<Rightarrow> bool" where
  "fixed_below addr q \<longleftrightarrow> addr q = q \<and> (\<forall>k. has_prefix k q \<longrightarrow> addr k = k)"

context store_frame
begin

lemma delete_page_frame:
  assumes "\<forall>k \<in> set ks. has_prefix (addr k) q" "\<not> has_prefix x q"
  shows "view (snd (delete_page cl ks n s)) x = view s x"
  using assms(1)
proof (induction ks arbitrary: n s)
  case (Cons k ks)
  obtain a s1 where d: "cl_delete cl k s = (a, s1)" by fastforce
  have "x \<noteq> addr k" using Cons.prems assms(2) by auto
  then have "view s1 x = view s x" using delete_frame [of x k s] d by simp
  then show ?case using Cons d by (cases a) auto
qed simp

lemma cleanup_turn_frame:
  assumes "fixed_below addr q" "\<not> has_prefix x q"
  shows "case cleanup_turn cl q tok n s of
           Inl (out, s') \<Rightarrow> view s' x = view s x | Inr (tok', n', s') \<Rightarrow> view s' x = view s x"
proof -
  obtain a s1 where l: "cl_list cl q '''' tok 1000 s = (a, s1)" by fastforce
  then have v1: "view s1 = view s" using list_frame by (metis snd_conv)
  show ?thesis
  proof (cases a)
    case (Ok r)
    obtain m b s2 where d: "delete_page cl (lr_keys r) n s1 = ((m, b), s2)" by (metis prod.exhaust)
    have "\<forall>k \<in> set (lr_keys r). has_prefix (addr k) q"
      using list_under [of q "''''" tok 1000 s r] l Ok assms(1) by (simp add: fixed_below_def)
    then have "view s2 x = view s x"
      using delete_page_frame [of "lr_keys r" q x n s1] assms(2) v1 d by simp
    then show ?thesis using l Ok d by (cases b) (simp_all add: cleanup_turn_def)
  qed (use l v1 in \<open>auto simp: cleanup_turn_def\<close>)
qed

lemma cleanup_loop_frame:
  assumes "cleanup_loop cl q tok n s = Some w" "fixed_below addr q" "\<not> has_prefix x q"
  shows "view (snd w) x = view s x"
proof -
  let ?P = "\<lambda>cl0 q0 tok n s w. q = q0 \<longrightarrow> cl = cl0 \<longrightarrow> view (snd w) x = view s x"
  have "?P cl q tok n s w"
  proof (rule cleanup_loop.raw_induct [where P = ?P, OF _ assms(1)])
    fix loop :: "'s client \<Rightarrow> string \<Rightarrow> string \<Rightarrow> int \<Rightarrow> 's \<Rightarrow> ((int \<times> unit res) \<times> 's) option"
    fix cl0 q0 tok n s w
    assume IH: "\<And>cl0 q0 tok n s w. loop cl0 q0 tok n s = Some w \<Longrightarrow> ?P cl0 q0 tok n s w"
    assume eq: "(case cleanup_turn cl0 q0 tok n s of Inl out \<Rightarrow> Some out
        | Inr (tok', deleted', s') \<Rightarrow> loop cl0 q0 tok' deleted' s') = Some w"
    show "?P cl0 q0 tok n s w"
      using cleanup_turn_frame [OF assms(2,3), where tok = tok and n = n and s = s] eq IH
      by (auto split: sum.splits prod.splits)
  qed
  then show ?thesis by simp
qed

lemma cleanup_frame:
  assumes "cleanup cl pfx s = Some (out, s')" "fixed_below addr (slash_terminated pfx)"
    "\<not> has_prefix x (slash_terminated pfx)"
  shows "view s' x = view s x"
  using assms cleanup_loop_frame unfolding cleanup_def by fastforce

text \<open>The guard reads; and it finds no foreign key where the listing cannot return one.\<close>

lemma check_bucket_view: "view (snd (check_bucket cl pfx allow s)) = view s"
  using list_frame [of "''''" "''''" "''''" 5 s]
  by (auto simp: check_bucket_def Let_def split: prod.splits res.splits option.splits)

lemma check_bucket_blind:
  assumes "has_prefix (addr '''') (slash_terminated pfx)"
  shows "fst (check_bucket cl pfx allow s) \<noteq> Err (Wrap_error (''found '' @ k) Err_shared_bucket)"
proof (cases "cl_list cl '''' '''' '''' 5 s")
  case (Pair a s1)
  have "find (\<lambda>k. \<not> has_prefix k (slash_terminated pfx)) (lr_keys r) = None" if "a = Ok r" for r
    using list_under [of "''''" "''''" "''''" 5 s r] Pair that assms has_prefix_trans
    by (auto simp: find_None_iff)
  then show ?thesis using Pair by (auto simp: check_bucket_def Let_def split: res.splits)
qed

end

subsection \<open>What both keep\<close>

context client_invariant
begin

lemma check_bucket_keeps: "check_bucket cl pfx allow s = (out, s') \<Longrightarrow> Q s \<Longrightarrow> Q s'"
  by (auto simp: check_bucket_def Let_def split: if_splits prod.splits res.splits option.splits dest: call_keeps)

lemma delete_page_keeps: "delete_page cl ks n s = (out, s') \<Longrightarrow> Q s \<Longrightarrow> Q s'"
  by (induction ks arbitrary: n s) (auto split: prod.splits res.splits if_splits dest: call_keeps)

lemma cleanup_turn_keeps:
  assumes "Q s"
  shows "case cleanup_turn cl q tok n s of Inl (out, s') \<Rightarrow> Q s' | Inr (tok', n', s') \<Rightarrow> Q s'"
proof -
  obtain a s1 where l: "cl_list cl q '''' tok 1000 s = (a, s1)" by fastforce
  have s1: "Q s1" by (rule call_keeps(8) [OF l assms])
  show ?thesis
  proof (cases a)
    case (Ok r)
    obtain m b s2 where d: "delete_page cl (lr_keys r) n s1 = ((m, b), s2)" by (metis prod.exhaust)
    show ?thesis using l Ok d delete_page_keeps [OF d s1] by (cases b) (simp_all add: cleanup_turn_def)
  qed (use l s1 in \<open>auto simp: cleanup_turn_def\<close>)
qed

lemma walk_keeps:
  assumes "cleanup cl pfx s = Some (out, s')" "Q s"
  shows "Q s'"
proof -
  let ?P = "\<lambda>cl0 q0 tok n s w. cl = cl0 \<longrightarrow> Q s \<longrightarrow> Q (snd w)"
  have "?P cl q tok n s w" if "cleanup_loop cl q tok n s = Some w" for q tok n s w
  proof (rule cleanup_loop.raw_induct [where P = ?P, OF _ that])
    fix loop :: "'s client \<Rightarrow> string \<Rightarrow> string \<Rightarrow> int \<Rightarrow> 's \<Rightarrow> ((int \<times> unit res) \<times> 's) option"
    fix cl0 q0 tok n s w
    assume IH: "\<And>cl0 q0 tok n s w. loop cl0 q0 tok n s = Some w \<Longrightarrow> ?P cl0 q0 tok n s w"
    assume eq: "(case cleanup_turn cl0 q0 tok n s of Inl out \<Rightarrow> Some out
        | Inr (tok', deleted', s') \<Rightarrow> loop cl0 q0 tok' deleted' s') = Some w"
    obtain a b c where "w = ((a, b), c)" by (metis prod.exhaust)
    then show "?P cl0 q0 tok n s w"
      using cleanup_turn_keeps [of s q0 tok n] eq IH by (auto split: sum.splits prod.splits)
  qed
  then show ?thesis using assms by (fastforce simp: cleanup_def)
qed

end

subsection \<open>What cleanup achieves\<close>

definition below :: "('s \<Rightarrow> string \<Rightarrow> bytes option) \<Rightarrow> string \<Rightarrow> 's \<Rightarrow> string set" where
  "below view q s = {k \<in> dom (view s). has_prefix k q}"

context reliable_store
begin

lemma delete_page_reliable:
  assumes "calm s" "in_int64 n" "distinct ks" "\<forall>k \<in> set ks. addr k = k" "set ks \<subseteq> dom (view s)"
  shows "\<exists>s'. delete_page cl ks n s = ((wrap64 (n + int (length ks)), Ok ()), s') \<and> calm s' \<and>
     view s' = view s |` (- set ks)"
  using assms
proof (induction ks arbitrary: n s)
  case (Cons k ks)
  obtain a s1 where d: "cl_delete cl k s = (a, s1)" by fastforce
  have k: "addr k = k" "view s k \<noteq> None" using Cons.prems by auto
  have a: "a = Ok ()" using delete_ok [of s k] Cons.prems(1) k d by simp
  have s1: "calm s1" "view s1 = (view s)(k := None)"
    using delete_calm [of s k] delete_view [of s k] Cons.prems(1) k d by simp_all
  have "\<exists>s'. delete_page cl ks (wrap64 (n + 1)) s1 =
      ((wrap64 (wrap64 (n + 1) + int (length ks)), Ok ()), s') \<and> calm s' \<and>
      view s' = view s1 |` (- set ks)"
    using Cons.prems s1 by (intro Cons.IH) auto
  moreover have "view s1 |` (- set ks) = view s |` (- set (k # ks))"
    using s1(2) by (auto simp: restrict_map_def fun_eq_iff)
  ultimately show ?case using d a by (simp add: add.assoc)
qed (auto simp: restrict_map_def)

lemma cleanup_loop_reliable:
  assumes "calm s" "fixed_below addr q" "in_int64 n" "\<forall>k \<in> below view q s. after tok k"
  shows "\<exists>s'. cleanup_loop cl q tok n s =
      Some ((wrap64 (n + int (card (below view q s))), Ok ()), s') \<and> calm s' \<and>
      view s' = view s |` {k. \<not> has_prefix k q}"
  using assms
proof (induction "card (below view q s)" arbitrary: s n tok rule: less_induct)
  case less
  obtain a s1 where l: "cl_list cl q '''' tok 1000 s = (a, s1)" by fastforce
  have s1: "calm s1" "view s1 = view s"
    using list_calm [OF less.prems(1)] list_frame l by (metis snd_conv)+
  have "{k \<in> dom (view s). has_prefix k (addr q) \<and> after tok k} = below view q s"
    using less.prems(2,4) by (auto simp: below_def fixed_below_def)
  then obtain r rest where r: "a = Ok r" "sorted_list_of_set (below view q s) = lr_keys r @ rest"
    "length (lr_keys r) = min 1000 (length (lr_keys r @ rest))"
    "lr_truncated r \<longleftrightarrow> rest \<noteq> []" "lr_truncated r \<longrightarrow> (\<forall>k \<in> set rest. after (lr_next r) k)"
    using list_page [OF less.prems(1), of 1000 q tok] l by auto
  have fin: "finite (below view q s)" using finite_view [OF less.prems(1)] by (simp add: below_def)
  have dis: "distinct (lr_keys r @ rest)" using distinct_sorted_list_of_set r(2) by metis
  have K: "below view q s = set (lr_keys r) \<union> set rest"
    using set_sorted_list_of_set [OF fin] r(2) by auto
  then have card: "card (below view q s) = length (lr_keys r) + length rest"
    using dis distinct_card [OF dis] by simp
  let ?n2 = "wrap64 (n + int (length (lr_keys r)))"
  have "\<exists>s2. delete_page cl (lr_keys r) n s1 = ((?n2, Ok ()), s2) \<and> calm s2 \<and>
      view s2 = view s1 |` (- set (lr_keys r))"
    using less.prems(2,3) dis K s1
    by (intro delete_page_reliable) (auto simp: below_def fixed_below_def)
  then obtain s2 where d: "delete_page cl (lr_keys r) n s1 = ((?n2, Ok ()), s2)" "calm s2"
    "view s2 = view s |` (- set (lr_keys r))" using s1 by auto
  have K2: "below view q s2 = set rest"
  proof -
    have "below view q s2 = below view q s - set (lr_keys r)"
      using d(3) by (auto simp: below_def restrict_map_def split: if_splits)
    then show ?thesis using K dis by auto
  qed
  have gone: "view s2 |` {k. \<not> has_prefix k q} = view s |` {k. \<not> has_prefix k q}"
    using d(3) K by (auto simp: restrict_map_def fun_eq_iff below_def)
  show ?case
  proof (cases "rest = []")
    case True
    then have "view s2 = view s |` {k. \<not> has_prefix k q}"
      using d(3) K gone K2 by (auto simp: restrict_map_def fun_eq_iff below_def)
    moreover have "cleanup_loop cl q tok n s = Some ((?n2, Ok ()), s2)"
      using l r(1,4) d(1) True by (subst cleanup_loop.simps) (simp add: cleanup_turn_def)
    ultimately show ?thesis using True card d(2) by auto
  next
    case False
    then have "lr_keys r \<noteq> []" using r(3) by (cases rest) auto
    then have "card (below view q s2) < card (below view q s)"
      using K2 card dis distinct_card [of rest] by simp
    then obtain s' where s': "cleanup_loop cl q (lr_next r) ?n2 s2 =
        Some ((wrap64 (?n2 + int (card (below view q s2))), Ok ()), s')" "calm s'"
      "view s' = view s2 |` {k. \<not> has_prefix k q}"
      using less.hyps [of s2 ?n2 "lr_next r"] less.prems(2) d(2) K2 r(4,5) False by auto
    have "cleanup_loop cl q tok n s = cleanup_loop cl q (lr_next r) ?n2 s2"
      using l r(1,4) d(1) False by (subst cleanup_loop.simps) (simp add: cleanup_turn_def)
    moreover have "card (below view q s2) = length rest" using K2 dis distinct_card [of rest] by simp
    ultimately show ?thesis using s' card gone by (simp add: add.assoc)
  qed
qed

lemma cleanup_reliable:
  assumes "calm s" "fixed_below addr (slash_terminated pfx)"
  shows "\<exists>s'. cleanup cl pfx s =
      Some ((wrap64 (int (card (below view (slash_terminated pfx) s))), Ok ()), s') \<and> calm s' \<and>
      view s' = view s |` {k. \<not> has_prefix k (slash_terminated pfx)}"
  using cleanup_loop_reliable [OF assms, of 0 "''''"] after_start
  by (simp add: cleanup_def in_int64_iff)

text \<open>A second run finds nothing and changes nothing.\<close>

lemma cleanup_twice:
  assumes "calm s" "fixed_below addr (slash_terminated pfx)" "cleanup cl pfx s = Some (out, s')"
  shows "\<exists>s''. cleanup cl pfx s' = Some ((0, Ok ()), s'') \<and> view s'' = view s'"
proof -
  have s': "calm s'" "view s' = view s |` {k. \<not> has_prefix k (slash_terminated pfx)}"
    using cleanup_reliable [OF assms(1,2)] assms(3) by auto
  then have "below view (slash_terminated pfx) s' = {}" by (auto simp: below_def restrict_map_def)
  then show ?thesis using cleanup_reliable [OF s'(1) assms(2)] s'(2)
    by (auto simp: restrict_map_def fun_eq_iff)
qed

end

subsection \<open>Over the two clients\<close>

lemma fixed_below_id [simp]: "fixed_below id q"
  by (simp add: fixed_below_def)

lemma fixed_below_aws:
  assumes "aws_prefix a \<noteq> []" "\<not> has_prefix (aws_prefix a) ''/''"
    "has_prefix q (slash_terminated (aws_prefix a))"
  shows "fixed_below (aws_key a) q"
  unfolding fixed_below_def aws_key_def
  using assms join_prefix_fixpoint has_prefix_trans by blast

lemma check_bucket_fake:
  assumes "fake_calm s"
  shows "fst (check_bucket fake_client pfx False s) =
    (case find (\<lambda>k. \<not> has_prefix k (slash_terminated pfx))
            (take 5 (sorted_list_of_set (dom (fake_view s)))) of
       None \<Rightarrow> Ok () | Some k \<Rightarrow> Err (Wrap_error (''found '' @ k) Err_shared_bucket))"
proof -
  let ?keys = "keys_from '''' '''' (fs_objects s)"
  have "sorted_list_of_set {k \<in> dom (map_of (fs_objects s)). has_prefix k '''' \<and> '''' \<le> k} = ?keys"
  proof (rule keys_from_sorted_list_of_set)
    show "distinct (map fst (fs_objects s))" using assms unfolding fake_calm_def fake_wf_def by blast
  qed
  moreover have "{k \<in> dom (map_of (fs_objects s)). has_prefix k '''' \<and> '''' \<le> k} = dom (fake_view s)"
    by (simp only: has_prefix_Nil Nil_le_string simp_thms Collect_mem_eq fake_view_def)
  ultimately have keys: "sorted_list_of_set (dom (fake_view s)) = ?keys" by (simp only:)
  have "\<exists>r. fake_list [] [] [] 5 s = (Ok r, s) \<and> lr_keys r = take 5 ?keys"
    using assms by (simp add: fake_list_flat Let_def)
  then obtain r where "fake_list [] [] [] 5 s = (Ok r, s)" "lr_keys r = take 5 ?keys" by blast
  then show ?thesis unfolding keys check_bucket_def Let_def
    by (cases "find (\<lambda>k. \<not> has_prefix k (slash_terminated pfx)) (take 5 ?keys)") simp_all
qed

subsection \<open>Properties\<close>

text \<open>On the in-memory store, with no fault scheduled, \<open>Cleanup\<close> returns whatever the number
  of pages, reports one deletion per object under the prefix, leaves no object under the prefix
  and every other object as it was.\<close>

theorem cleanup_fake_exact:
  assumes "fake_calm s"
  shows "\<exists>s'. cleanup fake_client pfx s =
      Some ((wrap64 (int (card {k \<in> dom (fake_view s). has_prefix k (slash_terminated pfx)})), Ok ()), s') \<and>
      (\<forall>k. fake_view s' k = (if has_prefix k (slash_terminated pfx) then None else fake_view s k))"
proof -
  obtain s' where "cleanup fake_client pfx s =
      Some ((wrap64 (int (card (below fake_view (slash_terminated pfx) s))), Ok ()), s')"
    "fake_view s' = fake_view s |` {k. \<not> has_prefix k (slash_terminated pfx)}"
    using fake.cleanup_reliable [OF assms fixed_below_id] by blast
  then show ?thesis by (intro exI [of _ s']) (simp add: below_def restrict_map_def)
qed

definition two_objects :: fake_state where
  "two_objects = \<lparr>fs_objects = [(''bench/a'', [1, 2]), (''other'', [3])], fs_tags = [], fs_fail = [], fs_delay = 0\<rparr>"

lemma two_objects_calm [simp]: "fake_calm two_objects"
  by (simp add: two_objects_def fake_calm_def fake_wf_def)

lemma bench_slash [simp]: "slash_terminated ''bench'' = ''bench/''" "slash_terminated ''bench/'' = ''bench/''"
  by (simp_all add: slash_terminated_def has_suffix_def)

lemma two_objects_prefix [simp]:
  "has_prefix ''bench/a'' ''bench/''" "\<not> has_prefix ''other'' ''bench/''"
  by (simp_all add: has_prefix_def)

lemma two_objects_view [simp]:
  "fake_view two_objects ''other'' = Some [3]" "dom (fake_view two_objects) = {''bench/a'', ''other''}"
  by (simp_all add: fake_view_def two_objects_def insert_commute)

lemma two_objects_bench [simp]:
  "{k \<in> dom (fake_view two_objects). has_prefix k ''bench/''} = {''bench/a''}"
  using two_objects_prefix unfolding two_objects_view by blast

theorem cleanup_fake_exact_witness:
  "\<exists>s'. cleanup fake_client ''bench'' two_objects = Some ((1, Ok ()), s') \<and>
     fake_view s' ''bench/a'' = None \<and> fake_view s' ''other'' = Some [3]"
  using cleanup_fake_exact [OF two_objects_calm, of "''bench''"]
  unfolding bench_slash two_objects_bench by (auto simp del: two_objects_view(2))


definition bench_aws :: aws where
  "bench_aws = new_aws \<lparr>ac_endpoint = '''', ac_region = '''', ac_bucket = ''b'', ac_prefix = ''bench/'',
     ac_path_style = True, ac_credentials = (''k'', ''s''), ac_part_size = 0, ac_concurrency = 0,
     ac_max_retries = 0\<rparr>"

lemma bench_aws_prefix [simp]: "aws_prefix bench_aws = ''bench/''"
  by (simp add: bench_aws_def new_aws_def)

lemma mem_endpoint: "s3_endpoint mem_sdk (aws_bucket (a :: aws)) fake_view fake_calm (\<lambda>tok k. tok \<le> k)"
  by (rule mem.s3_endpoint_axioms)


text \<open>Whatever faults are scheduled and however the run of \<open>Cleanup\<close> ends, an object outside the
  prefix keeps its content.\<close>

theorem cleanup_spares_others:
  assumes "cleanup fake_client pfx s = Some (out, s')" and "\<not> has_prefix x (slash_terminated pfx)"
  shows "fake_view s' x = fake_view s x"
  using fake_frame.cleanup_frame [OF assms(1) fixed_below_id assms(2)] .

theorem cleanup_spares_others_witness:
  "\<exists>out s'. cleanup fake_client ''bench'' two_objects = Some (out, s') \<and>
     fake_view s' ''other'' = fake_view two_objects ''other''"
proof -
  have "\<not> has_prefix ''other'' (slash_terminated ''bench'')" by simp
  moreover obtain out s' where "cleanup fake_client ''bench'' two_objects = Some (out, s')"
    using fake.cleanup_reliable [OF two_objects_calm fixed_below_id] by blast
  ultimately show ?thesis using cleanup_spares_others by blast
qed





text \<open>C27. Over the SDK-backed client the guard cannot see a foreign object: \<open>List\<close> prepends the run
  prefix to the empty prefix \<open>CheckBucket\<close> passes, so on any endpoint that lists only keys under
  the requested prefix the shared-bucket error is never returned.\<close>

theorem check_bucket_aws_blind:
  assumes "s3_endpoint api (aws_bucket a) view calm after" and "aws_prefix a \<noteq> []"
  shows "fst (check_bucket (aws_client a api) (aws_prefix a) False s)
      \<noteq> Err (Wrap_error (''found '' @ k) Err_shared_bucket)"
proof -
  have "store_frame (aws_client a api) view (aws_key a)"
    using aws_over_s3.intro [OF assms(1)] by (rule aws_over_s3.aws_frame)
  moreover have "has_prefix (aws_key a '''') (slash_terminated (aws_prefix a))"
    unfolding aws_key_def using assms(2) by (rule join_prefix_under)
  ultimately show ?thesis by (rule store_frame.check_bucket_blind)
qed

definition foreign_only :: fake_state where
  "foreign_only = \<lparr>fs_objects = [(''other'', [3])], fs_tags = [], fs_fail = [], fs_delay = 0\<rparr>"

theorem check_bucket_aws_blind_witness:
  "fst (check_bucket (aws_client bench_aws mem_sdk) ''bench/'' False foreign_only) = Ok () \<and>
   fst (check_bucket (aws_client bench_aws mem_sdk) ''bench/'' False foreign_only)
      \<noteq> Err (Wrap_error ''found other'' Err_shared_bucket)"
proof
  have "aws_key bench_aws '''' = ''bench/''"
    by (simp add: aws_key_def join_prefix_def trim_prefix_def has_prefix_def)
  then show "fst (check_bucket (aws_client bench_aws mem_sdk) ''bench/'' False foreign_only) = Ok ()"
    by (simp add: check_bucket_def aws_list_def mem_sdk_def foreign_only_def fake_list_flat
        keys_from_def has_prefix_def unpack_list_def)
  show "fst (check_bucket (aws_client bench_aws mem_sdk) ''bench/'' False foreign_only)
      \<noteq> Err (Wrap_error ''found other'' Err_shared_bucket)"
    using check_bucket_aws_blind [OF mem_endpoint, of bench_aws foreign_only "''other''"] by simp
qed

text \<open>On the in-memory store the guard decides on the five smallest keys: it accepts exactly when
  they lie under the slash-terminated prefix. For a bucket of at most five objects that is what it
  promises, to accept just when no object is foreign; and a refusal always names a foreign object.\<close>

theorem check_bucket_first_five:
  assumes "fake_calm s"
  shows "let out = fst (check_bucket fake_client pfx False s); p = slash_terminated pfx in
    (out = Ok () \<longleftrightarrow>
       (\<forall>k \<in> set (take 5 (sorted_list_of_set (dom (fake_view s)))). has_prefix k p)) \<and>
    (card (dom (fake_view s)) \<le> 5 \<longrightarrow> (out = Ok () \<longleftrightarrow> (\<forall>k \<in> dom (fake_view s). has_prefix k p))) \<and>
    (out \<noteq> Ok () \<longrightarrow> (\<exists>k \<in> dom (fake_view s). \<not> has_prefix k p \<and>
       out = Err (Wrap_error (''found '' @ k) Err_shared_bucket)))"
proof -
  let ?keys = "sorted_list_of_set (dom (fake_view s))" and ?p = "slash_terminated pfx"
  have keys: "set ?keys = dom (fake_view s)" "length ?keys = card (dom (fake_view s))"
    by (simp_all add: fake_view_def finite_dom_map_of)
  note out = check_bucket_fake [OF assms, of pfx]
  show ?thesis
  proof (cases "find (\<lambda>k. \<not> has_prefix k ?p) (take 5 ?keys)")
    case None
    then have all: "\<forall>k \<in> set (take 5 ?keys). has_prefix k ?p" by (auto simp: find_None_iff)
    moreover have "card (dom (fake_view s)) \<le> 5 \<longrightarrow> (\<forall>k \<in> dom (fake_view s). has_prefix k ?p)"
      using all keys by (metis take_all)
    ultimately show ?thesis using None out by simp
  next
    case (Some k)
    then have k: "k \<in> set (take 5 ?keys)" "\<not> has_prefix k ?p"
      by (auto simp only: find_Some_iff intro: nth_mem)
    then have "k \<in> dom (fake_view s)" using keys(1) by (metis in_set_takeD)
    with k Some out show ?thesis by (simp add: Let_def) blast
  qed
qed

theorem check_bucket_first_five_witness:
  "fst (check_bucket fake_client ''bench'' False two_objects) =
     Err (Wrap_error ''found other'' Err_shared_bucket)"
proof -
  have c: "card (dom (fake_view two_objects)) \<le> 5"
    unfolding two_objects_view by (simp add: card_insert_if)
  note w = check_bucket_first_five [OF two_objects_calm, of "''bench''", unfolded Let_def bench_slash]
  have "fst (check_bucket fake_client ''bench'' False two_objects) \<noteq> Ok ()"
    using w c two_objects_prefix unfolding two_objects_view by blast
  then show ?thesis using w two_objects_prefix unfolding two_objects_view by auto
qed

text \<open>So a foreign object behind five keys under the prefix goes unnoticed.\<close>

definition five_then_foreign :: fake_state where
  "five_then_foreign =
     \<lparr>fs_objects = map (\<lambda>k. (k, [])) [''b/1'', ''b/2'', ''b/3'', ''b/4'', ''b/5'', ''z''],
      fs_tags = [], fs_fail = [], fs_delay = 0\<rparr>"

lemma check_bucket_misses:
  "fst (check_bucket fake_client ''b'' False five_then_foreign) = Ok () \<and>
   fake_view five_then_foreign ''z'' \<noteq> None \<and> \<not> has_prefix ''z'' (slash_terminated ''b'')"
  by (simp add: check_bucket_def five_then_foreign_def fake_list_flat keys_from_def fake_view_def
      slash_terminated_def has_suffix_def has_prefix_def less_char_def)

end
