(* ===== verification/Metrics.thy ===== *)
theory Metrics
  imports Go_Prelude "HOL-Library.Multiset"
begin

section \<open>Per-operation metrics\<close>

text \<open>
  \<open>internal/metrics/metrics.go\<close>, \<open>errors.go\<close> and \<open>hdr.go\<close>: the sharded collector, its two
  aggregations \<open>Snapshot\<close> and \<open>Totals\<close>, and the histogram buckets of the JSON report. The
  HdrHistogram package is not part of the repository: it is the parameter \<open>hdrlib\<close>. Go maps are
  association lists; \<open>vis\<close> is the order in which a run happens to range over the shard map. A
  mutex makes each \<open>record\<close> one step, so a run is the list of its \<open>record\<close> calls in the order in
  which they took their locks. \<open>float64\<close> is \<open>real\<close>.
\<close>

subsection \<open>Operations and errors\<close>

datatype op =
    OpPut | OpGet | OpHead | OpList | OpDelete | OpCopy | OpRangeGet
  | OpMultipartInit | OpMultipartPart | OpMultipartComplete
  | OpManifestPut | OpCheckpointPut | OpGetTagging | OpPutTagging

fun op_name :: "op \<Rightarrow> string" where
  "op_name OpPut = ''put''"
| "op_name OpGet = ''get''"
| "op_name OpHead = ''head''"
| "op_name OpList = ''list''"
| "op_name OpDelete = ''delete''"
| "op_name OpCopy = ''copy''"
| "op_name OpRangeGet = ''range_get''"
| "op_name OpMultipartInit = ''multipart_init''"
| "op_name OpMultipartPart = ''multipart_part''"
| "op_name OpMultipartComplete = ''multipart_complete''"
| "op_name OpManifestPut = ''manifest_put''"
| "op_name OpCheckpointPut = ''checkpoint_put''"
| "op_name OpGetTagging = ''get_tagging''"
| "op_name OpPutTagging = ''put_tagging''"

text \<open>\<open>classify\<close>: the code of the first API error in the chain (\<open>errors.As\<close>), or \<open>unknown\<close>.\<close>

fun api_code :: "go_error list \<Rightarrow> string option" where
  "api_code [] = None"
| "api_code (No_such_key m # es) = Some ''NoSuchKey''"
| "api_code (Api_error c m # es) = Some c"
| "api_code (e # es) = api_code es"

definition classify :: "go_error option \<Rightarrow> string" where
  "classify err = (case err of None \<Rightarrow> ''''
     | Some e \<Rightarrow> (case api_code (err_chain e) of Some c \<Rightarrow> c | None \<Rightarrow> ''unknown''))"

subsection \<open>The histogram library\<close>

record 'h hdrlib =
  hd_new :: 'h
  hd_record :: "int \<Rightarrow> 'h \<Rightarrow> 'h"
  hd_merge :: "'h \<Rightarrow> 'h \<Rightarrow> 'h"
  hd_total :: "'h \<Rightarrow> int"
  hd_quantile :: "'h \<Rightarrow> real \<Rightarrow> int"
  hd_stddev :: "'h \<Rightarrow> real"
  hd_cdf :: "'h \<Rightarrow> (int \<times> int) list"    \<comment> \<open>rows \<open>(ValueAt, Count)\<close>\<close>

definition hdr_min :: int where "hdr_min = 1"
definition hdr_max :: int where "hdr_max = 3600000000000"

text \<open>The documented behaviour the collector relies on: recording a value within the histogram's
  range counts it once, and merging adds the counts.\<close>

definition hdr_counts :: "'h hdrlib \<Rightarrow> bool" where
  "hdr_counts lib \<longleftrightarrow> hd_total lib (hd_new lib) = 0 \<and>
     (\<forall>v h. hdr_min \<le> v \<and> v \<le> hdr_max \<longrightarrow>
        wrap64 (hd_total lib (hd_record lib v h)) = wrap64 (hd_total lib h + 1)) \<and>
     (\<forall>a b. wrap64 (hd_total lib (hd_merge lib a b)) = wrap64 (hd_total lib a + hd_total lib b))"

subsection \<open>Statistics of one operation\<close>

text \<open>\<open>ErrAgg.SampleMessage\<close> is kept as the error whose \<open>Error()\<close> text it holds.\<close>

record err_agg =
  ea_count :: int
  ea_sample :: go_error

record 'h opstats =
  st_count :: int
  st_errors :: int
  st_bytes :: int
  st_lat_sum :: int
  st_lat_max :: int
  st_lat_min :: int
  st_err_by_code :: "(string \<times> err_agg) list"
  st_hist :: 'h

definition fresh_stats :: "'h hdrlib \<Rightarrow> 'h opstats" where
  "fresh_stats lib = \<lparr>st_count = 0, st_errors = 0, st_bytes = 0, st_lat_sum = 0, st_lat_max = 0,
     st_lat_min = hdr_max, st_err_by_code = [], st_hist = hd_new lib\<rparr>"

definition clamp_latency :: "int \<Rightarrow> int" where
  "clamp_latency v = (let v1 = (if v < hdr_min then hdr_min else v)
     in if v1 > hdr_max then hdr_max else v1)"

definition count_error :: "go_error \<Rightarrow> (string \<times> err_agg) list \<Rightarrow> (string \<times> err_agg) list" where
  "count_error e m =
     (let code = classify (Some e);
          agg = (case map_of m code of Some a \<Rightarrow> a | None \<Rightarrow> \<lparr>ea_count = 0, ea_sample = e\<rparr>)
      in AList.update code (agg\<lparr>ea_count := wrap64 (ea_count agg + 1)\<rparr>) m)"

definition record_stats ::
    "'h hdrlib \<Rightarrow> int \<Rightarrow> int \<Rightarrow> go_error option \<Rightarrow> 'h opstats \<Rightarrow> 'h opstats" where
  "record_stats lib latency n err st =
     (let st1 = st\<lparr>st_count := wrap64 (st_count st + 1),
                   st_bytes := wrap64 (st_bytes st + n),
                   st_lat_sum := wrap64 (st_lat_sum st + latency),
                   st_lat_max := (if latency > st_lat_max st then latency else st_lat_max st),
                   st_lat_min := (if latency < st_lat_min st then latency else st_lat_min st),
                   st_hist := hd_record lib (clamp_latency latency) (st_hist st)\<rparr>
      in case err of None \<Rightarrow> st1
         | Some e \<Rightarrow> st1\<lparr>st_errors := wrap64 (st_errors st1 + 1),
                        st_err_by_code := count_error e (st_err_by_code st1)\<rparr>)"

definition merge_error ::
    "(string \<times> err_agg) \<Rightarrow> (string \<times> err_agg) list \<Rightarrow> (string \<times> err_agg) list" where
  "merge_error r m =
     (case r of (code, agg) \<Rightarrow>
        let d = (case map_of m code of Some a \<Rightarrow> a
                 | None \<Rightarrow> \<lparr>ea_count = 0, ea_sample = ea_sample agg\<rparr>)
        in AList.update code (d\<lparr>ea_count := wrap64 (ea_count d + ea_count agg)\<rparr>) m)"

definition merge_stats :: "'h hdrlib \<Rightarrow> 'h opstats \<Rightarrow> 'h opstats \<Rightarrow> 'h opstats" where
  "merge_stats lib dst src =
     dst\<lparr>st_count := wrap64 (st_count dst + st_count src),
         st_errors := wrap64 (st_errors dst + st_errors src),
         st_bytes := wrap64 (st_bytes dst + st_bytes src),
         st_lat_sum := wrap64 (st_lat_sum dst + st_lat_sum src),
         st_lat_max := (if st_lat_max src > st_lat_max dst then st_lat_max src else st_lat_max dst),
         st_lat_min := (if st_lat_min src < st_lat_min dst then st_lat_min src else st_lat_min dst),
         st_hist := hd_merge lib (st_hist dst) (st_hist src),
         st_err_by_code := fold merge_error (st_err_by_code src) (st_err_by_code dst)\<rparr>"

definition percentile :: "'h hdrlib \<Rightarrow> 'h opstats \<Rightarrow> real \<Rightarrow> int" where
  "percentile lib s p =
     (if hd_total lib (st_hist s) = 0 then 0
      else let p1 = (if p < 0 then 0 else p); p2 = (if p1 > 1 then 1 else p1)
           in hd_quantile lib (st_hist s) (p2 * 100))"

definition mean_latency :: "'h opstats \<Rightarrow> int" where
  "mean_latency s = (if st_count s = 0 then 0 else go_div (st_lat_sum s) (st_count s))"

definition std_dev :: "(real \<Rightarrow> int) \<Rightarrow> 'h hdrlib \<Rightarrow> 'h opstats \<Rightarrow> int" where
  "std_dev to_int64 lib s =
     (if hd_total lib (st_hist s) < 2 then 0 else to_int64 (hd_stddev lib (st_hist s)))"

subsection \<open>Shards and the collector\<close>

type_synonym 'h op_table = "(op \<times> 'h opstats) list"
type_synonym 'h workload_table = "(string \<times> 'h op_table) list"
type_synonym 'h shard = "'h workload_table"

definition table_at :: "'h workload_table \<Rightarrow> string \<Rightarrow> 'h op_table" where
  "table_at t wl = (case map_of t wl of Some ops \<Rightarrow> ops | None \<Rightarrow> [])"

definition stats_or_fresh :: "'h hdrlib \<Rightarrow> 'h op_table \<Rightarrow> op \<Rightarrow> 'h opstats" where
  "stats_or_fresh lib ops x = (case map_of ops x of Some st \<Rightarrow> st | None \<Rightarrow> fresh_stats lib)"

definition shard_record :: "'h hdrlib \<Rightarrow> string \<Rightarrow> op \<Rightarrow> int \<Rightarrow> int \<Rightarrow> go_error option
    \<Rightarrow> 'h shard \<Rightarrow> 'h shard" where
  "shard_record lib wl x latency n err s =
     (let ops = table_at s wl; st = stats_or_fresh lib ops x
      in AList.update wl (AList.update x (record_stats lib latency n err st) ops) s)"

record 'h collector =
  co_shards :: "(int \<times> 'h shard) list"
  co_fallback :: "'h shard"
  co_start :: int

definition new_collector :: "int \<Rightarrow> 'h collector" where
  "new_collector now = \<lparr>co_shards = [], co_fallback = [], co_start = now\<rparr>"

text \<open>A recorder is the collector itself (\<open>None\<close>) or a \<open>shardRecorder\<close> for a worker id.
  \<open>ShardFor\<close>, on either, creates the worker's shard if it is missing and returns its recorder.\<close>

type_synonym recorder = "int option"

definition shard_for :: "int \<Rightarrow> 'h collector \<Rightarrow> recorder \<times> 'h collector" where
  "shard_for i c = (Some i,
     (case map_of (co_shards c) i of Some s \<Rightarrow> c
      | None \<Rightarrow> c\<lparr>co_shards := AList.update i [] (co_shards c)\<rparr>))"

definition recorder_record :: "'h hdrlib \<Rightarrow> recorder \<Rightarrow> string \<Rightarrow> op \<Rightarrow> int \<Rightarrow> int
    \<Rightarrow> go_error option \<Rightarrow> 'h collector \<Rightarrow> 'h collector" where
  "recorder_record lib r wl x latency n err c =
     (case r of
        None \<Rightarrow> c\<lparr>co_fallback := shard_record lib wl x latency n err (co_fallback c)\<rparr>
      | Some i \<Rightarrow> (let s = (case map_of (co_shards c) i of Some s \<Rightarrow> s | None \<Rightarrow> [])
                  in c\<lparr>co_shards :=
                       AList.update i (shard_record lib wl x latency n err s) (co_shards c)\<rparr>))"

subsection \<open>Snapshot and totals\<close>

record 'h snapshot =
  sn_start :: int
  sn_end :: int
  sn_workloads :: "'h workload_table"

record totals =
  to_start :: int
  to_end :: int
  to_count :: int
  to_errors :: int
  to_bytes :: int

type_synonym 'h visit = "(int \<times> 'h shard) list \<Rightarrow> (int \<times> 'h shard) list"

definition all_shards :: "'h visit \<Rightarrow> 'h collector \<Rightarrow> 'h shard list" where
  "all_shards vis c = co_fallback c # map snd (vis (co_shards c))"

definition merge_op :: "'h hdrlib \<Rightarrow> op \<times> 'h opstats \<Rightarrow> 'h op_table \<Rightarrow> 'h op_table" where
  "merge_op lib r dst =
     (case r of (x, st) \<Rightarrow> AList.update x (merge_stats lib (stats_or_fresh lib dst x) st) dst)"

definition merge_workload ::
    "'h hdrlib \<Rightarrow> string \<times> 'h op_table \<Rightarrow> 'h workload_table \<Rightarrow> 'h workload_table" where
  "merge_workload lib r out =
     (case r of (wl, ops) \<Rightarrow> AList.update wl (fold (merge_op lib) ops (table_at out wl)) out)"

definition merge_shard :: "'h hdrlib \<Rightarrow> 'h shard \<Rightarrow> 'h workload_table \<Rightarrow> 'h workload_table" where
  "merge_shard lib s out = fold (merge_workload lib) s out"

definition normalise_min :: "'h opstats \<Rightarrow> 'h opstats" where
  "normalise_min st = (if st_lat_min st = hdr_max then st\<lparr>st_lat_min := 0\<rparr> else st)"

definition normalise_table :: "'h workload_table \<Rightarrow> 'h workload_table" where
  "normalise_table t = map (\<lambda>(wl, ops). (wl, map (\<lambda>(x, st). (x, normalise_min st)) ops)) t"

definition collector_snapshot :: "'h hdrlib \<Rightarrow> 'h visit \<Rightarrow> int \<Rightarrow> 'h collector \<Rightarrow> 'h snapshot" where
  "collector_snapshot lib vis now c =
     \<lparr>sn_start = co_start c, sn_end = now,
      sn_workloads = normalise_table (fold (merge_shard lib) (all_shards vis c) [])\<rparr>"

definition add_stats :: "op \<times> 'h opstats \<Rightarrow> totals \<Rightarrow> totals" where
  "add_stats r t = (case r of (x, st) \<Rightarrow>
     t\<lparr>to_count := wrap64 (to_count t + st_count st),
       to_errors := wrap64 (to_errors t + st_errors st),
       to_bytes := wrap64 (to_bytes t + st_bytes st)\<rparr>)"

definition add_shard :: "'h shard \<Rightarrow> totals \<Rightarrow> totals" where
  "add_shard s t = fold (\<lambda>(wl, ops). fold add_stats ops) s t"

definition totals_of :: "'h visit \<Rightarrow> int \<Rightarrow> 'h collector \<Rightarrow> totals" where
  "totals_of vis now c =
     fold add_shard (all_shards vis c)
       \<lparr>to_start = co_start c, to_end = now, to_count = 0, to_errors = 0, to_bytes = 0\<rparr>"

subsection \<open>Histogram buckets\<close>

definition hist_bounds :: "'h hdrlib \<Rightarrow> 'h \<Rightarrow> int list" where
  "hist_bounds lib h = map (\<lambda>i. hd_quantile lib h (real (i + 1) * 100 / 16)) [0..<16]"

function advance :: "int list \<Rightarrow> int \<Rightarrow> nat \<Rightarrow> nat" where
  "advance bounds v bi =
     (if bi + 1 < length bounds \<and> v > bounds ! bi then advance bounds v (bi + 1) else bi)"
  by pat_completeness auto
termination by (relation "measure (\<lambda>(bounds, v, bi). length bounds - bi)") auto

declare advance.simps [simp del]

fun fill_buckets :: "int list \<Rightarrow> (int \<times> int) list \<Rightarrow> int \<Rightarrow> nat \<Rightarrow> int list \<Rightarrow> int list" where
  "fill_buckets bounds [] prev bi counts = counts"
| "fill_buckets bounds ((v, c) # rows) prev bi counts =
     (let bi' = advance bounds v bi
      in fill_buckets bounds rows c bi'
           (counts[bi' := wrap64 (counts ! bi' + wrap64 (c - prev))]))"

definition hist_buckets :: "'h hdrlib \<Rightarrow> 'h \<Rightarrow> int list \<times> int list" where
  "hist_buckets lib h =
     (if hd_total lib h = 0 then ([], [])
      else (hist_bounds lib h,
            fill_buckets (hist_bounds lib h) (hd_cdf lib h) 0 0 (replicate 16 0)))"

definition stats_histogram :: "'h hdrlib \<Rightarrow> 'h opstats \<Rightarrow> int list \<times> int list" where
  "stats_histogram lib s = hist_buckets lib (st_hist s)"

subsection \<open>What a table has counted\<close>

text \<open>The calls of a run: \<open>ShardFor\<close> and \<open>Record\<close>, in the order in which they take effect.\<close>

record event =
  ev_workload :: string
  ev_op :: op
  ev_latency :: int
  ev_bytes :: int
  ev_err :: "go_error option"

datatype collector_call = Shard_for int | Record_on recorder event

definition record_event :: "'h hdrlib \<Rightarrow> event \<Rightarrow> 'h shard \<Rightarrow> 'h shard" where
  "record_event lib e =
     shard_record lib (ev_workload e) (ev_op e) (ev_latency e) (ev_bytes e) (ev_err e)"

fun collector_step :: "'h hdrlib \<Rightarrow> collector_call \<Rightarrow> 'h collector \<Rightarrow> 'h collector" where
  "collector_step lib (Shard_for i) c = snd (shard_for i c)"
| "collector_step lib (Record_on r e) c =
     recorder_record lib r (ev_workload e) (ev_op e) (ev_latency e) (ev_bytes e) (ev_err e) c"

definition run_collector :: "'h hdrlib \<Rightarrow> int \<Rightarrow> collector_call list \<Rightarrow> 'h collector" where
  "run_collector lib t0 cs = fold (collector_step lib) cs (new_collector t0)"

fun recorded :: "collector_call list \<Rightarrow> event list" where
  "recorded [] = []"
| "recorded (Shard_for i # cs) = recorded cs"
| "recorded (Record_on r e # cs) = e # recorded cs"

text \<open>The reference: what statistics should say of a multiset of recorded events.\<close>

definition with_code :: "string \<Rightarrow> event multiset \<Rightarrow> event multiset" where
  "with_code code M = filter_mset (\<lambda>e. ev_err e \<noteq> None \<and> classify (ev_err e) = code) M"

definition failed :: "event multiset \<Rightarrow> event multiset" where
  "failed M = filter_mset (\<lambda>e. ev_err e \<noteq> None) M"

definition agg_counts :: "(string \<times> err_agg) list \<Rightarrow> event multiset \<Rightarrow> bool" where
  "agg_counts m M \<longleftrightarrow> (\<forall>code. case map_of m code of
      None \<Rightarrow> with_code code M = {#}
    | Some a \<Rightarrow> with_code code M \<noteq> {#} \<and> ea_count a = wrap64 (int (size (with_code code M))) \<and>
        Some (ea_sample a) \<in> ev_err ` set_mset (with_code code M))"

definition lat_max :: "event multiset \<Rightarrow> int" where
  "lat_max M = Max (insert 0 (ev_latency ` set_mset M))"

definition lat_min :: "event multiset \<Rightarrow> int" where
  "lat_min M = Min (insert hdr_max (ev_latency ` set_mset M))"

definition counts :: "'h hdrlib \<Rightarrow> 'h opstats \<Rightarrow> event multiset \<Rightarrow> bool" where
  "counts lib st M \<longleftrightarrow>
     st_count st = wrap64 (int (size M)) \<and>
     st_errors st = wrap64 (int (size (failed M))) \<and>
     st_bytes st = wrap64 (\<Sum>e\<in>#M. ev_bytes e) \<and>
     st_lat_sum st = wrap64 (\<Sum>e\<in>#M. ev_latency e) \<and>
     st_lat_max st = lat_max M \<and>
     st_lat_min st = lat_min M \<and>
     agg_counts (st_err_by_code st) M \<and> distinct (map fst (st_err_by_code st)) \<and>
     (hdr_counts lib \<longrightarrow> wrap64 (hd_total lib (st_hist st)) = wrap64 (int (size M)))"

lemma with_code_simps [simp]:
  "with_code code {#} = {#}"
  "with_code code (M + N) = with_code code M + with_code code N"
  "with_code code (add_mset e M) =
     (if ev_err e \<noteq> None \<and> classify (ev_err e) = code then add_mset e (with_code code M)
      else with_code code M)"
  by (auto simp: with_code_def)

lemma failed_simps [simp]:
  "failed {#} = {#}"
  "failed (M + N) = failed M + failed N"
  "failed (add_mset e M) = (if ev_err e \<noteq> None then add_mset e (failed M) else failed M)"
  by (auto simp: failed_def)

lemma clamp_latency_range: "hdr_min \<le> clamp_latency v \<and> clamp_latency v \<le> hdr_max"
  by (simp add: clamp_latency_def hdr_min_def hdr_max_def)

lemma agg_counts_count_error:
  assumes "agg_counts m M" "ev_err x = Some e"
  shows "agg_counts (count_error e m) (add_mset x M)"
  using assms unfolding agg_counts_def count_error_def Let_def
  apply (intro allI)
  subgoal for code
    apply (drule spec [of _ code])
    apply (cases "map_of m code"; cases "classify (Some e) = code")
       apply (auto simp: update_conv' add.commute)
    done
  done

lemma distinct_count_error: "distinct (map fst m) \<Longrightarrow> distinct (map fst (count_error e m))"
  by (simp add: count_error_def Let_def distinct_update)

lemma agg_counts_no_error: "agg_counts m M \<Longrightarrow> ev_err x = None \<Longrightarrow> agg_counts m (add_mset x M)"
proof -
  assume "agg_counts m M" "ev_err x = None"
  moreover from this have "with_code code (add_mset x M) = with_code code M" for code by simp
  ultimately show ?thesis unfolding agg_counts_def by presburger
qed

lemma lat_max_simps [simp]:
  "lat_max {#} = 0"
  "lat_max (add_mset e M) = (if ev_latency e > lat_max M then ev_latency e else lat_max M)"
  "lat_max (M + N) = (if lat_max N > lat_max M then lat_max N else lat_max M)"
proof -
  have "lat_max (add_mset e M) = max (ev_latency e) (lat_max M)"
    unfolding lat_max_def by (simp add: insert_commute [of 0] flip: Max_insert)
  then show "lat_max (add_mset e M) = (if ev_latency e > lat_max M then ev_latency e else lat_max M)"
    by (simp add: max_def)
  have "lat_max (M + N) = Max (insert 0 (ev_latency ` set_mset M) \<union> insert 0 (ev_latency ` set_mset N))"
    by (simp add: lat_max_def image_Un)
  also have "\<dots> = max (lat_max M) (lat_max N)"
    unfolding lat_max_def by (rule Max_Un) auto
  finally show "lat_max (M + N) = (if lat_max N > lat_max M then lat_max N else lat_max M)"
    by (simp add: max_def)
qed (simp add: lat_max_def)

lemma lat_min_simps [simp]:
  "lat_min {#} = hdr_max"
  "lat_min (add_mset e M) = (if ev_latency e < lat_min M then ev_latency e else lat_min M)"
  "lat_min (M + N) = (if lat_min N < lat_min M then lat_min N else lat_min M)"
proof -
  have "lat_min (add_mset e M) = min (ev_latency e) (lat_min M)"
    unfolding lat_min_def by (simp add: insert_commute [of hdr_max] flip: Min_insert)
  then show "lat_min (add_mset e M) = (if ev_latency e < lat_min M then ev_latency e else lat_min M)"
    by (simp add: min_def)
  have "lat_min (M + N) = Min (insert hdr_max (ev_latency ` set_mset M) \<union> insert hdr_max (ev_latency ` set_mset N))"
    by (simp add: lat_min_def image_Un)
  also have "\<dots> = min (lat_min M) (lat_min N)"
    unfolding lat_min_def by (rule Min_Un) auto
  finally show "lat_min (M + N) = (if lat_min N < lat_min M then lat_min N else lat_min M)"
    by (simp add: min_def)
qed (simp add: lat_min_def)

lemma wrap64_add_cong: "wrap64 a = wrap64 b \<Longrightarrow> wrap64 c = wrap64 d \<Longrightarrow> wrap64 (a + c) = wrap64 (b + d)"
  by (metis wrap64_add_left wrap64_add_right)

lemma hdr_record:
  "hdr_counts lib \<Longrightarrow> wrap64 (hd_total lib (hd_record lib (clamp_latency v) h)) =
     wrap64 (hd_total lib h + 1)"
  using clamp_latency_range [of v] unfolding hdr_counts_def by blast

lemma hdr_merge:
  "hdr_counts lib \<Longrightarrow> wrap64 (hd_total lib (hd_merge lib a b)) =
     wrap64 (hd_total lib a + hd_total lib b)"
  unfolding hdr_counts_def by blast

lemma counts_fresh [simp]: "counts lib (fresh_stats lib) {#}"
  by (simp add: counts_def fresh_stats_def agg_counts_def hdr_counts_def)

lemma counts_record:
  assumes "counts lib st M"
  shows "counts lib (record_stats lib (ev_latency e) (ev_bytes e) (ev_err e) st) (add_mset e M)"
proof (cases "ev_err e")
  case None
  with assms show ?thesis
    by (auto simp: counts_def record_stats_def agg_counts_no_error add.commute hdr_record
        intro: wrap64_add_cong)
next
  case (Some x)
  with assms show ?thesis
    by (auto simp: counts_def record_stats_def agg_counts_count_error distinct_count_error
        add.commute hdr_record intro: wrap64_add_cong)
qed

lemma merge_error_upsert:
  "merge_error (code, agg) m = AList.update code
     (let d = (case map_of m code of Some a \<Rightarrow> a | None \<Rightarrow> \<lparr>ea_count = 0, ea_sample = ea_sample agg\<rparr>)
      in d\<lparr>ea_count := wrap64 (ea_count d + ea_count agg)\<rparr>) m"
  by (simp add: merge_error_def Let_def)

lemma agg_counts_merge:
  assumes "agg_counts m M" "agg_counts src N" "distinct (map fst src)"
  shows "agg_counts (fold merge_error src m) (M + N)"
  unfolding agg_counts_def
proof
  fix code
  note u = fold_upsert [of merge_error, OF merge_error_upsert assms(3), of m code]
  show "case map_of (fold merge_error src m) code of None \<Rightarrow> with_code code (M + N) = {#}
    | Some a \<Rightarrow> with_code code (M + N) \<noteq> {#} \<and>
        ea_count a = wrap64 (int (size (with_code code (M + N)))) \<and>
        Some (ea_sample a) \<in> ev_err ` set_mset (with_code code (M + N))"
    using assms(1, 2) unfolding agg_counts_def
    by (cases "map_of m code"; cases "map_of src code")
      (auto simp: u Let_def dest!: spec [of _ code])
qed

lemma counts_merge:
  assumes "counts lib a M" "counts lib b N"
  shows "counts lib (merge_stats lib a b) (M + N)"
  using assms
  by (auto simp: counts_def merge_stats_def agg_counts_merge hdr_merge
      distinct_fold_upsert [of merge_error, OF merge_error_upsert] intro: wrap64_add_cong)

text \<open>A workload table agrees with a multiset of events: every entry counts exactly the events of
  its workload and operation, and there is an entry just where there are events.\<close>

definition stat_at :: "'h workload_table \<Rightarrow> string \<Rightarrow> op \<Rightarrow> 'h opstats option" where
  "stat_at t wl x = map_of (table_at t wl) x"

definition of_op :: "string \<Rightarrow> op \<Rightarrow> event multiset \<Rightarrow> event multiset" where
  "of_op wl x M = filter_mset (\<lambda>e. ev_workload e = wl \<and> ev_op e = x) M"

definition entry_counts :: "'h hdrlib \<Rightarrow> 'h opstats option \<Rightarrow> event multiset \<Rightarrow> bool" where
  "entry_counts lib r M \<longleftrightarrow> (case r of None \<Rightarrow> M = {#} | Some st \<Rightarrow> M \<noteq> {#} \<and> counts lib st M)"

definition table_wf :: "'h workload_table \<Rightarrow> bool" where
  "table_wf t \<longleftrightarrow> distinct (map fst t) \<and> (\<forall>(wl, ops) \<in> set t. distinct (map fst ops))"

definition table_counts :: "'h hdrlib \<Rightarrow> 'h workload_table \<Rightarrow> event multiset \<Rightarrow> bool" where
  "table_counts lib t M \<longleftrightarrow> table_wf t \<and> (\<forall>wl x. entry_counts lib (stat_at t wl x) (of_op wl x M))"

lemma of_op_simps [simp]:
  "of_op wl x {#} = {#}"
  "of_op wl x (M + N) = of_op wl x M + of_op wl x N"
  "of_op wl x (add_mset e M) =
     (if ev_workload e = wl \<and> ev_op e = x then add_mset e (of_op wl x M) else of_op wl x M)"
  by (auto simp: of_op_def)

lemma table_at_update:
  "table_at (AList.update wl ops t) w = (if w = wl then ops else table_at t w)"
  by (simp add: table_at_def update_conv')

lemma table_wf_at: "table_wf t \<Longrightarrow> distinct (map fst (table_at t wl))"
  by (auto simp: table_wf_def table_at_def split: option.splits dest: map_of_SomeD)

lemma table_wf_update: "table_wf t \<Longrightarrow> distinct (map fst ops) \<Longrightarrow> table_wf (AList.update wl ops t)"
  unfolding table_wf_def using set_alist_update [of wl ops t] by (auto simp: distinct_update)

lemma table_counts_Nil [simp]: "table_counts lib [] {#}"
  by (simp add: table_counts_def table_wf_def stat_at_def table_at_def entry_counts_def)

lemma stats_or_fresh_counts:
  "entry_counts lib (map_of ops x) M \<Longrightarrow> counts lib (stats_or_fresh lib ops x) M"
  by (auto simp: entry_counts_def stats_or_fresh_def split: option.splits)

lemma table_counts_record:
  assumes "table_counts lib t M"
  shows "table_counts lib (record_event lib e t) (add_mset e M)"
proof -
  have wf: "table_wf t" and en: "\<And>wl x. entry_counts lib (stat_at t wl x) (of_op wl x M)"
    using assms by (auto simp: table_counts_def)
  have "counts lib (stats_or_fresh lib (table_at t (ev_workload e)) (ev_op e))
      (of_op (ev_workload e) (ev_op e) M)"
    using en [of "ev_workload e" "ev_op e"] by (simp add: stat_at_def stats_or_fresh_counts)
  from counts_record [OF this, of e] show ?thesis
    using wf en
    by (auto simp: table_counts_def record_event_def shard_record_def Let_def stat_at_def
        table_at_update update_conv' entry_counts_def table_wf_update table_wf_at distinct_update)
qed

lemma map_of_merge_shard:
  assumes "table_wf s"
  shows "map_of (merge_shard lib s out) wl =
    (case map_of s wl of None \<Rightarrow> map_of out wl
     | Some ops \<Rightarrow> Some (fold (merge_op lib) ops (table_at out wl)))"
  using fold_upsert [of "merge_workload lib"
      "\<lambda>wl ops old. fold (merge_op lib) ops (case old of Some d \<Rightarrow> d | None \<Rightarrow> [])" s out wl] assms
  by (simp add: merge_shard_def merge_workload_def table_at_def table_wf_def split: option.split)

lemma map_of_merge_ops:
  assumes "distinct (map fst ops)"
  shows "map_of (fold (merge_op lib) ops dst) x =
    (case map_of ops x of None \<Rightarrow> map_of dst x
     | Some st \<Rightarrow> Some (merge_stats lib (stats_or_fresh lib dst x) st))"
  using fold_upsert [of "merge_op lib" "\<lambda>x st old. merge_stats lib
      (case old of Some d \<Rightarrow> d | None \<Rightarrow> fresh_stats lib) st" ops dst x] assms
  by (simp add: merge_op_def stats_or_fresh_def split: option.split)

lemma stat_at_merge_shard:
  assumes "table_wf s"
  shows "stat_at (merge_shard lib s out) wl x =
    (case stat_at s wl x of None \<Rightarrow> stat_at out wl x
     | Some st \<Rightarrow> Some (merge_stats lib (stats_or_fresh lib (table_at out wl) x) st))"
proof (cases "map_of s wl")
  case None
  then show ?thesis by (simp add: stat_at_def table_at_def map_of_merge_shard [OF assms])
next
  case (Some ops)
  moreover from this have "distinct (map fst ops)"
    using table_wf_at [OF assms, of wl] by (simp add: table_at_def)
  ultimately show ?thesis
    by (simp add: stat_at_def table_at_def map_of_merge_shard [OF assms] map_of_merge_ops
        split: option.split)
qed

lemma table_wf_merge_shard: "table_wf out \<Longrightarrow> table_wf (merge_shard lib s out)"
proof (induction s arbitrary: out)
  case (Cons r s)
  obtain wl ops where [simp]: "r = (wl, ops)" by fastforce
  have "distinct (map fst (fold (merge_op lib) ops (table_at out wl)))"
    using distinct_fold_upsert [of "merge_op lib" "\<lambda>x st old. merge_stats lib
      (case old of Some d \<Rightarrow> d | None \<Rightarrow> fresh_stats lib) st" "table_at out wl" ops]
      table_wf_at [OF Cons.prems, of wl] by (simp add: merge_op_def stats_or_fresh_def)
  then have "table_wf (merge_workload lib r out)"
    using Cons.prems by (simp add: merge_workload_def table_wf_update)
  from Cons.IH [OF this] show ?case by (simp add: merge_shard_def)
qed (simp add: merge_shard_def)

lemma table_counts_merge:
  assumes "table_counts lib out M" "table_counts lib s N"
  shows "table_counts lib (merge_shard lib s out) (M + N)"
proof -
  have wf: "table_wf s" "table_wf out"
    and en: "\<And>wl x. entry_counts lib (stat_at out wl x) (of_op wl x M)"
      "\<And>wl x. entry_counts lib (stat_at s wl x) (of_op wl x N)"
    using assms by (auto simp: table_counts_def)
  have "entry_counts lib (stat_at (merge_shard lib s out) wl x) (of_op wl x (M + N))" for wl x
  proof (cases "stat_at s wl x")
    case None
    with en [of wl x] show ?thesis by (simp add: stat_at_merge_shard [OF wf(1)] entry_counts_def)
  next
    case (Some st)
    have "counts lib (stats_or_fresh lib (table_at out wl) x) (of_op wl x M)"
      using en(1) [of wl x] by (simp add: stat_at_def stats_or_fresh_counts)
    from counts_merge [OF this, of st "of_op wl x N"] Some en(2) [of wl x] show ?thesis
      by (simp add: stat_at_merge_shard [OF wf(1)] entry_counts_def)
  qed
  with wf show ?thesis by (simp add: table_counts_def table_wf_merge_shard)
qed

lemma table_counts_merge_all:
  assumes "list_all2 (table_counts lib) ss Ns" "table_counts lib out M"
  shows "table_counts lib (fold (merge_shard lib) ss out) (M + sum_list Ns)"
  using assms
proof (induction arbitrary: out M rule: list_all2_induct)
  case (Cons s ss N Ns)
  from Cons.IH [OF table_counts_merge [OF Cons.prems Cons.hyps(1)]]
  show ?case by (simp add: add.assoc)
qed simp

text \<open>The events each recorder received, and the shard behind it.\<close>

fun routed :: "recorder \<Rightarrow> collector_call list \<Rightarrow> event multiset" where
  "routed r [] = {#}"
| "routed r (Shard_for i # cs) = routed r cs"
| "routed r (Record_on r' e # cs) = (if r' = r then add_mset e (routed r cs) else routed r cs)"

definition shard_at :: "'h collector \<Rightarrow> recorder \<Rightarrow> 'h shard" where
  "shard_at c r = (case r of None \<Rightarrow> co_fallback c
     | Some i \<Rightarrow> (case map_of (co_shards c) i of Some s \<Rightarrow> s | None \<Rightarrow> []))"

lemma routed_append: "routed r (cs @ ds) = routed r cs + routed r ds"
  by (induction r cs rule: routed.induct) auto

lemma recorded_append: "recorded (cs @ ds) = recorded cs @ recorded ds"
  by (induction cs rule: recorded.induct) auto

lemma shard_at_step:
  "shard_at (collector_step lib (Shard_for i) c) r = shard_at c r"
  "shard_at (collector_step lib (Record_on r' e) c) r =
     (if r' = r then record_event lib e (shard_at c r) else shard_at c r)"
  by (auto simp: shard_at_def shard_for_def recorder_record_def record_event_def update_conv' Let_def
      split: option.splits)

lemma run_collector_snoc:
  "run_collector lib t0 (cs @ [x]) = collector_step lib x (run_collector lib t0 cs)"
  by (simp add: run_collector_def)

lemma run_collector_counts:
  "table_counts lib (shard_at (run_collector lib t0 cs) r) (routed r cs)"
proof (induction cs rule: rev_induct)
  case Nil
  show ?case by (simp add: run_collector_def new_collector_def shard_at_def split: option.splits)
next
  case (snoc x cs)
  then show ?case
    by (cases x) (auto simp: run_collector_snoc shard_at_step routed_append table_counts_record
        simp del: collector_step.simps)
qed

lemma run_collector_keys:
  "distinct (map fst (co_shards (run_collector lib t0 cs))) \<and>
   {i. routed (Some i) cs \<noteq> {#}} \<subseteq> fst ` set (co_shards (run_collector lib t0 cs)) \<and>
   co_start (run_collector lib t0 cs) = t0"
proof (induction cs rule: rev_induct)
  case Nil
  show ?case by (simp add: run_collector_def new_collector_def)
next
  case (snoc x cs)
  show ?case
  proof (cases x)
    case (Shard_for i)
    with snoc show ?thesis
      by (auto simp: run_collector_snoc shard_for_def routed_append update_keys simp flip: set_map
          split: option.splits)
  next
    case (Record_on r e)
    with snoc show ?thesis
      by (cases r) (auto simp: run_collector_snoc recorder_record_def routed_append update_keys
          Let_def simp flip: set_map split: if_splits)
  qed
qed

lemma recorded_routed:
  assumes "finite K" "{i. routed (Some i) cs \<noteq> {#}} \<subseteq> K"
  shows "mset (recorded cs) = routed None cs + (\<Sum>i\<in>K. routed (Some i) cs)"
  using assms(2)
proof (induction cs rule: recorded.induct)
  case (3 r e cs)
  then show ?case
  proof (cases r)
    case (Some i)
    with 3 have "i \<in> K" and sub: "{i. routed (Some i) cs \<noteq> {#}} \<subseteq> K" by (auto split: if_splits)
    have "(\<Sum>j\<in>K. routed (Some j) (Record_on r e # cs)) =
        (\<Sum>j\<in>K. routed (Some j) cs + (if j = i then {#e#} else {#}))"
      using Some by (intro sum.cong) auto
    also have "\<dots> = add_mset e (\<Sum>j\<in>K. routed (Some j) cs)"
      using \<open>i \<in> K\<close> assms(1) by (simp add: sum.distrib)
    finally show ?thesis using 3(1) [OF sub] Some by simp
  qed auto
qed auto

subsection \<open>Snapshots\<close>

lemma snapshot_table_counts:
  assumes "\<forall>xs. mset (vis xs) = mset xs"
  shows "table_counts lib (fold (merge_shard lib) (all_shards vis (run_collector lib t0 cs)) [])
    (mset (recorded cs))"
proof -
  define c where "c = run_collector lib t0 cs"
  define R where "R i = routed (Some i) cs" for i
  have keys: "distinct (map fst (co_shards c))"
      "{i. routed (Some i) cs \<noteq> {#}} \<subseteq> fst ` set (co_shards c)"
    using run_collector_keys [of lib t0 cs] by (auto simp: c_def)
  have perm: "set (vis (co_shards c)) = set (co_shards c)"
    using assms by (metis set_mset_mset)
  have "table_counts lib s (R i)" if "(i, s) \<in> set (co_shards c)" for i s
    using run_collector_counts [of lib t0 cs "Some i"] that keys(1)
    by (simp add: R_def shard_at_def flip: c_def)
  then have "list_all2 (table_counts lib) (map snd (vis (co_shards c))) (map (R \<circ> fst) (vis (co_shards c)))"
    unfolding list.rel_map using perm by (intro list.rel_refl_strong) (auto simp: split_paired_all)
  moreover have "table_counts lib (co_fallback c) (routed None cs)"
    using run_collector_counts [of lib t0 cs None] by (simp add: shard_at_def c_def)
  ultimately have all: "list_all2 (table_counts lib) (all_shards vis c)
      (routed None cs # map (R \<circ> fst) (vis (co_shards c)))"
    by (simp add: all_shards_def)
  have "sum_list (map (R \<circ> fst) (vis (co_shards c))) = sum_list (map R (map fst (co_shards c)))"
    using assms by (metis (no_types, lifting) map_map mset_map sum_mset_sum_list)
  also have "\<dots> = (\<Sum>i\<in>fst ` set (co_shards c). R i)"
    using sum_list_distinct_conv_sum_set [OF keys(1), of R] by simp
  finally have "routed None cs + sum_list (map (R \<circ> fst) (vis (co_shards c))) = mset (recorded cs)"
    using recorded_routed [OF _ keys(2)] by (simp add: R_def)
  with table_counts_merge_all [OF all table_counts_Nil] show ?thesis by (simp add: c_def)
qed

lemma stat_at_normalise: "stat_at (normalise_table t) wl x = map_option normalise_min (stat_at t wl x)"
proof -
  have ops: "map_of (map (\<lambda>(x, st). (x, normalise_min st)) ops) x =
      map_option normalise_min (map_of ops x)" for ops :: "'a op_table" and x
    by (induction ops) auto
  have "map_of (normalise_table t) wl =
      map_option (map (\<lambda>(x, st). (x, normalise_min st))) (map_of t wl)"
    unfolding normalise_table_def by (induction t) auto
  then show ?thesis
    by (cases "map_of t wl") (simp_all add: stat_at_def table_at_def ops)
qed

lemma normalise_min_simps [simp]:
  "st_count (normalise_min st) = st_count st"
  "st_errors (normalise_min st) = st_errors st"
  "st_bytes (normalise_min st) = st_bytes st"
  "st_lat_sum (normalise_min st) = st_lat_sum st"
  "st_lat_max (normalise_min st) = st_lat_max st"
  "st_lat_min (normalise_min st) = (if st_lat_min st = hdr_max then 0 else st_lat_min st)"
  "st_err_by_code (normalise_min st) = st_err_by_code st"
  "st_hist (normalise_min st) = st_hist st"
  by (simp_all add: normalise_min_def)

lemma snapshot_counts:
  assumes "\<forall>xs. mset (vis xs) = mset xs"
    "stat_at (sn_workloads (collector_snapshot lib vis now (run_collector lib t0 cs))) wl x = r"
  shows "case r of None \<Rightarrow> of_op wl x (mset (recorded cs)) = {#}
    | Some st \<Rightarrow> of_op wl x (mset (recorded cs)) \<noteq> {#} \<and>
        (\<exists>st'. st = normalise_min st' \<and> counts lib st' (of_op wl x (mset (recorded cs))))"
proof -
  let ?t = "fold (merge_shard lib) (all_shards vis (run_collector lib t0 cs)) []"
  have "entry_counts lib (stat_at ?t wl x) (of_op wl x (mset (recorded cs)))"
    using snapshot_table_counts [OF assms(1), of lib t0 cs] by (simp add: table_counts_def)
  moreover have "r = map_option normalise_min (stat_at ?t wl x)"
    using assms(2) by (simp add: collector_snapshot_def stat_at_normalise)
  ultimately show ?thesis by (cases "stat_at ?t wl x") (auto simp: entry_counts_def)
qed

text \<open>The calls of a run that concern one workload and operation.\<close>

definition calls_of :: "string \<Rightarrow> op \<Rightarrow> collector_call list \<Rightarrow> event list" where
  "calls_of wl x cs = filter (\<lambda>e. ev_workload e = wl \<and> ev_op e = x) (recorded cs)"

lemma of_op_recorded: "of_op wl x (mset (recorded cs)) = mset (calls_of wl x cs)"
  by (simp add: of_op_def calls_of_def mset_filter)

lemma lat_min_normalised:
  assumes "M \<noteq> {#}"
  shows "(if lat_min M = hdr_max then 0 else lat_min M) =
    (if \<forall>e\<in>#M. hdr_max \<le> ev_latency e then 0 else Min (ev_latency ` set_mset M))"
proof -
  have "lat_min M = min hdr_max (Min (ev_latency ` set_mset M))"
    using assms by (simp add: lat_min_def)
  moreover have "(\<forall>e\<in>#M. hdr_max \<le> ev_latency e) \<longleftrightarrow> hdr_max \<le> Min (ev_latency ` set_mset M)"
    using assms by simp
  ultimately show ?thesis by (simp add: min_def)
qed

subsection \<open>Totals\<close>

text \<open>The sum of one counter over every entry of a table.\<close>

definition ops_sum :: "('h opstats \<Rightarrow> int) \<Rightarrow> 'h op_table \<Rightarrow> int" where
  "ops_sum f ops = (\<Sum>(x, st)\<leftarrow>ops. f st)"

definition table_sum :: "('h opstats \<Rightarrow> int) \<Rightarrow> 'h workload_table \<Rightarrow> int" where
  "table_sum f t = (\<Sum>(wl, ops)\<leftarrow>t. ops_sum f ops)"

definition collector_sum :: "('h opstats \<Rightarrow> int) \<Rightarrow> 'h collector \<Rightarrow> int" where
  "collector_sum f c = table_sum f (co_fallback c) + (\<Sum>(i, s)\<leftarrow>co_shards c. table_sum f s)"

lemma sums_Nil [simp]: "ops_sum f [] = 0" "table_sum f [] = 0"
  by (simp_all add: ops_sum_def table_sum_def)

lemma table_sum_record:
  assumes "f (fresh_stats lib) = 0"
    and "\<And>st. wrap64 (f (record_stats lib l n err st)) = wrap64 (f st + d)"
  shows "wrap64 (table_sum f (shard_record lib wl x l n err s)) = wrap64 (table_sum f s + d)"
proof -
  define ops where "ops = table_at s wl"
  define st where "st = stats_or_fresh lib ops x"
  define ops' where "ops' = AList.update x (record_stats lib l n err st) ops"
  define new where "new = f (record_stats lib l n err st)"
  have "ops_sum f ops' = ops_sum f ops + new - f st"
    using assms(1) unfolding ops_sum_def ops'_def new_def
    by (simp add: sum_alist_update_int st_def stats_or_fresh_def split: option.split)
  moreover have "table_sum f (AList.update wl ops' s) = table_sum f s + ops_sum f ops' - ops_sum f ops"
    unfolding table_sum_def
    by (simp add: sum_alist_update_int ops_def table_at_def split: option.split)
  ultimately have "wrap64 (table_sum f (shard_record lib wl x l n err s)) =
      wrap64 (table_sum f s - f st + new)"
    by (simp add: shard_record_def Let_def add_diff_eq diff_add_eq flip: ops_def st_def ops'_def)
  also have "\<dots> = wrap64 (table_sum f s - f st + (f st + d))"
    using assms(2) [of st] unfolding new_def by (metis wrap64_add_right)
  finally show ?thesis by simp
qed

lemma collector_sum_run:
  assumes fresh: "f (fresh_stats lib) = 0"
    and rec: "\<And>st e. wrap64 (f (record_stats lib (ev_latency e) (ev_bytes e) (ev_err e) st)) =
      wrap64 (f st + d e)"
  shows "wrap64 (collector_sum f (run_collector lib t0 cs)) = wrap64 (\<Sum>e\<leftarrow>recorded cs. d e)"
proof (induction cs rule: rev_induct)
  case Nil
  show ?case by (simp add: run_collector_def new_collector_def collector_sum_def)
next
  case (snoc y cs)
  let ?c = "run_collector lib t0 cs"
  show ?case
  proof (cases y)
    case (Shard_for i)
    have "collector_sum f (snd (shard_for i ?c)) = collector_sum f ?c"
      by (auto simp: shard_for_def collector_sum_def sum_alist_update_int split: option.split)
    with snoc Shard_for show ?thesis by (simp add: run_collector_snoc recorded_append)
  next
    case (Record_on r e)
    note step = table_sum_record [of f lib "ev_latency e" "ev_bytes e" "ev_err e" "d e",
        OF fresh rec, of "ev_workload e" "ev_op e"]
    have "wrap64 (collector_sum f (collector_step lib y ?c)) = wrap64 (collector_sum f ?c + d e)"
    proof (cases r)
      case None
      have "wrap64 (table_sum f (shard_record lib (ev_workload e) (ev_op e) (ev_latency e) (ev_bytes e)
            (ev_err e) (co_fallback ?c)) + z) = wrap64 (table_sum f (co_fallback ?c) + d e + z)" for z
        using step by (metis wrap64_add_left)
      then show ?thesis
        by (simp add: Record_on None recorder_record_def collector_sum_def ac_simps)
    next
      case (Some i)
      define s where "s = (case map_of (co_shards ?c) i of Some s \<Rightarrow> s | None \<Rightarrow> [])"
      define s' where
        "s' = shard_record lib (ev_workload e) (ev_op e) (ev_latency e) (ev_bytes e) (ev_err e) s"
      have "collector_sum f (collector_step lib y ?c) =
          collector_sum f ?c - table_sum f s + table_sum f s'"
        by (simp add: Record_on Some recorder_record_def collector_sum_def sum_alist_update_int Let_def
            s_def s'_def split: option.split)
      moreover have "wrap64 (z + table_sum f s') = wrap64 (z + (table_sum f s + d e))" for z
        using step [of s] unfolding s'_def by (metis wrap64_add_right)
      ultimately show ?thesis by simp
    qed
    with snoc show ?thesis
      by (simp add: Record_on run_collector_snoc recorded_append)
        (metis wrap64_add_left)
  qed
qed

definition wrapped_totals :: "int \<Rightarrow> int \<Rightarrow> int \<Rightarrow> int \<Rightarrow> int \<Rightarrow> totals" where
  "wrapped_totals t0 t1 n e b = \<lparr>to_start = t0, to_end = t1, to_count = wrap64 n,
     to_errors = wrap64 e, to_bytes = wrap64 b\<rparr>"

lemma fold_add_stats:
  "fold add_stats ops (wrapped_totals t0 t1 n e b) = wrapped_totals t0 t1
     (n + ops_sum st_count ops) (e + ops_sum st_errors ops) (b + ops_sum st_bytes ops)"
  by (induction ops arbitrary: n e b)
    (auto simp: add_stats_def wrapped_totals_def ops_sum_def add.assoc)

lemma add_shard_totals:
  "add_shard s (wrapped_totals t0 t1 n e b) = wrapped_totals t0 t1
     (n + table_sum st_count s) (e + table_sum st_errors s) (b + table_sum st_bytes s)"
  unfolding add_shard_def
  by (induction s arbitrary: n e b) (auto simp: table_sum_def fold_add_stats add.assoc)

lemma fold_add_shard:
  "fold add_shard ss (wrapped_totals t0 t1 n e b) = wrapped_totals t0 t1
     (n + (\<Sum>s\<leftarrow>ss. table_sum st_count s)) (e + (\<Sum>s\<leftarrow>ss. table_sum st_errors s))
     (b + (\<Sum>s\<leftarrow>ss. table_sum st_bytes s))"
  by (induction ss arbitrary: n e b) (simp_all add: add_shard_totals add.assoc)

lemma all_shards_sum:
  assumes "\<forall>xs. mset (vis xs) = mset xs"
  shows "(\<Sum>s\<leftarrow>all_shards vis c. table_sum f s) = collector_sum f c"
proof -
  have "(\<Sum>r\<leftarrow>vis (co_shards c). table_sum f (snd r)) = (\<Sum>r\<leftarrow>co_shards c. table_sum f (snd r))"
    using assms by (metis (no_types, lifting) mset_map sum_mset_sum_list)
  then show ?thesis
    by (simp add: all_shards_def collector_sum_def split_def comp_def)
qed

lemma sum_list_indicator: "(\<Sum>e\<leftarrow>es. if P e then 1 else 0 :: int) = int (length (filter P es))"
  by (induction es) auto

lemma totals_of_run:
  assumes "\<forall>xs. mset (vis xs) = mset xs"
  shows "totals_of vis now (run_collector lib t0 cs) = wrapped_totals t0 now
    (int (length (recorded cs))) (int (length (filter (\<lambda>e. ev_err e \<noteq> None) (recorded cs))))
    (\<Sum>e\<leftarrow>recorded cs. ev_bytes e)"
proof -
  let ?c = "run_collector lib t0 cs"
  have c: "wrap64 (collector_sum st_count ?c) = wrap64 (\<Sum>e\<leftarrow>recorded cs. 1)"
    by (rule collector_sum_run) (simp_all add: fresh_stats_def record_stats_def Let_def split: option.split)
  have e: "wrap64 (collector_sum st_errors ?c) =
      wrap64 (\<Sum>e\<leftarrow>recorded cs. if ev_err e \<noteq> None then 1 else 0)"
    by (rule collector_sum_run) (simp_all add: fresh_stats_def record_stats_def Let_def split: option.split)
  have b: "wrap64 (collector_sum st_bytes ?c) = wrap64 (\<Sum>e\<leftarrow>recorded cs. ev_bytes e)"
    by (rule collector_sum_run) (simp_all add: fresh_stats_def record_stats_def Let_def split: option.split)
  have "totals_of vis now ?c = fold add_shard (all_shards vis ?c) (wrapped_totals t0 now 0 0 0)"
    using run_collector_keys [of lib t0 cs] by (simp add: totals_of_def wrapped_totals_def)
  also have "\<dots> = wrapped_totals t0 now (collector_sum st_count ?c) (collector_sum st_errors ?c)
      (collector_sum st_bytes ?c)"
    by (simp add: fold_add_shard all_shards_sum [OF assms])
  finally show ?thesis
    using c e b by (simp add: wrapped_totals_def sum_list_indicator sum_list_triv)
qed

subsection \<open>Histogram buckets\<close>

text \<open>The bucket of a value: the first bound that is not below it, or the last bucket.\<close>

definition in_bucket :: "int list \<Rightarrow> nat \<Rightarrow> int \<Rightarrow> bool" where
  "in_bucket bounds i v \<longleftrightarrow> (i = 0 \<or> bounds ! (i - 1) < v) \<and> (i + 1 = length bounds \<or> v \<le> bounds ! i)"

definition row_deltas :: "(int \<times> int) list \<Rightarrow> int \<Rightarrow> (int \<times> int) list" where
  "row_deltas rows prev = map2 (\<lambda>(v, c) p. (v, c - p)) rows (prev # map snd rows)"

lemma row_deltas_simps [simp]:
  "row_deltas [] p = []"
  "row_deltas ((v, c) # rows) p = (v, c - p) # row_deltas rows c"
  by (simp_all add: row_deltas_def)

lemma advance_in_bucket:
  assumes "sorted bounds" "bi < length bounds" "bi = 0 \<or> bounds ! (bi - 1) < v"
  shows "in_bucket bounds (advance bounds v bi) v \<and> bi \<le> advance bounds v bi \<and>
    advance bounds v bi < length bounds"
  using assms(2, 3)
proof (induction bounds v bi rule: advance.induct)
  case (1 bounds v bi)
  show ?case
  proof (cases "bi + 1 < length bounds \<and> v > bounds ! bi")
    case True
    with 1 have "in_bucket bounds (advance bounds v (bi + 1)) v \<and> bi + 1 \<le> advance bounds v (bi + 1) \<and>
        advance bounds v (bi + 1) < length bounds" by simp
    moreover from True have "advance bounds v bi = advance bounds v (bi + 1)"
      by (simp add: advance.simps [of bounds v bi])
    ultimately show ?thesis by simp
  next
    case False
    then have "advance bounds v bi = bi" by (simp only: advance.simps [of bounds v bi] if_False)
    moreover from False 1 have "bi + 1 = length bounds \<or> v \<le> bounds ! bi" by linarith
    ultimately show ?thesis using 1 by (simp add: in_bucket_def)
  qed
qed

lemma in_bucket_unique:
  assumes "sorted bounds" "in_bucket bounds i v" "in_bucket bounds j v"
    "i < length bounds" "j < length bounds"
  shows "i = j"
proof -
  have "\<not> a < b" if "in_bucket bounds a v" "in_bucket bounds b v" "b < length bounds" for a b
  proof
    assume "a < b"
    then have "bounds ! a \<le> bounds ! (b - 1)" using assms(1) that(3) by (intro sorted_nth_mono) auto
    with that \<open>a < b\<close> show False by (auto simp: in_bucket_def)
  qed
  from this [of i j] this [of j i] assms show ?thesis by auto
qed

lemma length_fill_buckets [simp]: "length (fill_buckets bounds rows prev bi cs) = length cs"
  by (induction bounds rows prev bi cs rule: fill_buckets.induct) (auto simp: Let_def)

lemma fill_buckets_count:
  assumes "sorted bounds" "sorted (map fst rows)" "bi < length bounds" "length cs = length bounds"
    "bi = 0 \<or> (\<forall>r \<in> set rows. bounds ! (bi - 1) < fst r)" "i < length bounds" "in_int64 (cs ! i)"
  shows "fill_buckets bounds rows prev bi cs ! i =
    wrap64 (cs ! i + (\<Sum>(v, d)\<leftarrow>row_deltas rows prev. if in_bucket bounds i v then d else 0))"
  using assms(2-)
proof (induction rows arbitrary: prev bi cs)
  case (Cons r rows)
  obtain v c where r [simp]: "r = (v, c)" by fastforce
  define b where "b = advance bounds v bi"
  have b: "in_bucket bounds b v" "bi \<le> b" "b < length bounds"
    using advance_in_bucket [OF assms(1), of bi v] Cons.prems unfolding b_def by auto
  have iff: "in_bucket bounds i v \<longleftrightarrow> i = b"
    using in_bucket_unique [OF assms(1) b(1) _ b(3), of i] b(1) Cons.prems by auto
  define cs' where "cs' = cs[b := wrap64 (cs ! b + wrap64 (c - prev))]"
  have "fill_buckets bounds rows c b cs' ! i =
    wrap64 (cs' ! i + (\<Sum>(v, d)\<leftarrow>row_deltas rows c. if in_bucket bounds i v then d else 0))"
  proof (rule Cons.IH)
    show "b = 0 \<or> (\<forall>r \<in> set rows. bounds ! (b - 1) < fst r)"
      using b(1) Cons.prems(1) by (force simp: in_bucket_def)
  qed (use Cons.prems b in \<open>auto simp: cs'_def nth_list_update\<close>)
  moreover have "cs' ! i = (if i = b then wrap64 (cs ! i + (c - prev)) else cs ! i)"
    using Cons.prems by (simp add: cs'_def nth_list_update)
  moreover have "fill_buckets bounds (r # rows) prev bi cs = fill_buckets bounds rows c b cs'"
    by (simp only: r fill_buckets.simps Let_def b_def cs'_def)
  ultimately show ?case by (simp add: iff add.assoc)
qed simp

lemma sum_row_deltas: "(\<Sum>(v, d)\<leftarrow>row_deltas rows p. d) = (if rows = [] then 0 else snd (last rows) - p)"
  by (induction rows arbitrary: p) auto

subsection \<open>Properties\<close>

text \<open>C10. A snapshot is exact: whatever recorders (the shared one or any worker's shard) the calls
  of a run went through, in whatever interleaving, and in whatever order the shards are merged,
  the statistics of a workload and operation count exactly its calls, and exist just when there is
  one. The one departure is the minimum: a run whose calls all took the histogram's maximum (an
  hour) or longer is reported with minimum latency 0, since the maximum doubles as the sentinel.\<close>

theorem snapshot_exact:
  assumes "\<forall>xs. mset (vis xs) = mset xs"
  shows "let mine = calls_of wl x cs in
    case stat_at (sn_workloads (collector_snapshot lib vis now (run_collector lib t0 cs))) wl x of
      None \<Rightarrow> mine = []
    | Some st \<Rightarrow> mine \<noteq> [] \<and>
        st_count st = wrap64 (int (length mine)) \<and>
        st_errors st = wrap64 (int (length (filter (\<lambda>e. ev_err e \<noteq> None) mine))) \<and>
        st_bytes st = wrap64 (\<Sum>e\<leftarrow>mine. ev_bytes e) \<and>
        st_lat_sum st = wrap64 (\<Sum>e\<leftarrow>mine. ev_latency e) \<and>
        st_lat_max st = Max (insert 0 (ev_latency ` set mine)) \<and>
        st_lat_min st = (if \<forall>e\<in>set mine. hdr_max \<le> ev_latency e then 0
                         else Min (ev_latency ` set mine)) \<and>
        (hdr_counts lib \<longrightarrow> wrap64 (hd_total lib (st_hist st)) = wrap64 (int (length mine)))"
proof -
  note s = snapshot_counts [OF assms, of lib now t0 cs wl x, OF refl]
  show ?thesis
  proof (cases "stat_at (sn_workloads (collector_snapshot lib vis now (run_collector lib t0 cs))) wl x")
    case None
    with s show ?thesis by (simp add: of_op_recorded Let_def)
  next
    case (Some st)
    with s obtain st' where "calls_of wl x cs \<noteq> []" "st = normalise_min st'"
      "counts lib st' (mset (calls_of wl x cs))"
      by (auto simp: of_op_recorded)
    moreover from this have "st_lat_min st =
        (if \<forall>e\<in>set (calls_of wl x cs). hdr_max \<le> ev_latency e then 0
         else Min (ev_latency ` set (calls_of wl x cs)))"
      using lat_min_normalised [of "mset (calls_of wl x cs)"]
      by (simp only: normalise_min_simps counts_def set_mset_mset mset_zero_iff not_False_eq_True)
    ultimately show ?thesis
      by (simp add: Some counts_def failed_def lat_max_def Let_def sum_mset_sum_list
          flip: mset_filter mset_map)
  qed
qed

text \<open>C19. The error groups of a snapshot: per classification code, the group counts exactly the
  failed calls with that code, its sample is one of their errors, and there is no group without a
  failed call.\<close>

theorem snapshot_errors:
  assumes "\<forall>xs. mset (vis xs) = mset xs"
    and "stat_at (sn_workloads (collector_snapshot lib vis now (run_collector lib t0 cs))) wl x = Some st"
  shows "let bad = filter (\<lambda>e. ev_err e \<noteq> None \<and> classify (ev_err e) = code) (calls_of wl x cs) in
    case map_of (st_err_by_code st) code of
      None \<Rightarrow> bad = []
    | Some a \<Rightarrow> bad \<noteq> [] \<and> ea_count a = wrap64 (int (length bad)) \<and>
        Some (ea_sample a) \<in> ev_err ` set bad"
proof -
  obtain st' where "st = normalise_min st'" "counts lib st' (mset (calls_of wl x cs))"
    using snapshot_counts [OF assms] by (auto simp: of_op_recorded)
  then have "agg_counts (st_err_by_code st) (mset (calls_of wl x cs))"
    by (simp add: counts_def)
  then show ?thesis
    unfolding agg_counts_def with_code_def Let_def
    by (auto dest!: spec [of _ code] simp flip: mset_filter split: option.splits)
qed

text \<open>C33. The live totals are those of the run: over all workloads and operations, the number of
  calls, of failed calls, and the bytes, each modulo the 64-bit counter.\<close>

theorem totals_exact:
  assumes "\<forall>xs. mset (vis xs) = mset xs"
  shows "totals_of vis now (run_collector lib t0 cs) =
    \<lparr>to_start = t0, to_end = now, to_count = wrap64 (int (length (recorded cs))),
     to_errors = wrap64 (int (length (filter (\<lambda>e. ev_err e \<noteq> None) (recorded cs)))),
     to_bytes = wrap64 (\<Sum>e\<leftarrow>recorded cs. ev_bytes e)\<rparr>"
  using totals_of_run [OF assms] by (simp add: wrapped_totals_def)


subsection \<open>Witnesses\<close>

text \<open>A histogram library that keeps every value.\<close>

definition exact_hdr :: "int list hdrlib" where
  "exact_hdr = \<lparr>hd_new = [], hd_record = (\<lambda>v h. insort v h), hd_merge = (\<lambda>a b. sort (a @ b)),
     hd_total = (\<lambda>h. int (length h)),
     hd_quantile = (\<lambda>h q. if h = [] then 0 else h ! (nat (\<lceil>q * real (length h) / 100\<rceil>) - 1)),
     hd_stddev = (\<lambda>h. 0), hd_cdf = (\<lambda>h. zip h (map int [1..<length h + 1]))\<rparr>"

lemma hdr_counts_exact: "hdr_counts exact_hdr"
  by (simp add: hdr_counts_def exact_hdr_def add.commute)

definition two_workers :: "collector_call list" where
  "two_workers =
    [Shard_for 1,
     Record_on (Some 1) \<lparr>ev_workload = ''a'', ev_op = OpGet, ev_latency = 5, ev_bytes = 10, ev_err = None\<rparr>,
     Record_on None \<lparr>ev_workload = ''a'', ev_op = OpGet, ev_latency = hdr_max, ev_bytes = 0,
       ev_err = Some (Wrap_error ''get'' (Api_error ''SlowDown'' ''busy''))\<rparr>,
     Shard_for 2,
     Record_on (Some 2) \<lparr>ev_workload = ''b'', ev_op = OpPut, ev_latency = 2 * hdr_max, ev_bytes = 7,
       ev_err = None\<rparr>]"

text \<open>Two workers and the shared recorder, merged in reverse order: the only \<open>put\<close> took two hours
  and is reported with minimum latency 0.\<close>

theorem snapshot_exact_witness:
  "case stat_at (sn_workloads (collector_snapshot exact_hdr rev 9 (run_collector exact_hdr 0 two_workers))) ''b'' OpPut of
     None \<Rightarrow> False | Some st \<Rightarrow> st_count st = 1 \<and> st_lat_max st = 2 * hdr_max \<and> st_lat_min st = 0"
  using snapshot_exact [of rev "''b''" OpPut two_workers exact_hdr 9 0]
  by (simp add: two_workers_def calls_of_def hdr_max_def Let_def split: option.splits)

lemma two_workers_get:
  "\<exists>st. stat_at (sn_workloads (collector_snapshot exact_hdr rev 9 (run_collector exact_hdr 0 two_workers)))
    ''a'' OpGet = Some st"
  using snapshot_counts [of rev exact_hdr 9 0 two_workers "''a''" OpGet, OF _ refl]
  by (auto simp: of_op_recorded two_workers_def calls_of_def split: option.splits)

theorem snapshot_errors_witness:
  "\<exists>st a. stat_at (sn_workloads (collector_snapshot exact_hdr rev 9 (run_collector exact_hdr 0 two_workers)))
      ''a'' OpGet = Some st \<and> map_of (st_err_by_code st) ''SlowDown'' = Some a \<and> ea_count a = 1 \<and>
      map_of (st_err_by_code st) ''unknown'' = None"
proof -
  from two_workers_get obtain st where
    st: "stat_at (sn_workloads (collector_snapshot exact_hdr rev 9 (run_collector exact_hdr 0 two_workers)))
      ''a'' OpGet = Some st" ..
  have "\<forall>xs :: (int \<times> int list shard) list. mset (rev xs) = mset xs" by simp
  note e = snapshot_errors [OF this st]
  from e [of "''SlowDown''"] e [of "''unknown''"] st show ?thesis
    by (simp add: two_workers_def calls_of_def classify_def Let_def split: option.splits)
qed

theorem totals_exact_witness:
  "totals_of rev 9 (run_collector exact_hdr 0 two_workers) =
     \<lparr>to_start = 0, to_end = 9, to_count = 3, to_errors = 1, to_bytes = 17\<rparr>"
  using totals_exact [of rev 9 exact_hdr 0 two_workers] by (simp add: two_workers_def)


end
