(* ===== verification/Bodygen.thy ===== *)
theory Bodygen
  imports S3_Client
begin

section \<open>Bodies and buffers (\<open>internal/bodygen\<close>, \<open>internal/drain\<close>, \<open>internal/bufpool\<close>)\<close>

text \<open>
  The body generator streams a shared entropy block, cycling through it. The block, filled once
  from \<open>crypto/rand\<close>, is a parameter of the definitions that read it. A \<open>sync.Pool\<close> of readers
  hands out cleared structs, so it does not appear; the buffer pools of \<open>bufpool\<close> do, because
  what they hold decides what \<open>Get\<close> may slice.
\<close>

subsection \<open>The reader\<close>

definition block_size :: int where "block_size = 1048576"

definition fill_entropy :: "bytes \<Rightarrow> bytes" where
  "fill_entropy available =
     take (nat block_size) available @ replicate (nat block_size - length available) 0"

record reader =
  rd_size :: int
  rd_offset :: int

definition new_reader :: "int \<Rightarrow> reader" where
  "new_reader n = \<lparr>rd_size = n, rd_offset = 0\<rparr>"

definition release :: "reader \<Rightarrow> reader" where
  "release r = r\<lparr>rd_size := 0, rd_offset := 0\<rparr>"

definition reader_len :: "reader \<Rightarrow> int" where
  "reader_len r = wrap64 (rd_size r - rd_offset r)"

text \<open>\<open>Read\<close> into a buffer of \<open>plen\<close> bytes: the bytes written to the front of the buffer. Slicing the
  entropy block beyond its end panics.\<close>

definition body_read :: "bytes \<Rightarrow> reader \<Rightarrow> int \<Rightarrow> bytes res \<times> reader" where
  "body_read entropy r plen =
     (if rd_offset r \<ge> rd_size r then (Err Err_eof, r)
      else
        let remain = rd_size r - rd_offset r;
            n = (if plen > remain then remain else plen);
            start = rd_offset r mod block_size;
            avail = block_size - start;
            first = (if n > avail then avail else n)
        in if first < n \<and> n - first > int (length entropy) then (Panic, r)
           else (Ok (take (nat first) (drop (nat start) entropy) @
                     (if first < n then take (nat (n - first)) entropy else [])),
                 r\<lparr>rd_offset := rd_offset r + n\<rparr>))"

text \<open>The \<open>whence\<close> values 0, 1 and 2 are \<open>io.SeekStart\<close>, \<open>io.SeekCurrent\<close> and \<open>io.SeekEnd\<close>.\<close>

definition body_seek :: "reader \<Rightarrow> int \<Rightarrow> int \<Rightarrow> int res \<times> reader" where
  "body_seek r off whence =
     (let target = (if whence = 0 then Some off
                    else if whence = 1 then Some (wrap64 (rd_offset r + off))
                    else if whence = 2 then Some (wrap64 (rd_size r + off))
                    else None)
      in case target of
           None \<Rightarrow> (Err (Plain_error ''bodygen: invalid whence''), r)
         | Some a \<Rightarrow>
             if a < 0 \<or> a > rd_size r then (Err (Plain_error ''bodygen: seek out of range''), r)
             else (Ok a, r\<lparr>rd_offset := a\<rparr>))"

text \<open>A caller that reads with buffers of the given sizes, in turn, until the end of the body: what
  it has collected, or \<open>None\<close> if the buffers run out before the end or a read panics.\<close>

fun read_with :: "bytes \<Rightarrow> int list \<Rightarrow> reader \<Rightarrow> bytes option" where
  "read_with entropy [] r = None"
| "read_with entropy (p # ps) r =
     (case body_read entropy r p of
        (Err e, r') \<Rightarrow> Some []
      | (Panic, r') \<Rightarrow> None
      | (Ok b, r') \<Rightarrow> map_option (\<lambda>rest. b @ rest) (read_with entropy ps r'))"

subsection \<open>What a body contains\<close>

definition body :: "bytes \<Rightarrow> int \<Rightarrow> bytes" where
  "body entropy n = map (\<lambda>i. entropy ! (i mod nat block_size)) [0..<nat n]"

definition reader_ok :: "reader \<Rightarrow> bool" where
  "reader_ok r \<longleftrightarrow> 0 \<le> rd_offset r \<and> rd_offset r \<le> rd_size r"

lemma length_body [simp]: "length (body entropy n) = nat n"
  by (simp add: body_def)

lemma block_size_pos [simp]: "0 < block_size" "0 \<le> block_size" "0 < nat block_size"
  by (simp_all add: block_size_def)

lemma length_fill_entropy [simp]: "length (fill_entropy b) = nat block_size"
  by (simp add: fill_entropy_def)

lemma cyclic_chunk:
  assumes "length e = B" "s < B" "k \<le> 2 * B - s"
  shows "take (if k > B - s then B - s else k) (drop s e) @
      (if B - s < k then take (k - (B - s)) e else []) = map (\<lambda>i. e ! ((s + i) mod B)) [0..<k]"
    (is "?chunk = _")
proof (rule nth_equalityI)
  show len: "length ?chunk = length (map (\<lambda>i. e ! ((s + i) mod B)) [0..<k])"
    using assms by auto
  fix i assume "i < length ?chunk"
  then have i: "i < k" using len by simp
  have "(s + i) mod B = (if s + i < B then s + i else s + i - B)"
    using i assms by (auto simp: not_less mod_if)
  then show "?chunk ! i = map (\<lambda>i. e ! ((s + i) mod B)) [0..<k] ! i"
    using i assms by (auto simp: nth_append intro!: arg_cong [of _ _ "\<lambda>j. e ! j"])
qed

lemma body_chunk:
  assumes "nat off + k \<le> nat sz"
  shows "take k (drop (nat off) (body entropy sz)) =
    map (\<lambda>i. entropy ! ((nat off mod nat block_size + i) mod nat block_size)) [0..<k]"
  by (rule nth_equalityI) (use assms in \<open>auto simp: body_def mod_add_left_eq\<close>)

text \<open>A read of at most the rest of the current block and one more block returns the next bytes.\<close>

lemma body_read_Ok:
  assumes "reader_ok r" "rd_offset r < rd_size r" "0 \<le> p" "length entropy = nat block_size"
    "p \<le> 2 * block_size - rd_offset r mod block_size"
  defines "n \<equiv> min p (rd_size r - rd_offset r)"
  shows "body_read entropy r p =
    (Ok (take (nat n) (drop (nat (rd_offset r)) (body entropy (rd_size r)))), r\<lparr>rd_offset := rd_offset r + n\<rparr>)"
proof -
  define s where "s = rd_offset r mod block_size"
  have s: "0 \<le> s" "s < block_size" "nat s = nat (rd_offset r) mod nat block_size"
    using assms(1) by (simp_all add: s_def nat_mod_distrib reader_ok_def)
  have n: "0 \<le> n" "n \<le> 2 * block_size - s" "rd_offset r + n \<le> rd_size r"
    using assms by (auto simp: n_def s_def)
  have conv: "nat (block_size - s) = nat block_size - nat s"
    "n > block_size - s \<longleftrightarrow> nat n > nat block_size - nat s"
    "nat (n - (block_size - s)) = nat n - (nat block_size - nat s)"
    using s n by linarith+
  have "nat (rd_offset r) + nat n \<le> nat (rd_size r)"
    using n assms(1) by (simp add: reader_ok_def flip: nat_add_distrib)
  note chunk = body_chunk [OF this, of entropy]
  have "nat n \<le> 2 * nat block_size - nat s" using n s by linarith
  from cyclic_chunk [OF assms(4) _ this] have cyc:
    "take (if nat n > nat block_size - nat s then nat block_size - nat s else nat n) (drop (nat s) entropy) @
      (if nat block_size - nat s < nat n then take (nat n - (nat block_size - nat s)) entropy else []) =
     take (nat n) (drop (nat (rd_offset r)) (body entropy (rd_size r)))"
    unfolding chunk using s by simp
  have "\<not> n - (block_size - s) > int (length entropy)"
    using assms(4) n s by simp
  moreover have nif: "(if p > rd_size r - rd_offset r then rd_size r - rd_offset r else p) = n"
    by (simp add: n_def)
  have "nat (if n > block_size - s then block_size - s else n) =
      (if nat n > nat block_size - nat s then nat block_size - nat s else nat n)"
    by (simp add: conv)
  ultimately show ?thesis
    using assms(2) cyc unfolding body_read_def Let_def nif s_def [symmetric]
    by (simp add: conv(2,3) split: if_splits)
qed

lemma body_read_panic:
  assumes "reader_ok r" "0 \<le> p" "length entropy = nat block_size"
    "2 * block_size - rd_offset r mod block_size < p"
    "2 * block_size - rd_offset r mod block_size < rd_size r - rd_offset r"
  shows "body_read entropy r p = (Panic, r)"
proof -
  define s where "s = rd_offset r mod block_size"
  define n where "n = (if p > rd_size r - rd_offset r then rd_size r - rd_offset r else p)"
  have s: "0 \<le> s" "s < block_size" by (simp_all add: s_def)
  have n: "2 * block_size - s < n" using assms(4,5) by (simp add: n_def s_def)
  have "\<not> rd_offset r \<ge> rd_size r" using assms(5) s by (simp flip: s_def)
  then show ?thesis
    using n s assms(3) unfolding body_read_def Let_def n_def [symmetric] s_def [symmetric] by simp
qed

lemma read_with_body:
  assumes "reader_ok r" "length entropy = nat block_size" "\<forall>p \<in> set ps. 0 < p \<and> p \<le> block_size"
    "nat (rd_size r - rd_offset r) < length ps"
  shows "read_with entropy ps r = Some (drop (nat (rd_offset r)) (body entropy (rd_size r)))"
  using assms
proof (induction ps arbitrary: r)
  case (Cons p ps)
  show ?case
  proof (cases "rd_offset r < rd_size r")
    case False
    with Cons.prems show ?thesis by (simp add: body_read_def reader_ok_def)
  next
    case True
    define n where "n = min p (rd_size r - rd_offset r)"
    define r' where "r' = r\<lparr>rd_offset := rd_offset r + n\<rparr>"
    have "rd_offset r mod block_size < block_size" by simp
    moreover have "0 < p" "p \<le> block_size" using Cons.prems(3) by simp_all
    ultimately have "p \<le> 2 * block_size - rd_offset r mod block_size" "0 \<le> p" by linarith+
    from body_read_Ok [OF Cons.prems(1) True this(2) Cons.prems(2) this(1)]
    have read: "body_read entropy r p =
        (Ok (take (nat n) (drop (nat (rd_offset r)) (body entropy (rd_size r)))), r')"
      by (simp add: n_def r'_def)
    have n: "0 < n" using True Cons.prems(3) by (simp add: n_def)
    have ok: "reader_ok r'" using Cons.prems(1) n by (simp add: reader_ok_def r'_def n_def)
    have "nat (rd_size r' - rd_offset r') < length ps"
      using Cons.prems(4) n True by (simp add: r'_def)
    from Cons.IH [OF ok Cons.prems(2) _ this] Cons.prems(3)
    have "read_with entropy ps r' = Some (drop (nat (rd_offset r')) (body entropy (rd_size r)))"
      by (simp add: r'_def)
    moreover have "nat (rd_offset r') = nat n + nat (rd_offset r)"
      using Cons.prems(1) n by (simp add: r'_def reader_ok_def nat_add_distrib)
    ultimately show ?thesis
      using read by (simp flip: drop_drop)
  qed
qed simp

subsection \<open>Draining and pooled buffers\<close>

text \<open>\<open>Drain\<close> reads a response body to its end and reports how many bytes it held.\<close>

definition drain :: "bytes \<Rightarrow> int" where
  "drain b = int (length b)"

definition pool_sizes :: "int list" where
  "pool_sizes = [65536, 1048576, 16777216, 268435456]"

text \<open>A pooled buffer is known by its capacity. Each \<open>sync.Pool\<close> is the list of the buffers put back;
  \<open>pick\<close> is the runtime's choice of one of them, or of a new one when it is not an index.\<close>

type_synonym pools = "int list list"

record buffer =
  bf_len :: int
  bf_cap :: int

definition new_pools :: pools where
  "new_pools = map (\<lambda>_. []) pool_sizes"

fun find_bucket :: "(int \<Rightarrow> bool) \<Rightarrow> int list \<Rightarrow> nat option" where
  "find_bucket P [] = None"
| "find_bucket P (sz # szs) = (if P sz then Some 0 else map_option Suc (find_bucket P szs))"

definition bucket_of :: "int \<Rightarrow> nat option" where
  "bucket_of n = find_bucket (\<lambda>sz. n \<le> sz) pool_sizes"

definition pool_get :: "nat \<Rightarrow> int \<Rightarrow> pools \<Rightarrow> buffer res \<times> pools" where
  "pool_get pick n ps =
     (case bucket_of n of
        None \<Rightarrow> (Ok \<lparr>bf_len = n, bf_cap = n\<rparr>, ps)
      | Some i \<Rightarrow>
          (let (cap, ps') = (if pick < length (ps ! i)
                 then (ps ! i ! pick, ps[i := take pick (ps ! i) @ drop (Suc pick) (ps ! i)])
                 else (pool_sizes ! i, ps))
           in if 0 \<le> n \<and> n \<le> cap then (Ok \<lparr>bf_len = n, bf_cap = cap\<rparr>, ps') else (Panic, ps')))"

definition pool_put :: "buffer \<Rightarrow> pools \<Rightarrow> pools" where
  "pool_put b ps =
     (case find_bucket (\<lambda>sz. bf_cap b = sz) pool_sizes of
        None \<Rightarrow> ps
      | Some i \<Rightarrow> ps[i := bf_cap b # ps ! i])"

text \<open>Every pool holds buffers of its own size only.\<close>

definition pools_ok :: "pools \<Rightarrow> bool" where
  "pools_ok ps \<longleftrightarrow> length ps = length pool_sizes \<and>
     (\<forall>i < length pool_sizes. \<forall>c \<in> set (ps ! i). c = pool_sizes ! i)"

lemma find_bucket_Some: "find_bucket P szs = Some i \<Longrightarrow> i < length szs \<and> P (szs ! i)"
  by (induction szs arbitrary: i) (auto split: if_splits)

lemma find_bucket_None: "find_bucket P szs = None \<longleftrightarrow> (\<forall>sz \<in> set szs. \<not> P sz)"
  by (induction szs) auto

lemma find_bucket_first: "find_bucket P szs = Some i \<Longrightarrow> j < i \<Longrightarrow> \<not> P (szs ! j)"
  by (induction szs arbitrary: i j) (auto simp: nth_Cons' split: if_splits)

lemma pools_ok_new [simp]: "pools_ok new_pools"
  by (simp add: pools_ok_def new_pools_def)

lemma pools_ok_put: "pools_ok ps \<Longrightarrow> pools_ok (pool_put b ps)"
  by (auto simp: pools_ok_def pool_put_def nth_list_update dest!: find_bucket_Some
      split: option.splits if_splits)

lemma pools_ok_get: "pools_ok ps \<Longrightarrow> pools_ok (snd (pool_get pick n ps))"
  by (auto simp: pools_ok_def pool_get_def nth_list_update Let_def bucket_of_def
      dest!: find_bucket_Some split: option.splits if_splits)
    (meson in_set_takeD in_set_dropD)+

subsection \<open>Properties\<close>

text \<open>C39. A body is delivered in full: a consumer that reads a fresh reader with any sequence of
  non-empty buffers of at most one block, for long enough, collects exactly \<open>size\<close> bytes, byte
  \<open>i\<close> being byte \<open>i mod 2 ^ 20\<close> of the entropy block, whatever the buffer sizes.\<close>

theorem body_delivered:
  assumes "0 \<le> n" and "length entropy = nat block_size"
    and "\<forall>p \<in> set ps. 0 < p \<and> p \<le> block_size" and "nat n < length ps"
  shows "read_with entropy ps (new_reader n) =
    Some (map (\<lambda>i. entropy ! (i mod nat block_size)) [0..<nat n])"
  using read_with_body [of "new_reader n" entropy ps] assms
  by (simp add: reader_ok_def new_reader_def body_def)

theorem body_delivered_witness:
  "read_with (fill_entropy [7, 8, 9]) [2, 2, 2] (new_reader 2) =
     Some (map (\<lambda>i. fill_entropy [7, 8, 9] ! (i mod nat block_size)) [0..<2])"
  using body_delivered [of 2 "fill_entropy [7, 8, 9]" "[2, 2, 2]"]
  by (simp add: block_size_def)

text \<open>\<open>Read\<close> panics exactly when one call asks for, and the body still has, more than the rest
  of the current block and one more block: the loop wraps the block once only. Buffers of up to
  one block are always safe; a 16 MiB buffer, the default part size, is not.\<close>

theorem body_read_panics_iff:
  assumes "reader_ok r" and "0 \<le> p" and "length entropy = nat block_size"
  shows "(fst (body_read entropy r p) = Panic \<longleftrightarrow>
      2 * block_size - rd_offset r mod block_size < min p (rd_size r - rd_offset r)) \<and>
    (p \<le> block_size \<longrightarrow> fst (body_read entropy r p) \<noteq> Panic) \<and>
    (16777216 \<le> rd_size r \<longrightarrow> fst (body_read entropy (r\<lparr>rd_offset := 0\<rparr>) 16777216) = Panic)"
proof -
  have m: "0 \<le> rd_offset r mod block_size" "rd_offset r mod block_size < block_size" by simp_all
  have iff: "fst (body_read entropy r p) = Panic \<longleftrightarrow>
      2 * block_size - rd_offset r mod block_size < min p (rd_size r - rd_offset r)"
  proof (cases "2 * block_size - rd_offset r mod block_size < min p (rd_size r - rd_offset r)")
    case True
    then show ?thesis using body_read_panic [OF assms] by simp
  next
    case False
    define q where "q = min p (rd_size r - rd_offset r)"
    show ?thesis
    proof (cases "rd_offset r < rd_size r")
      case True
      have "body_read entropy r p = body_read entropy r q"
        unfolding body_read_def Let_def q_def min_def using True by auto
      also have "\<dots> = (Ok (take (nat q) (drop (nat (rd_offset r)) (body entropy (rd_size r)))),
          r\<lparr>rd_offset := rd_offset r + q\<rparr>)"
        using body_read_Ok [OF assms(1) True _ assms(3), of q] False assms(2) True by (simp add: q_def)
      finally show ?thesis using False by simp
    next
      case eof: False
      then have "\<not> 2 * block_size - rd_offset r mod block_size < rd_size r - rd_offset r"
        using m by linarith
      with eof show ?thesis by (simp add: body_read_def)
    qed
  qed
  moreover have "p \<le> block_size \<longrightarrow>
      \<not> 2 * block_size - rd_offset r mod block_size < min p (rd_size r - rd_offset r)"
    using m by linarith
  moreover have "fst (body_read entropy (r\<lparr>rd_offset := 0\<rparr>) 16777216) = Panic" if "16777216 \<le> rd_size r"
    using body_read_panic [of "r\<lparr>rd_offset := 0\<rparr>" 16777216 entropy] assms(3) that
    by (simp add: reader_ok_def block_size_def)
  ultimately show ?thesis by blast
qed

theorem body_read_panics_iff_witness:
  "fst (body_read (fill_entropy []) (new_reader 16777216) 16777216) = Panic"
proof -
  have "reader_ok (new_reader 16777216)" "(new_reader 16777216)\<lparr>rd_offset := 0\<rparr> = new_reader 16777216"
    "rd_size (new_reader 16777216) = 16777216"
    by (simp_all add: reader_ok_def new_reader_def)
  then show ?thesis
    using body_read_panics_iff [of "new_reader 16777216" 16777216 "fill_entropy []"] by simp
qed

text \<open>\<open>Seek\<close> moves to the requested position or not at all: a reader stays within its body, a
  successful call returns the new offset, which is the one asked for, and a failed call changes
  nothing.\<close>

theorem body_seek_correct:
  assumes "reader_ok r" and "in_int64 off" and "in_int64 (rd_size r)"
  shows "reader_ok (snd (body_seek r off whence)) \<and>
    (case fst (body_seek r off whence) of
       Ok a \<Rightarrow> rd_offset (snd (body_seek r off whence)) = a \<and> rd_size (snd (body_seek r off whence)) = rd_size r \<and>
         a = (if whence = 0 then off else if whence = 1 then rd_offset r + off else rd_size r + off)
     | Err e \<Rightarrow> snd (body_seek r off whence) = r \<and>
         (whence \<notin> {0, 1, 2} \<or>
          \<not> (let a = (if whence = 0 then off else if whence = 1 then rd_offset r + off else rd_size r + off)
             in 0 \<le> a \<and> a \<le> rd_size r))
     | Panic \<Rightarrow> False)"
proof -
  have over: "wrap64 (b + off) = b + off \<or> wrap64 (b + off) < 0 \<and> rd_size r < b + off"
    if "0 \<le> b" "b \<le> rd_size r" for b
  proof (cases "in_int64 (b + off)")
    case False
    then have "2 ^ 63 \<le> b + off" "b + off < 2 ^ 64" using that assms by (auto simp: in_int64_iff)
    then have "wrap64 (b + off) = b + off - 2 ^ 64" by (intro wrap64_over) simp_all
    with \<open>b + off < 2 ^ 64\<close> \<open>2 ^ 63 \<le> b + off\<close> show ?thesis using assms(3) by (auto simp: in_int64_iff)
  qed simp
  show ?thesis
    using assms(1) over [of "rd_offset r"] over [of "rd_size r"]
    by (auto simp: body_seek_def reader_ok_def Let_def)
qed

theorem body_seek_correct_witness:
  "body_seek (new_reader 10) (- 3) 2 = (Ok 7, \<lparr>rd_size = 10, rd_offset = 7\<rparr>)"
  using body_seek_correct [of "new_reader 10" "- 3" 2]
  by (simp add: body_seek_def reader_ok_def new_reader_def in_int64_iff)

text \<open>C40. \<open>Get\<close> returns a buffer of exactly the requested length on the smallest bucket that holds
  it, new or reused, and beyond the largest bucket a buffer of its own; with a negative length it
  panics. The pools keep holding only buffers of their own size, whatever is put back.\<close>

theorem pool_get_correct:
  assumes "pools_ok ps"
  shows "pools_ok (snd (pool_get pick n ps)) \<and> pools_ok (pool_put b ps) \<and>
    (if n < 0 then fst (pool_get pick n ps) = Panic
     else \<exists>c. fst (pool_get pick n ps) = Ok \<lparr>bf_len = n, bf_cap = c\<rparr> \<and> n \<le> c \<and>
       (if \<exists>sz \<in> set pool_sizes. n \<le> sz then c \<in> set pool_sizes \<and> (\<forall>sz \<in> set pool_sizes. n \<le> sz \<longrightarrow> c \<le> sz)
        else c = n))"
proof (cases "bucket_of n")
  case None
  then have "\<forall>sz \<in> set pool_sizes. \<not> n \<le> sz" by (simp add: bucket_of_def find_bucket_None)
  moreover from this have "\<not> n < 0" by (auto simp: pool_sizes_def)
  ultimately show ?thesis
    using None assms by (auto simp: pool_get_def pools_ok_put)
next
  case (Some i)
  then have i: "i < length pool_sizes" "n \<le> pool_sizes ! i"
    by (auto simp: bucket_of_def dest: find_bucket_Some)
  define cap where "cap = (if pick < length (ps ! i) then ps ! i ! pick else pool_sizes ! i)"
  have cap: "cap = pool_sizes ! i"
    using assms i by (auto simp: cap_def pools_ok_def)
  have get: "fst (pool_get pick n ps) = (if 0 \<le> n \<and> n \<le> cap then Ok \<lparr>bf_len = n, bf_cap = cap\<rparr> else Panic)"
    using Some by (simp add: pool_get_def cap_def Let_def)
  have least: "pool_sizes ! i \<le> sz" if sz: "sz \<in> set pool_sizes" "n \<le> sz" for sz
  proof -
    obtain j where j: "j < length pool_sizes" "sz = pool_sizes ! j" 
      using sz(1) unfolding in_set_conv_nth by blast
    have first: "\<not> n \<le> pool_sizes ! k" if "k < i" for k
      using find_bucket_first [OF Some [unfolded bucket_of_def] that] .
    have "i \<le> j"
    proof (rule ccontr)
      assume "\<not> i \<le> j"
      then have "\<not> n \<le> sz" using first [of j] unfolding j(2) by simp
      then show False using sz(2) by simp
    qed
    moreover have "sorted pool_sizes" by (simp add: pool_sizes_def)
    ultimately show ?thesis unfolding j(2) using j(1) by (intro sorted_nth_mono)
  qed
  have mem: "pool_sizes ! i \<in> set pool_sizes" using i by simp
  show ?thesis
    unfolding get cap using i(2) mem least pools_ok_get [OF assms] pools_ok_put [OF assms] by auto
qed

theorem pool_get_correct_witness:
  "fst (pool_get 0 70000 (pool_put \<lparr>bf_len = 5, bf_cap = 1048576\<rparr> new_pools)) =
     Ok \<lparr>bf_len = 70000, bf_cap = 1048576\<rparr>"
proof -
  let ?ps = "pool_put \<lparr>bf_len = 5, bf_cap = 1048576\<rparr> new_pools"
  note * = pool_get_correct [OF pools_ok_put [OF pools_ok_new], of 0 70000
      "\<lparr>bf_len = 5, bf_cap = 1048576\<rparr>", THEN conjunct2, THEN conjunct2]
  then obtain c where "fst (pool_get 0 70000 ?ps) = Ok \<lparr>bf_len = 70000, bf_cap = c\<rparr>"
    "c \<in> set pool_sizes" "70000 \<le> c" "c \<le> 1048576"
    by (auto simp: pool_sizes_def simp del: One_nat_def)
  moreover from this(2-4) have "c = 1048576" by (auto simp: pool_sizes_def)
  ultimately show ?thesis by simp
qed

end
