(* ===== verification/Sizedist.thy ===== *)
theory Sizedist
  imports Go_Prelude "HOL-Library.Stream"
begin

section \<open>Random draws and size distributions (\<open>internal/sizedist/sizedist.go\<close>)\<close>

text \<open>
  A \<open>*rand.Rand\<close> is a stream of raw numbers; each method of the standard library takes the next
  one and maps it into the range its documentation gives. Every statement is for all streams, so it
  holds for whatever the generator produces; distributions are not modelled. \<open>gauss\<close> is the normal
  deviate of a raw number and \<open>source\<close> is \<open>rand.New(rand.NewSource(seed))\<close>. \<open>float64\<close> is \<open>real\<close>.
\<close>

type_synonym rng = "int stream"

definition int63n :: "int \<Rightarrow> rng \<Rightarrow> int res \<times> rng" where
  "int63n n r = (if n \<le> 0 then (Panic, r) else (Ok (shd r mod n), stl r))"

definition float64 :: "rng \<Rightarrow> real \<times> rng" where
  "float64 r = (real_of_int (shd r mod 2 ^ 53) / 2 ^ 53, stl r)"

lemma float64_range: "0 \<le> fst (float64 r) \<and> fst (float64 r) < 1"
proof -
  have "0 \<le> shd r mod 2 ^ 53" "shd r mod 2 ^ 53 < 2 ^ 53" by simp_all
  then have "real_of_int (shd r mod 2 ^ 53) < real_of_int (2 ^ 53)" by (simp only: of_int_less_iff)
  then show ?thesis by (simp add: float64_def)
qed

lemma int63n_range:
  "int63n n r = (Ok k, r') \<Longrightarrow> 0 \<le> k \<and> k < n"
  by (auto simp: int63n_def split: if_splits)

subsection \<open>Uniform\<close>

record uniform = un_size :: int

definition uniform_sample :: "uniform \<Rightarrow> int" where
  "uniform_sample u = un_size u"

record uniform_range =
  ur_min :: int
  ur_max :: int
  ur_rng :: rng

definition uniform_range_sample :: "uniform_range \<Rightarrow> int res \<times> uniform_range" where
  "uniform_range_sample u =
     (if ur_max u \<le> ur_min u then (Ok (ur_min u), u)
      else case int63n (wrap64 (wrap64 (ur_max u - ur_min u) + 1)) (ur_rng u) of
             (Ok k, r) \<Rightarrow> (Ok (wrap64 (ur_min u + k)), u\<lparr>ur_rng := r\<rparr>)
           | (Err e, r) \<Rightarrow> (Err e, u\<lparr>ur_rng := r\<rparr>)
           | (Panic, r) \<Rightarrow> (Panic, u\<lparr>ur_rng := r\<rparr>))"

subsection \<open>Lognormal\<close>

record lognormal =
  lg_mu :: real
  lg_sigma :: real
  lg_min :: int
  lg_max :: int
  lg_rng :: rng

definition new_lognormal :: "real \<Rightarrow> real \<Rightarrow> int \<Rightarrow> int \<Rightarrow> rng \<Rightarrow> lognormal res" where
  "new_lognormal mean sigma mn mx r =
     (if mean \<le> 0 then Err (Plain_error ''sizedist: lognormal mean must be >0'')
      else if sigma \<le> 0 then Err (Plain_error ''sizedist: lognormal sigma must be >0'')
      else if mn < 0 \<or> mx < mn then Err (Plain_error ''sizedist: invalid lognormal bounds'')
      else Ok \<lparr>lg_mu = ln mean - (sigma * sigma) / 2, lg_sigma = sigma, lg_min = mn, lg_max = mx,
               lg_rng = r\<rparr>)"

text \<open>\<open>math.Round\<close> rounds halves away from zero; out of range, \<open>int64\<close> of a float is the smallest
  value on amd64.\<close>

definition math_round :: "real \<Rightarrow> int" where
  "math_round x = (if 0 \<le> x then \<lfloor>x + 1 / 2\<rfloor> else - \<lfloor>1 / 2 - x\<rfloor>)"

definition int64_of :: "int \<Rightarrow> int" where
  "int64_of n = (if in_int64 n then n else min_int64)"

definition lognormal_sample :: "(int \<Rightarrow> real) \<Rightarrow> lognormal \<Rightarrow> int \<times> lognormal" where
  "lognormal_sample gauss l =
     (let x = exp (lg_mu l + lg_sigma l * gauss (shd (lg_rng l)));
          n0 = int64_of (math_round x);
          n1 = (if n0 < lg_min l then lg_min l else n0);
          n2 = (if lg_max l > 0 \<and> n1 > lg_max l then lg_max l else n1)
      in (n2, l\<lparr>lg_rng := stl (lg_rng l)\<rparr>))"

lemma lognormal_sample_bounds:
  assumes "lg_min l \<le> lg_max l"
  shows "lg_min l \<le> fst (lognormal_sample gauss l)" "lg_max l \<noteq> 0 \<Longrightarrow> 0 \<le> lg_min l \<Longrightarrow> fst (lognormal_sample gauss l) \<le> lg_max l"
  using assms by (auto simp: lognormal_sample_def Let_def)

lemma lognormal_sample_bounds_keep [simp]:
  "lg_min (snd (lognormal_sample gauss l)) = lg_min l" "lg_max (snd (lognormal_sample gauss l)) = lg_max l"
  by (simp_all add: lognormal_sample_def Let_def)

lemma new_lognormal_Ok:
  assumes "new_lognormal mean sigma mn mx r = Ok l"
  shows "lg_min l = mn" "lg_max l = mx" "0 \<le> mn" "mn \<le> mx" "lg_rng l = r"
  using assms by (auto simp: new_lognormal_def split: if_splits)

text \<open>\<open>uint64(workerID)*0x9E3779B97F4A7C15 + 1\<close>, reinterpreted as signed.\<close>

definition worker_mix_seed :: "int \<Rightarrow> int" where
  "worker_mix_seed i = wrap64 (((i mod 2 ^ 64) * 11400714819323198485) mod 2 ^ 64 + 1)"

definition lognormal_for_worker :: "(int \<Rightarrow> rng) \<Rightarrow> int \<Rightarrow> lognormal \<Rightarrow> lognormal" where
  "lognormal_for_worker source i l = l\<lparr>lg_rng := source (worker_mix_seed i)\<rparr>"

subsection \<open>Zipfian\<close>

text \<open>\<open>rand.NewZipf(r, s, 1, imax)\<close> draws from \<open>[0, imax]\<close>.\<close>

record zipfian =
  zf_imax :: int
  zf_rng :: rng
  zf_n :: int
  zf_s :: real

definition new_zipfian :: "int \<Rightarrow> real \<Rightarrow> rng \<Rightarrow> zipfian res" where
  "new_zipfian n s r =
     (if n \<le> 0 then Err (Plain_error ''sizedist: zipfian N must be >0'')
      else if s \<le> 1 then Err (Plain_error ''sizedist: zipfian s must be >1'')
      else Ok \<lparr>zf_imax = n - 1, zf_rng = r, zf_n = n, zf_s = s\<rparr>)"

definition zipfian_sample :: "zipfian \<Rightarrow> int \<times> zipfian" where
  "zipfian_sample z = (shd (zf_rng z) mod (zf_imax z + 1), z\<lparr>zf_rng := stl (zf_rng z)\<rparr>)"

definition zipfian_for_worker :: "(int \<Rightarrow> rng) \<Rightarrow> int \<Rightarrow> zipfian \<Rightarrow> zipfian" where
  "zipfian_for_worker source i z =
     \<lparr>zf_imax = zf_n z - 1, zf_rng = source (worker_mix_seed i), zf_n = zf_n z, zf_s = zf_s z\<rparr>"

subsection \<open>Properties\<close>

text \<open>A sampler that \<open>NewLognormal\<close> accepts stays within its bounds on every draw, its own or
  a worker clone's: never below \<open>Min\<close>, and never above \<open>Max\<close> unless \<open>Max\<close> is 0, which is accepted
  and means no upper bound.\<close>

theorem lognormal_clamped:
  assumes "new_lognormal mean sigma mn mx r = Ok l" and "l' = l \<or> l' = lognormal_for_worker source i l"
  shows "mn \<le> fst (lognormal_sample gauss l') \<and> 0 \<le> fst (lognormal_sample gauss l') \<and>
    (mx \<noteq> 0 \<longrightarrow> fst (lognormal_sample gauss l') \<le> mx)"
proof -
  have l: "lg_min l = mn" "lg_max l = mx" "0 \<le> mn" "mn \<le> mx"
    using assms(1) by (auto simp: new_lognormal_def split: if_splits)
  then have "lg_min l' = mn" "lg_max l' = mx"
    using assms(2) by (auto simp: lognormal_for_worker_def)
  with l show ?thesis by (auto simp: lognormal_sample_def Let_def)
qed

theorem lognormal_clamped_witness:
  "\<exists>l. new_lognormal 4096 1 512 8192 (sconst 0) = Ok l \<and> 512 \<le> fst (lognormal_sample (\<lambda>_. 9) l) \<and>
    fst (lognormal_sample (\<lambda>_. 9) l) \<le> 8192"
proof -
  obtain l where l: "new_lognormal 4096 1 512 8192 (sconst 0) = Ok l" by (simp add: new_lognormal_def)
  then show ?thesis using lognormal_clamped [OF l disjI1 [OF refl], of "\<lambda>_. 9"] by auto
qed

text \<open>The integer samplers stay in range: \<open>UniformRange\<close> draws from \<open>[Min, Max]\<close>, every value
  of it being possible, and panics only where \<open>Max - Min + 1\<close> overflows; a \<open>Zipfian\<close> that was
  accepted, and its worker clones, draw from \<open>[0, N)\<close>.\<close>

theorem integer_samplers_in_range:
  assumes "in_int64 (ur_min u)" and "in_int64 (ur_max u)" and "ur_min u \<le> ur_max u"
    and "new_zipfian n s r = Ok z" and "z' = z \<or> z' = zipfian_for_worker source i z"
  shows "(case fst (uniform_range_sample u) of
      Ok k \<Rightarrow> ur_min u \<le> k \<and> k \<le> ur_max u
    | Panic \<Rightarrow> 2 ^ 63 \<le> ur_max u - ur_min u + 1
    | Err e \<Rightarrow> False) \<and>
    (2 ^ 63 > ur_max u - ur_min u + 1 \<longrightarrow>
      (\<forall>k. ur_min u \<le> k \<and> k \<le> ur_max u \<longrightarrow>
        (\<exists>r. fst (uniform_range_sample (u\<lparr>ur_rng := r\<rparr>)) = Ok k))) \<and>
    0 \<le> fst (zipfian_sample z') \<and> fst (zipfian_sample z') < n"
proof -
  define d where "d = ur_max u - ur_min u + 1"
  have width: "wrap64 (ur_max u - ur_min u + 1) = wrap64 d" by (simp add: d_def)
  have d: "0 < d" "d \<le> 2 ^ 64" using assms(1-3) by (auto simp: d_def in_int64_iff)
  have small: "wrap64 d = d" if "d < 2 ^ 63" using that d by (simp add: in_int64_iff)
  have big: "wrap64 d \<le> 0" if "2 ^ 63 \<le> d"
    using wrap64_over [OF that] d by simp
  have draw: "fst (uniform_range_sample (u\<lparr>ur_rng := r\<rparr>)) = Ok (ur_min u + shd r mod d)"
    if "d < 2 ^ 63" "ur_min u < ur_max u" for r
  proof -
    have "0 \<le> shd r mod d" "shd r mod d < d" using d by simp_all
    then have "in_int64 (ur_min u + shd r mod d)"
      using assms(1,2) by (auto simp: in_int64_iff d_def)
    then show ?thesis
      using that d unfolding uniform_range_sample_def int63n_def by (simp add: width small)
  qed
  have zipf: "zf_imax z' = n - 1" "0 < n"
    using assms(4,5) by (auto simp: new_zipfian_def zipfian_for_worker_def split: if_splits)
  have "case fst (uniform_range_sample u) of
      Ok k \<Rightarrow> ur_min u \<le> k \<and> k \<le> ur_max u
    | Panic \<Rightarrow> 2 ^ 63 \<le> d | Err e \<Rightarrow> False"
  proof (cases "ur_max u \<le> ur_min u")
    case True
    then show ?thesis using assms(3) by (simp add: uniform_range_sample_def)
  next
    case lt: False
    show ?thesis
    proof (cases "d < 2 ^ 63")
      case True
      have "0 \<le> shd (ur_rng u) mod d" "shd (ur_rng u) mod d < d" using d by simp_all
      then show ?thesis using draw [of "ur_rng u"] True lt by (simp add: d_def)
    next
      case False
      then show ?thesis using big lt
        by (simp add: uniform_range_sample_def int63n_def width)
    qed
  qed
  moreover have "\<exists>r. fst (uniform_range_sample (u\<lparr>ur_rng := r\<rparr>)) = Ok k"
    if "d < 2 ^ 63" "ur_min u \<le> k" "k \<le> ur_max u" for k
  proof (cases "ur_min u < ur_max u")
    case True
    have "(k - ur_min u) mod d = k - ur_min u" using that(2,3) by (simp add: d_def)
    then show ?thesis using draw [OF that(1) True, of "sconst (k - ur_min u)"] by auto
  next
    case False
    then show ?thesis using that by (simp add: uniform_range_sample_def)
  qed
  moreover have "0 \<le> fst (zipfian_sample z')" "fst (zipfian_sample z') < n"
    using zipf by (simp_all add: zipfian_sample_def)
  ultimately show ?thesis unfolding d_def [symmetric] by blast
qed

theorem integer_samplers_in_range_witness:
  "fst (uniform_range_sample \<lparr>ur_min = 5, ur_max = 7, ur_rng = sconst 4\<rparr>) = Ok 6 \<and>
   (\<exists>z. new_zipfian 10 2 (sconst 3) = Ok z \<and> fst (zipfian_sample z) < 10)"
proof -
  obtain z where z: "new_zipfian 10 2 (sconst 3) = Ok z" by (simp add: new_zipfian_def)
  have "fst (zipfian_sample z) < 10"
    using integer_samplers_in_range [OF _ _ _ z disjI1 [OF refl],
        of "\<lparr>ur_min = 5, ur_max = 7, ur_rng = sconst 4\<rparr>"] by simp
  with z show ?thesis by (auto simp: uniform_range_sample_def int63n_def)
qed

text \<open>Different workers get different seeds: the golden-ratio mixing is injective on the 64-bit
  worker ids, so no two worker clones of a sampler share a stream by construction.\<close>

theorem worker_mix_seed_injective:
  assumes "in_int64 i" and "in_int64 j" and "worker_mix_seed i = worker_mix_seed j"
  shows "i = j"
proof -
  let ?c = "11400714819323198485 :: int" and ?m = "2 ^ 64 :: int"
  have inv: "(?c * 17428512612931826493) mod ?m = 1" by simp
  have "((i mod ?m * ?c) mod ?m + 1) mod ?m = ((j mod ?m * ?c) mod ?m + 1) mod ?m"
    using assms(3) unfolding worker_mix_seed_def wrap64_eq_iff .
  then have "((i mod ?m * ?c) mod ?m + 1 - 1) mod ?m = ((j mod ?m * ?c) mod ?m + 1 - 1) mod ?m"
    by (rule mod_diff_cong) simp
  then have "(i * ?c) mod ?m = (j * ?c) mod ?m" by (simp add: mod_mult_left_eq)
  then have "(i * ?c * 17428512612931826493) mod ?m = (j * ?c * 17428512612931826493) mod ?m"
    by (rule mod_mult_cong) simp
  then have "(i * (?c * 17428512612931826493 mod ?m)) mod ?m =
      (j * (?c * 17428512612931826493 mod ?m)) mod ?m"
    by (simp only: mod_mult_right_eq mult.assoc)
  then have "i mod ?m = j mod ?m" by (simp only: inv mult_1_right)
  then have "wrap64 i = wrap64 j" by (simp only: wrap64_eq_iff)
  then show ?thesis using assms(1,2) by simp
qed

theorem worker_mix_seed_injective_witness:
  "worker_mix_seed 3 \<noteq> worker_mix_seed 4"
  using worker_mix_seed_injective [of 3 4] by auto

end
