(* ===== verification/Plan.thy ===== *)
theory Plan
  imports Go_Strconv
begin

section \<open>Plans (\<open>internal/plan\<close>)\<close>

text \<open>
  The YAML plan as records, the custom decoding of sizes and durations, and \<open>Validate\<close>. The YAML
  decoder and \<open>humanize.ParseBytes\<close> are third-party code and \<open>time.ParseDuration\<close> computes with
  floats: all three are parameters. A JSON token is classified the way the decoders look at it.
\<close>

subsection \<open>Dynamic values\<close>

text \<open>
  The \<open>interface{}\<close> values of \<open>params\<close>: what a YAML document decodes to, and the \<open>int\<close> case the
  code also accepts. A \<open>float64\<close> stands as the rational number it denotes.
\<close>

datatype yval =
    Y_null
  | Y_bool bool
  | Y_float rat
  | Y_int int
  | Y_string string
  | Y_list "yval list"
  | Y_map "(string \<times> yval) list"

type_synonym params = "(string \<times> yval) list"

text \<open>Go's conversion of a float to \<open>int64\<close>: truncation; out of range, the value amd64 yields.\<close>

definition float_to_int64 :: "rat \<Rightarrow> int" where
  "float_to_int64 x =
     (let t = (if 0 \<le> x then \<lfloor>x\<rfloor> else \<lceil>x\<rceil>) in if in_int64 t then t else min_int64)"

lemma float_to_int64_of_int: "in_int64 n \<Longrightarrow> float_to_int64 (of_int n) = n"
  by (simp add: float_to_int64_def)

lemma float_to_int64_range: "in_int64 (float_to_int64 x)"
  by (simp add: float_to_int64_def Let_def in_int64_def min_int64_def max_int64_def)

subsection \<open>Schema (\<open>schema.go\<close>)\<close>

record workload_entry =
  we_name :: string
  we_type :: string
  we_weight :: int
  we_object_size :: int
  we_threads :: int
  we_duration :: int
  we_params :: params

record plan_defaults =
  pd_duration :: int
  pd_warmup :: int
  pd_threads :: int
  pd_part_size :: int
  pd_concurrency :: int

record plan_output =
  po_text :: string
  po_json :: string
  po_progress :: bool

record plan =
  pl_name :: string
  pl_endpoint :: string
  pl_region :: string
  pl_bucket :: string
  pl_access_key :: string
  pl_secret_key :: string
  pl_path_style :: "bool option"
  pl_tls_skip :: "bool option"
  pl_pool :: int
  pl_http2 :: "bool option"
  pl_prepopulate :: "bool option"
  pl_cleanup :: "bool option"
  pl_seed :: int
  pl_defaults :: plan_defaults
  pl_workloads :: "workload_entry list"
  pl_output :: plan_output

subsection \<open>Sizes and durations (\<open>types.go\<close>)\<close>

datatype json_token = J_string string | J_int int | J_null | J_other

text \<open>\<open>parse_bytes\<close> yields an unsigned 64-bit number; \<open>Size(n)\<close> reinterprets it as signed.\<close>

definition size_parse :: "(string \<Rightarrow> int option) \<Rightarrow> string \<Rightarrow> int res" where
  "size_parse parse_bytes raw =
     (if raw = [] then Ok 0
      else case parse_int raw of
             Some n \<Rightarrow> Ok n
           | None \<Rightarrow>
               (case parse_bytes raw of
                  None \<Rightarrow> Err (Wrap_error ''size'' (Plain_error raw))
                | Some n \<Rightarrow> Ok (wrap64 n)))"

definition unmarshal_int64 :: "json_token \<Rightarrow> int res" where
  "unmarshal_int64 t =
     (case t of
        J_int n \<Rightarrow> if in_int64 n then Ok n else Err (Plain_error ''json'')
      | J_null \<Rightarrow> Ok 0
      | _ \<Rightarrow> Err (Plain_error ''json''))"

definition size_unmarshal :: "(string \<Rightarrow> int option) \<Rightarrow> json_token \<Rightarrow> int res" where
  "size_unmarshal parse_bytes t =
     (case t of J_string raw \<Rightarrow> size_parse parse_bytes raw | _ \<Rightarrow> unmarshal_int64 t)"

definition size_marshal :: "int \<Rightarrow> json_token" where
  "size_marshal n = J_int n"

definition duration_unmarshal :: "(string \<Rightarrow> int option) \<Rightarrow> json_token \<Rightarrow> int res" where
  "duration_unmarshal parse_duration t =
     (case t of
        J_string raw \<Rightarrow>
          if raw = [] then Ok 0
          else (case parse_duration raw of
                  None \<Rightarrow> Err (Wrap_error ''duration'' (Plain_error raw))
                | Some d \<Rightarrow> Ok d)
      | _ \<Rightarrow> unmarshal_int64 t)"

definition duration_marshal :: "(int \<Rightarrow> string) \<Rightarrow> int \<Rightarrow> json_token" where
  "duration_marshal show_duration d = J_string (show_duration d)"

subsection \<open>Loading (\<open>load.go\<close>)\<close>

definition parse_plan :: "('b \<Rightarrow> plan res) \<Rightarrow> 'b \<Rightarrow> plan res" where
  "parse_plan yaml b =
     (case yaml b of
        Err e \<Rightarrow> Err (Wrap_error ''parse plan'' e)
      | Ok p \<Rightarrow> Ok p
      | Panic \<Rightarrow> Panic)"

definition load_plan :: "(string \<Rightarrow> 'b res) \<Rightarrow> ('b \<Rightarrow> plan res) \<Rightarrow> string \<Rightarrow> plan res" where
  "load_plan read_file yaml path =
     (case read_file path of
        Err e \<Rightarrow> Err (Wrap_error ''read plan'' e)
      | Ok b \<Rightarrow> parse_plan yaml b
      | Panic \<Rightarrow> Panic)"

subsection \<open>Validation (\<open>validate.go\<close>)\<close>

fun validate_workloads :: "nat \<Rightarrow> string list \<Rightarrow> workload_entry list \<Rightarrow> unit res" where
  "validate_workloads i seen [] = Ok ()"
| "validate_workloads i seen (w # ws) =
     (if we_name w = [] then Err (Plain_error (''workload['' @ format_int (int i) @ ''] missing name''))
      else if we_name w \<in> set seen then Err (Plain_error (''duplicate workload name '' @ we_name w))
      else if we_type w = [] then Err (Plain_error (''workload '' @ we_name w @ '' missing type''))
      else validate_workloads (Suc i) (we_name w # seen) ws)"

text \<open>The result and the warnings sent to the logger, if there is one.\<close>

definition validate :: "plan option \<Rightarrow> bool \<Rightarrow> unit res \<times> string list" where
  "validate mp has_logger =
     (case mp of
        None \<Rightarrow> (Err (Plain_error ''plan is nil''), [])
      | Some p \<Rightarrow>
          if pl_endpoint p = [] then (Err (Plain_error ''plan missing endpoint''), [])
          else if pl_bucket p = [] then (Err (Plain_error ''plan missing bucket''), [])
          else if pl_workloads p = []
          then (Err (Plain_error ''plan must declare at least one workload''), [])
          else case validate_workloads 0 [] (pl_workloads p) of
                 Ok _ \<Rightarrow>
                   (Ok (), if has_logger \<and> (pl_access_key p \<noteq> [] \<or> pl_secret_key p \<noteq> [])
                           then [pl_name p] else [])
               | Err e \<Rightarrow> (Err e, [])
               | Panic \<Rightarrow> (Panic, []))"

lemma validate_workloads_ok:
  "validate_workloads i seen ws = Ok () \<longleftrightarrow>
     (\<forall>w \<in> set ws. we_name w \<noteq> [] \<and> we_type w \<noteq> [] \<and> we_name w \<notin> set seen) \<and>
     distinct (map we_name ws)"
proof (induction i seen ws rule: validate_workloads.induct)
  case (2 i seen w ws)
  have "(\<forall>v \<in> set ws. we_name v \<noteq> we_name w) \<longleftrightarrow> we_name w \<notin> we_name ` set ws"
    by (metis (no_types, lifting) imageE imageI)
  then show ?case using 2 by auto
qed simp

lemma validate_workloads_no_panic: "validate_workloads i seen ws \<noteq> Panic"
  by (induction i seen ws rule: validate_workloads.induct) auto

text \<open>The first offending entry decides the error.\<close>

lemma validate_workloads_append:
  assumes "validate_workloads i seen ws = Ok ()"
  shows "validate_workloads i seen (ws @ w # vs) =
     validate_workloads (i + length ws) (rev (map we_name ws) @ seen) (w # vs)"
  using assms by (induction i seen ws rule: validate_workloads.induct) (auto split: if_splits)

subsection \<open>Properties\<close>

text \<open>C37. \<open>Validate\<close> accepts a plan exactly when it has an endpoint, a bucket and at least one
  workload, every workload has a name and a type, and no two share a name; it warns about inline
  credentials only then, and never panics.\<close>

theorem validate_accepts_iff:
  "(fst (validate (Some p) lg) = Ok () \<longleftrightarrow>
     pl_endpoint p \<noteq> [] \<and> pl_bucket p \<noteq> [] \<and> pl_workloads p \<noteq> [] \<and>
     (\<forall>w \<in> set (pl_workloads p). we_name w \<noteq> [] \<and> we_type w \<noteq> []) \<and>
     distinct (map we_name (pl_workloads p))) \<and>
   fst (validate (Some p) lg) \<noteq> Panic \<and>
   (snd (validate (Some p) lg) \<noteq> [] \<longleftrightarrow> fst (validate (Some p) lg) = Ok () \<and> lg \<and>
     (pl_access_key p \<noteq> [] \<or> pl_secret_key p \<noteq> []))"
proof (cases "validate_workloads 0 [] (pl_workloads p)")
  case (Ok u)
  then show ?thesis using validate_workloads_ok [of 0 "[]" "pl_workloads p"]
    by (auto simp: validate_def)
next
  case (Err e)
  then show ?thesis using validate_workloads_ok [of 0 "[]" "pl_workloads p"]
    by (auto simp: validate_def)
qed (simp add: validate_workloads_no_panic)

definition sample_plan :: plan where
  "sample_plan = \<lparr>pl_name = ''demo'', pl_endpoint = ''http://s3'', pl_region = '''', pl_bucket = ''b'',
     pl_access_key = ''AK'', pl_secret_key = '''', pl_path_style = None, pl_tls_skip = None, pl_pool = 0,
     pl_http2 = None, pl_prepopulate = None, pl_cleanup = None, pl_seed = 0,
     pl_defaults = \<lparr>pd_duration = 0, pd_warmup = 0, pd_threads = 0, pd_part_size = 0, pd_concurrency = 0\<rparr>,
     pl_workloads = [\<lparr>we_name = ''w'', we_type = ''lancedb'', we_weight = 1, we_object_size = 0,
       we_threads = 0, we_duration = 0, we_params = []\<rparr>],
     pl_output = \<lparr>po_text = '''', po_json = '''', po_progress = False\<rparr>\<rparr>"

theorem validate_accepts_iff_witness:
  "fst (validate (Some sample_plan) True) = Ok () \<and> snd (validate (Some sample_plan) True) \<noteq> [] \<and>
   fst (validate (Some (sample_plan\<lparr>pl_bucket := ''''\<rparr>)) True) \<noteq> Ok ()"
  using validate_accepts_iff [of sample_plan True] validate_accepts_iff [of "sample_plan\<lparr>pl_bucket := ''''\<rparr>" True]
  by (simp add: sample_plan_def)

text \<open>C38. A size decodes to what it was encoded from, whether the JSON holds the number itself or
  its decimal string.\<close>

theorem size_roundtrip:
  assumes "in_int64 n"
  shows "size_unmarshal pb (size_marshal n) = Ok n \<and> size_unmarshal pb (J_string (format_int n)) = Ok n"
proof -
  have "format_int n \<noteq> []" by (simp add: format_int_def)
  then show ?thesis using assms parse_int_format_int [OF assms]
    by (simp add: size_unmarshal_def size_marshal_def unmarshal_int64_def size_parse_def)
qed

theorem size_roundtrip_witness:
  "size_unmarshal (\<lambda>_. None) (J_string (format_int (- 42))) = Ok (- 42)"
proof -
  have "in_int64 (- 42)" by (simp add: in_int64_iff)
  then show ?thesis using size_roundtrip [of "- 42" "\<lambda>_. None"] by blast
qed

end
