(* ===== verification/Params.thy ===== *)
theory Params
  imports Plan
begin

section \<open>Workload parameters\<close>

text \<open>
  Each workload package has its own copies of the helpers that read the dynamic \<open>params\<close> of a plan
  entry; the copies are textually the same. A value of another type, like a missing one, gives the
  default. A \<open>float64\<close> parameter is read as the number it denotes.
\<close>

definition int_param :: "params \<Rightarrow> string \<Rightarrow> int \<Rightarrow> int" where
  "int_param p key def =
     (case map_of p key of
        Some (Y_float f) \<Rightarrow> float_to_int64 f
      | Some (Y_int i) \<Rightarrow> i
      | _ \<Rightarrow> def)"

definition size_param :: "params \<Rightarrow> string \<Rightarrow> int \<Rightarrow> int" where
  "size_param p key def =
     (case map_of p key of
        Some (Y_float f) \<Rightarrow> float_to_int64 f
      | Some (Y_int i) \<Rightarrow> i
      | _ \<Rightarrow> def)"

text \<open>\<open>parse_float\<close> is \<open>strconv.ParseFloat(s, 64)\<close>.\<close>

definition float_param :: "(string \<Rightarrow> real option) \<Rightarrow> params \<Rightarrow> string \<Rightarrow> real \<Rightarrow> real" where
  "float_param parse_float p key def =
     (case map_of p key of
        Some (Y_float f) \<Rightarrow> of_rat f
      | Some (Y_int i) \<Rightarrow> of_int i
      | Some (Y_string s) \<Rightarrow> (case parse_float s of Some x \<Rightarrow> x | None \<Rightarrow> def)
      | _ \<Rightarrow> def)"

definition string_param :: "params \<Rightarrow> string \<Rightarrow> string \<Rightarrow> string" where
  "string_param p key def = (case map_of p key of Some (Y_string s) \<Rightarrow> s | _ \<Rightarrow> def)"

definition bool_param :: "params \<Rightarrow> string \<Rightarrow> bool \<Rightarrow> bool" where
  "bool_param p key def = (case map_of p key of Some (Y_bool b) \<Rightarrow> b | _ \<Rightarrow> def)"

definition duration_param :: "(string \<Rightarrow> int option) \<Rightarrow> params \<Rightarrow> string \<Rightarrow> int \<Rightarrow> int" where
  "duration_param parse_duration p key def =
     (case map_of p key of
        Some (Y_string s) \<Rightarrow> (case parse_duration s of Some d \<Rightarrow> d | None \<Rightarrow> def)
      | _ \<Rightarrow> def)"

end
