(* ===== verification/Workload.thy ===== *)
theory Workload
  imports Safety Metrics Bodygen Sizedist Params
begin

section \<open>The workload interface (\<open>internal/workload/workload.go\<close>)\<close>

text \<open>
  The environment of a workload, the registry of factories, seeds and keys, and the two cleanup
  idioms the workloads share. The world of a run is the store behind the client and the calls that
  have reached the collector, in order; \<open>Metrics\<close> says what the collector makes of them.
\<close>

subsection \<open>Environment\<close>

text \<open>The recorder of an environment: none (a nil interface), the discarding one of the warm-up, or
  the collector of the run. Calling a method of a nil interface panics.\<close>

datatype env_recorder = Rec_nil | Rec_discard | Rec_collector

record env =
  en_recorder :: env_recorder
  en_rand :: "rng option"
  en_seed :: int
  en_threads :: int
  en_run_prefix :: string
  en_part_size :: int
  en_concurrency :: int

record 's world =
  wd_store :: 's
  wd_calls :: "collector_call list"

definition env_shard_for :: "env \<Rightarrow> int \<Rightarrow> 's world \<Rightarrow> recorder res \<times> 's world" where
  "env_shard_for env i w =
     (case en_recorder env of
        Rec_nil \<Rightarrow> (Panic, w)
      | Rec_discard \<Rightarrow> (Ok None, w)
      | Rec_collector \<Rightarrow> (Ok (Some i), w\<lparr>wd_calls := wd_calls w @ [Shard_for i]\<rparr>))"

definition env_record :: "env \<Rightarrow> recorder \<Rightarrow> event \<Rightarrow> 's world \<Rightarrow> unit res \<times> 's world" where
  "env_record env r e w =
     (case en_recorder env of
        Rec_nil \<Rightarrow> (Panic, w)
      | Rec_discard \<Rightarrow> (Ok (), w)
      | Rec_collector \<Rightarrow> (Ok (), w\<lparr>wd_calls := wd_calls w @ [Record_on r e]\<rparr>))"

lemma env_record_store [simp]: "wd_store (snd (env_record env r e w)) = wd_store w"
  by (simp add: env_record_def split: env_recorder.split)

lemma env_shard_for_store [simp]: "wd_store (snd (env_shard_for env i w)) = wd_store w"
  by (simp add: env_shard_for_def split: env_recorder.split)

lemma env_record_ok [simp]: "en_recorder env \<noteq> Rec_nil \<Longrightarrow> fst (env_record env r e w) = Ok ()"
  by (simp add: env_record_def split: env_recorder.split)

text \<open>A call of the client that is timed and recorded: the event carries the outcome's error.\<close>

fun res_error :: "'a res \<Rightarrow> go_error option" where
  "res_error (Err e) = Some e"
| "res_error _ = None"

definition client_event ::
  "string \<Rightarrow> op \<Rightarrow> int \<Rightarrow> int \<Rightarrow> go_error option \<Rightarrow> event" where
  "client_event name x latency n err =
     \<lparr>ev_workload = name, ev_op = x, ev_latency = latency, ev_bytes = n, ev_err = err\<rparr>"

subsection \<open>The registry\<close>

type_synonym 'w factory = "workload_entry \<Rightarrow> 'w res"
type_synonym 'w registry = "(string \<times> 'w factory) list"

definition register_type :: "string \<Rightarrow> 'w factory \<Rightarrow> 'w registry \<Rightarrow> unit res \<times> 'w registry" where
  "register_type name f reg =
     (if map_of reg name \<noteq> None then (Panic, reg) else (Ok (), reg @ [(name, f)]))"

definition build :: "'w registry \<Rightarrow> workload_entry \<Rightarrow> 'w res" where
  "build reg w =
     (case map_of reg (we_type w) of
        None \<Rightarrow> Err (Plain_error (''unknown workload type '' @ we_type w))
      | Some f \<Rightarrow> f w)"

definition reset_registry :: "'w registry \<Rightarrow> 'w registry" where
  "reset_registry reg = []"

definition registered :: "'w registry \<Rightarrow> string list" where
  "registered reg = map fst reg"

lemma build_registered:
  assumes "fst (register_type name f reg) = Ok ()"
  shows "build (snd (register_type name f reg)) w = (if we_type w = name then f w else build reg w)"
  using assms by (auto simp: register_type_def build_def map_add_def split: if_splits option.splits)

lemma distinct_registered:
  "distinct (registered reg) \<Longrightarrow> distinct (registered (snd (register_type name f reg)))"
  by (auto simp: registered_def register_type_def map_of_eq_None_iff)

subsection \<open>Seeds and keys\<close>

definition worker_seed :: "int \<Rightarrow> int \<Rightarrow> int" where
  "worker_seed base i = wrap64 (wrap64 (base + i) + 1)"

definition worker_rand :: "(int \<Rightarrow> rng) \<Rightarrow> env option \<Rightarrow> int \<Rightarrow> rng" where
  "worker_rand source env i =
     (case env of None \<Rightarrow> source (worker_seed 0 i) | Some en \<Rightarrow> source (worker_seed (en_seed en) i))"

definition append_key_decimal :: "string \<Rightarrow> int \<Rightarrow> string" where
  "append_key_decimal pfx n = pfx @ format_int n"

definition append_key_padded :: "string \<Rightarrow> int \<Rightarrow> int \<Rightarrow> string" where
  "append_key_padded pfx n width =
     (let scratch = format_int n in pfx @ replicate (nat (width - int (length scratch))) CHR ''0'' @ scratch)"

lemma append_key_decimal_inject:
  "0 \<le> m \<Longrightarrow> 0 \<le> n \<Longrightarrow> append_key_decimal p m = append_key_decimal p n \<longleftrightarrow> m = n"
  by (simp add: append_key_decimal_def format_int_inject)

lemma append_key_padded_inject:
  assumes "0 \<le> m" "0 \<le> n"
  shows "append_key_padded p m width = append_key_padded p n width \<longleftrightarrow> m = n"
proof
  assume "append_key_padded p m width = append_key_padded p n width"
  then have "digits_value (replicate (nat (width - int (length (format_int m)))) CHR ''0'' @ format_int m) =
      digits_value (replicate (nat (width - int (length (format_int n)))) CHR ''0'' @ format_int n)"
    by (simp add: append_key_padded_def Let_def)
  then have "digits_value (format_int m) = digits_value (format_int n)" by simp
  then show "m = n" using assms by (simp add: format_int_def)
qed simp

text \<open>Digit strings of equal length are ordered as the numbers they denote.\<close>

lemma digits_value_Cons:
  "digits_value (c # ds) = digit_value c * 10 ^ length ds + digits_value ds"
proof -
  have "foldl (\<lambda>a c. 10 * a + digit_value c) a ds =
      a * 10 ^ length ds + foldl (\<lambda>a c. 10 * a + digit_value c) 0 ds" for a
  proof (induction ds arbitrary: a)
    case (Cons d ds)
    show ?case
      using Cons.IH [of "10 * a + digit_value d"] Cons.IH [of "digit_value d"]
      by (simp add: algebra_simps)
  qed simp
  from this [of "digit_value c"] show ?thesis by (simp add: digits_value_def)
qed

lemma digits_value_less: "list_all is_digit ds \<Longrightarrow> digits_value ds < 10 ^ length ds"
proof (induction ds)
  case (Cons d ds)
  then have "(of_char d :: nat) \<le> 57" by (simp add: is_digit_def)
  then have d: "digit_value d \<le> 9" unfolding digit_value_def by linarith
  have "digits_value (d # ds) < digit_value d * 10 ^ length ds + 10 ^ length ds"
    using Cons by (simp add: digits_value_Cons)
  also have "\<dots> \<le> 9 * 10 ^ length ds + 10 ^ length ds" using d by (intro add_right_mono mult_right_mono) auto
  finally show ?case by simp
qed simp

lemma lexicographic_nat:
  fixes a b u w B :: nat
  assumes "u < B" "w < B"
  shows "a * B + u < b * B + w \<longleftrightarrow> a < b \<or> a = b \<and> u < w"
proof -
  have "c * B + u' < d * B + w'" if "c < d" "u' < B" for c d u' w' :: nat
  proof -
    have "(c + 1) * B \<le> d * B" using that by (intro mult_right_mono) auto
    then show ?thesis using that by (simp add: algebra_simps)
  qed
  from this [of a b u w] this [of b a w u] assms show ?thesis
    by (cases a b rule: linorder_cases) simp_all
qed

lemma digits_less_iff:
  assumes "length xs = length ys" "list_all is_digit xs" "list_all is_digit ys"
  shows "xs < ys \<longleftrightarrow> digits_value xs < digits_value ys"
  using assms
proof (induction xs ys rule: list_induct2)
  case (Cons x xs y ys)
  have v: "digits_value xs < 10 ^ length ys" "digits_value ys < 10 ^ length ys"
    using digits_value_less Cons by fastforce+
  have "48 \<le> (of_char x :: nat)" "48 \<le> (of_char y :: nat)"
    using Cons.prems by (simp_all add: is_digit_def)
  moreover have "x = y \<longleftrightarrow> (of_char x :: nat) = of_char y" by (metis char_of_char)
  ultimately have ch: "x < y \<longleftrightarrow> digit_value x < digit_value y" "x = y \<longleftrightarrow> digit_value x = digit_value y"
    unfolding digit_value_def less_char_def by linarith+
  note lexicographic_nat [OF v, of "digit_value x" "digit_value y"]
  with Cons ch show ?case by (simp add: digits_value_Cons)
qed simp

text \<open>Padded keys are faithful names: distinct non-negative indices have distinct keys, of any
  width, and as long as the indices fit the width the keys sort as the indices do, so a listing
  returns them in order.\<close>

theorem padded_keys_ordered:
  assumes "0 \<le> m" and "0 \<le> n"
  shows "(append_key_padded p m width = append_key_padded p n width \<longleftrightarrow> m = n) \<and>
    (0 < width \<and> m < 10 ^ nat width \<and> n < 10 ^ nat width \<longrightarrow>
       (append_key_padded p m width < append_key_padded p n width \<longleftrightarrow> m < n))"
proof (intro conjI impI)
  show "append_key_padded p m width = append_key_padded p n width \<longleftrightarrow> m = n"
    by (rule append_key_padded_inject [OF assms])
next
  assume w: "0 < width \<and> m < 10 ^ nat width \<and> n < 10 ^ nat width"
  define pad where
    "pad k = replicate (nat (width - int (length (format_int k)))) CHR ''0'' @ format_int k" for k
  have len: "length (pad k) = nat width" if "0 \<le> k" "k < 10 ^ nat width" for k
  proof -
    have "nat k < 10 ^ nat width" using that by (metis nat_less_iff of_nat_numeral of_nat_power)
    then have "length (nat_digits (nat k)) \<le> nat width" using w by (intro length_nat_digits_less) auto
    then show ?thesis using that w by (simp add: pad_def format_int_def)
  qed
  have digits: "list_all is_digit (pad k)" "digits_value (pad k) = nat k" if "0 \<le> k" for k
    using that nat_digits_all_digits [of "nat k"]
    by (auto simp: pad_def format_int_def list_all_iff is_digit_def)
  have "pad m < pad n \<longleftrightarrow> m < n"
    using digits_less_iff [of "pad m" "pad n"] len digits assms w by (simp add: nat_less_iff) linarith
  moreover have "append_key_padded p k width = p @ pad k" for k
    by (simp add: append_key_padded_def pad_def Let_def)
  moreover have "p @ xs < p @ ys \<longleftrightarrow> xs < ys" for xs ys :: string
    by (induction p) auto
  ultimately show "append_key_padded p m width < append_key_padded p n width \<longleftrightarrow> m < n" by simp
qed

theorem padded_keys_ordered_witness:
  "append_key_padded ''c/ckpt-'' 9 8 < append_key_padded ''c/ckpt-'' 10 8"
  using padded_keys_ordered [of 9 10 "''c/ckpt-''" 8] by simp

end
