(* ===== verification/Crew.thy ===== *)
theory Crew
  imports Workload
begin

section \<open>What the workloads share\<close>

text \<open>
  The idioms that every workload package repeats: workers that ask for their shards and loop until
  the context ends, a timed client call followed by one \<open>Record\<close>, and the cleanup loop over keys.
  A crew is the state of a running workload, the world and the state of each worker; a schedule is
  the list of worker steps in the order in which they take effect, so every interleaving is one.
\<close>

subsection \<open>Calls\<close>

text \<open>A response body is drained; what it held is recorded even if draining it failed.\<close>

definition read_bytes :: "bytes res \<Rightarrow> int" where
  "read_bytes out = (case out of Ok b \<Rightarrow> drain b | _ \<Rightarrow> 0)"

text \<open>The outcome of a client call reaches the recorder as one event.\<close>

definition record_call ::
  "env \<Rightarrow> recorder \<Rightarrow> string \<Rightarrow> op \<Rightarrow> int \<Rightarrow> int \<Rightarrow> 'a res \<times> 's \<Rightarrow> 's world \<Rightarrow> 's world res" where
  "record_call env r name x latency n call wd =
     (let (out, s) = call; wd1 = wd\<lparr>wd_store := s\<rparr> in
      if out = Panic then Panic
      else case env_record env r (client_event name x latency n (res_error out)) wd1 of
             (Ok _, wd2) \<Rightarrow> Ok wd2
           | (Err e, wd2) \<Rightarrow> Err e
           | (Panic, wd2) \<Rightarrow> Panic)"

lemma record_call_store:
  assumes "record_call env r name x latency n call wd = Ok wd'"
  shows "wd_store wd' = snd call"
  using assms by (cases "en_recorder env") (auto simp: record_call_def env_record_def Let_def split: prod.splits if_splits)

lemma record_call_calls:
  assumes "record_call env r name x latency n call wd = Ok wd'" "en_recorder env = Rec_collector"
  shows "wd_calls wd' = wd_calls wd @ [Record_on r (client_event name x latency n (res_error (fst call)))]"
  using assms by (auto simp: record_call_def env_record_def Let_def split: prod.splits if_splits)

lemma record_call_Ok:
  assumes "fst call \<noteq> Panic" "en_recorder env \<noteq> Rec_nil"
  shows "\<exists>wd'. record_call env r name x latency n call wd = Ok wd'"
  using assms by (cases "en_recorder env") (auto simp: record_call_def env_record_def Let_def split: prod.splits)

lemma record_call_nil: "en_recorder env = Rec_nil \<Longrightarrow> record_call env r name x latency n call wd = Panic"
  by (simp add: record_call_def env_record_def Let_def split: prod.splits)

definition after_call :: "'w \<Rightarrow> 'k \<Rightarrow> 's world res \<Rightarrow> ('w \<times> 'k \<times> 's world) res" where
  "after_call w k r = (case r of Ok wd \<Rightarrow> Ok (w, k, wd) | Err e \<Rightarrow> Err e | Panic \<Rightarrow> Panic)"

lemma after_call_Ok [simp]: "after_call w k r = Ok (w', k', wd) \<longleftrightarrow> r = Ok wd \<and> w' = w \<and> k' = k"
  by (auto simp: after_call_def split: res.splits)

subsection \<open>Workers\<close>

text \<open>The workers ask for their shards as they start.\<close>

fun shard_all :: "env \<Rightarrow> nat list \<Rightarrow> 's world \<Rightarrow> 's world res" where
  "shard_all env [] wd = Ok wd"
| "shard_all env (i # is) wd =
     (case env_shard_for env (int i) wd of
        (Ok _, wd') \<Rightarrow> shard_all env is wd'
      | (Err e, wd') \<Rightarrow> Err e
      | (Panic, wd') \<Rightarrow> Panic)"

lemma shard_all_store: "shard_all env is wd = Ok wd' \<Longrightarrow> wd_store wd' = wd_store wd"
proof (induction "is" arbitrary: wd)
  case (Cons i "is")
  then show ?case
    by (cases "en_recorder env") (auto simp: env_shard_for_def dest!: Cons.IH)
qed simp

lemma shard_all_recorded: "shard_all env is wd = Ok wd' \<Longrightarrow> recorded (wd_calls wd') = recorded (wd_calls wd)"
proof (induction "is" arbitrary: wd)
  case (Cons i "is")
  then show ?case
    by (cases "en_recorder env") (auto simp: env_shard_for_def recorded_append dest!: Cons.IH)
qed simp

lemma shard_all_ok: "en_recorder env \<noteq> Rec_nil \<Longrightarrow> \<exists>wd'. shard_all env is wd = Ok wd'"
  by (induction "is" arbitrary: wd) (auto simp: env_shard_for_def split: env_recorder.splits)

record ('w, 'k, 's) crew =
  cw_wl :: 'w
  cw_world :: "'s world"
  cw_workers :: "'k list"

type_synonym ('w, 'k, 's) act = "nat \<Rightarrow> int \<Rightarrow> 'w \<Rightarrow> 'k \<Rightarrow> 's world \<Rightarrow> ('w \<times> 'k \<times> 's world) res"

text \<open>A label names the worker that moves and the latency that its clock will show, should it make
  a call. A worker that does not exist does nothing.\<close>

definition crew_step :: "('w, 'k, 's) act \<Rightarrow> nat \<times> int \<Rightarrow> ('w, 'k, 's) crew \<Rightarrow> ('w, 'k, 's) crew res" where
  "crew_step act l st =
     (if fst l < length (cw_workers st) then
        case act (fst l) (snd l) (cw_wl st) (cw_workers st ! fst l) (cw_world st) of
          Ok (w, k, wd) \<Rightarrow> Ok \<lparr>cw_wl = w, cw_world = wd, cw_workers = (cw_workers st)[fst l := k]\<rparr>
        | Err e \<Rightarrow> Err e
        | Panic \<Rightarrow> Panic
      else Ok st)"

fun crew_exec :: "('w, 'k, 's) act \<Rightarrow> (nat \<times> int) list \<Rightarrow> ('w, 'k, 's) crew \<Rightarrow> ('w, 'k, 's) crew res" where
  "crew_exec act [] st = Ok st"
| "crew_exec act (l # ls) st =
     (case crew_step act l st of
        Ok st' \<Rightarrow> crew_exec act ls st'
      | Err e \<Rightarrow> Err e
      | Panic \<Rightarrow> Panic)"

text \<open>An invariant of the single steps, which may count them, holds after any schedule; if under it
  no step fails, the schedule runs to its end.\<close>

lemma crew_exec_inv:
  assumes "crew_exec act ls st = Ok st'" and "I n (cw_wl st) (cw_workers st) (cw_world st)"
    and idle: "\<And>m w ks wd. I m w ks wd \<Longrightarrow> I (Suc m) w ks wd"
    and step: "\<And>m i latency w ks wd w' k wd'. I m w ks wd \<Longrightarrow> m < n + length ls \<Longrightarrow> i < length ks \<Longrightarrow>
      act i latency w (ks ! i) wd = Ok (w', k, wd') \<Longrightarrow> I (Suc m) w' (ks[i := k]) wd'"
  shows "I (n + length ls) (cw_wl st') (cw_workers st') (cw_world st')"
  using assms(1,2) step
proof (induction ls arbitrary: st n)
  case (Cons l ls)
  from Cons.prems(1) obtain st1 where st1: "crew_step act l st = Ok st1" "crew_exec act ls st1 = Ok st'"
    by (auto split: res.splits)
  have "I (Suc n) (cw_wl st1) (cw_workers st1) (cw_world st1)"
  proof (cases "fst l < length (cw_workers st)")
    case True
    then obtain w k wd where "act (fst l) (snd l) (cw_wl st) (cw_workers st ! fst l) (cw_world st) = Ok (w, k, wd)"
      "st1 = \<lparr>cw_wl = w, cw_world = wd, cw_workers = (cw_workers st)[fst l := k]\<rparr>"
      using st1(1) by (auto simp: crew_step_def split: res.splits)
    then show ?thesis using Cons.prems(3) [OF Cons.prems(2) _ True] by simp
  next
    case False
    then show ?thesis using st1(1) idle [OF Cons.prems(2)] by (simp add: crew_step_def)
  qed
  then have "I (Suc n + length ls) (cw_wl st') (cw_workers st') (cw_world st')"
    by (rule Cons.IH [OF st1(2)]) (rule Cons.prems(3), simp_all)
  then show ?case by simp
qed simp

lemma crew_exec_ok:
  assumes "I n (cw_wl st) (cw_workers st) (cw_world st)"
    and idle: "\<And>m w ks wd. I m w ks wd \<Longrightarrow> I (Suc m) w ks wd"
    and step: "\<And>m i latency w ks wd. I m w ks wd \<Longrightarrow> m < n + length ls \<Longrightarrow> i < length ks \<Longrightarrow>
      \<exists>w' k wd'. act i latency w (ks ! i) wd = Ok (w', k, wd') \<and> I (Suc m) w' (ks[i := k]) wd'"
  shows "\<exists>st'. crew_exec act ls st = Ok st' \<and> I (n + length ls) (cw_wl st') (cw_workers st') (cw_world st')"
  using assms(1) step
proof (induction ls arbitrary: st n)
  case (Cons l ls)
  have "\<exists>st1. crew_step act l st = Ok st1 \<and> I (Suc n) (cw_wl st1) (cw_workers st1) (cw_world st1)"
  proof (cases "fst l < length (cw_workers st)")
    case True
    then obtain w k wd where "act (fst l) (snd l) (cw_wl st) (cw_workers st ! fst l) (cw_world st) = Ok (w, k, wd)"
      "I (Suc n) w ((cw_workers st)[fst l := k]) wd"
      using Cons.prems(2) [OF Cons.prems(1) _ True] by fastforce
    then show ?thesis using True by (simp add: crew_step_def)
  next
    case False
    then show ?thesis using idle [OF Cons.prems(1)] by (simp add: crew_step_def)
  qed
  then obtain st1 where st1: "crew_step act l st = Ok st1" "I (Suc n) (cw_wl st1) (cw_workers st1) (cw_world st1)"
    by blast
  have "\<exists>st'. crew_exec act ls st1 = Ok st' \<and> I (Suc n + length ls) (cw_wl st') (cw_workers st') (cw_world st')"
    by (rule Cons.IH [OF st1(2)]) (rule Cons.prems(2), simp_all)
  then show ?case using st1(1) by simp
qed simp

subsection \<open>Cleanup\<close>

text \<open>The cleanup loop: a key that is gone already is not an error.\<close>

fun delete_keys :: "'s client \<Rightarrow> string list \<Rightarrow> 's \<Rightarrow> unit res \<times> 's" where
  "delete_keys cl [] s = (Ok (), s)"
| "delete_keys cl (k # ks) s =
     (case cl_delete cl k s of
        (Ok _, s) \<Rightarrow> delete_keys cl ks s
      | (Err e, s) \<Rightarrow> if is_not_found e then delete_keys cl ks s else (Err e, s)
      | (Panic, s) \<Rightarrow> (Panic, s))"

context reliable_store
begin

lemma delete_keys_calm:
  assumes "calm s"
  shows "\<exists>s'. delete_keys cl ks s = (Ok (), s') \<and> calm s' \<and>
    view s' = (\<lambda>x. if x \<in> addr ` set ks then None else view s x)"
  using assms
proof (induction ks arbitrary: s)
  case (Cons k ks)
  obtain out s1 where del: "cl_delete cl k s = (out, s1)" by fastforce
  have c1: "calm s1" using delete_calm [OF Cons.prems, of k] del by simp
  have v1: "view s1 = (view s)(addr k := None)" using delete_view [OF Cons.prems, of k] del by simp
  have ok: "out = Ok () \<or> (\<exists>e. out = Err e \<and> is_not_found e)"
    using delete_ok [OF Cons.prems, of k] delete_missing [OF Cons.prems, of k] del by fastforce
  obtain s' where s': "delete_keys cl ks s1 = (Ok (), s')" "calm s'"
    "view s' = (\<lambda>x. if x \<in> addr ` set ks then None else view s1 x)"
    using Cons.IH [OF c1] by blast
  have "delete_keys cl (k # ks) s = (Ok (), s')"
    using ok s'(1) by (auto simp: del)
  moreover have "view s' = (\<lambda>x. if x \<in> addr ` set (k # ks) then None else view s x)"
    unfolding s'(3) v1 by (rule ext) simp
  ultimately show ?case using s'(2) by blast
qed simp

end

end
