(* ===== verification/Object_Workloads.thy ===== *)
theory Object_Workloads
  imports Crew
begin

section \<open>Small and large objects (\<open>internal/workload/smallobj\<close>, \<open>largeobj\<close>)\<close>

text \<open>
  The two workloads differ in their defaults, their key scheme, and the two client calls they make;
  their workers are the same loop around one atomic counter. A worker is a program counter: at the
  loop head, or between choosing a key and making the call. A run is a schedule, the list of the
  workers' steps in the order in which they take effect; each atomic access of the counter and each
  client call is one step, so every interleaving of the goroutines is a schedule. Cancellation ends
  a run at any point where all workers are at the loop head.
\<close>

datatype obj_kind = Small_object | Large_object

record object_wl =
  ow_name :: string
  ow_key_prefix :: string
  ow_size :: int
  ow_ratio :: real
  ow_written :: int

fun default_ratio :: "obj_kind \<Rightarrow> real" where
  "default_ratio Small_object = 1 / 2"
| "default_ratio Large_object = 0"

fun key_suffix :: "obj_kind \<Rightarrow> string" where
  "key_suffix Small_object = ''/k-''"
| "key_suffix Large_object = ''/obj-''"

fun kind_label :: "obj_kind \<Rightarrow> string" where
  "kind_label Small_object = ''smallobj''"
| "kind_label Large_object = ''largeobj''"

definition object_factory :: "obj_kind \<Rightarrow> object_wl factory" where
  "object_factory kind w =
     (if we_object_size w \<le> 0
      then Err (Plain_error (kind_label kind @ '' '' @ we_name w @ '': object_size must be >0''))
      else let ratio = (case map_of (we_params w) ''read_ratio'' of
                          Some (Y_float r) \<Rightarrow> of_rat r | _ \<Rightarrow> default_ratio kind)
           in Ok \<lparr>ow_name = we_name w, ow_key_prefix = we_name w @ key_suffix kind,
                  ow_size = we_object_size w, ow_ratio = ratio, ow_written = 0\<rparr>)"

definition key_for :: "object_wl \<Rightarrow> int \<Rightarrow> string" where
  "key_for w n = ow_key_prefix w @ format_int n"

fun obj_write :: "obj_kind \<Rightarrow> 's client \<Rightarrow> string \<Rightarrow> bytes \<Rightarrow> int \<Rightarrow> 's \<Rightarrow> unit res \<times> 's" where
  "obj_write Small_object cl = cl_put cl"
| "obj_write Large_object cl = cl_multipart cl"

fun obj_read :: "obj_kind \<Rightarrow> 's client \<Rightarrow> object_wl \<Rightarrow> string \<Rightarrow> 's \<Rightarrow> bytes res \<times> 's" where
  "obj_read Small_object cl w k = cl_get cl k"
| "obj_read Large_object cl w k = cl_range_get cl k 0 (ow_size w)"

fun write_op :: "obj_kind \<Rightarrow> op" where
  "write_op Small_object = OpPut"
| "write_op Large_object = OpMultipartComplete"

fun read_op :: "obj_kind \<Rightarrow> op" where
  "read_op Small_object = OpGet"
| "read_op Large_object = OpRangeGet"

definition obj_prepopulate ::
  "obj_kind \<Rightarrow> bytes \<Rightarrow> 's client \<Rightarrow> object_wl \<Rightarrow> 's world \<Rightarrow> unit res \<times> object_wl \<times> 's world" where
  "obj_prepopulate kind entropy cl w wd =
     (case obj_write kind cl (key_for w 0) (body entropy (ow_size w)) (ow_size w) (wd_store wd) of
        (Ok _, s) \<Rightarrow> (Ok (), w\<lparr>ow_written := 1\<rparr>, wd\<lparr>wd_store := s\<rparr>)
      | (Err e, s) \<Rightarrow> (Err e, w, wd\<lparr>wd_store := s\<rparr>)
      | (Panic, s) \<Rightarrow> (Panic, w, wd\<lparr>wd_store := s\<rparr>))"

subsection \<open>Workers\<close>

datatype worker_pc = At_loop | In_read string | In_write string

record 's obj_run =
  or_wl :: object_wl
  or_world :: "'s world"
  or_pcs :: "worker_pc list"
  or_rngs :: "rng list"

text \<open>One round of the loop up to the client call: the draw, then the load of the counter and the
  choice of an index, or the atomic increment that claims one.\<close>

definition loop_step :: "nat \<Rightarrow> 's obj_run \<Rightarrow> 's obj_run res" where
  "loop_step i st =
     (let w = or_wl st; (f, r1) = float64 (or_rngs st ! i) in
      if f < ow_ratio w then
        let cnt = ow_written w in
        if cnt = 0 then Ok (st\<lparr>or_rngs := (or_rngs st)[i := r1]\<rparr>)
        else case int63n cnt r1 of
               (Ok k, r2) \<Rightarrow> Ok (st\<lparr>or_rngs := (or_rngs st)[i := r2],
                                  or_pcs := (or_pcs st)[i := In_read (key_for w k)]\<rparr>)
             | (Err e, r2) \<Rightarrow> Err e
             | (Panic, r2) \<Rightarrow> Panic
      else
        let n = wrap64 (ow_written w + 1) in
        Ok (st\<lparr>or_rngs := (or_rngs st)[i := r1], or_wl := w\<lparr>ow_written := n\<rparr>,
               or_pcs := (or_pcs st)[i := In_write (key_for w (wrap64 (n - 1)))]\<rparr>))"

definition finish_call :: "env \<Rightarrow> nat \<Rightarrow> event \<Rightarrow> 's \<Rightarrow> 's obj_run \<Rightarrow> 's obj_run res" where
  "finish_call env i e s st =
     (case env_record env (Some (int i)) e ((or_world st)\<lparr>wd_store := s\<rparr>) of
        (Ok _, wd) \<Rightarrow> Ok (st\<lparr>or_world := wd, or_pcs := (or_pcs st)[i := At_loop]\<rparr>)
      | (Err err, _) \<Rightarrow> Err err
      | (Panic, _) \<Rightarrow> Panic)"

definition call_step ::
  "obj_kind \<Rightarrow> bytes \<Rightarrow> 's client \<Rightarrow> env \<Rightarrow> nat \<Rightarrow> int \<Rightarrow> 's obj_run \<Rightarrow> 's obj_run res" where
  "call_step kind entropy cl env i latency st =
     (let w = or_wl st; store = wd_store (or_world st) in
      case or_pcs st ! i of
        At_loop \<Rightarrow> Ok st
      | In_read k \<Rightarrow>
          (let (out, s) = obj_read kind cl w k store in
           if out = Panic then Panic
           else finish_call env i (client_event (ow_name w) (read_op kind) latency (read_bytes out) (res_error out)) s st)
      | In_write k \<Rightarrow>
          (let (out, s) = obj_write kind cl k (body entropy (ow_size w)) (ow_size w) store in
           if out = Panic then Panic
           else finish_call env i (client_event (ow_name w) (write_op kind) latency (ow_size w) (res_error out)) s st))"

datatype obj_label = Loop nat | Call nat int

fun obj_step ::
  "obj_kind \<Rightarrow> bytes \<Rightarrow> 's client \<Rightarrow> env \<Rightarrow> obj_label \<Rightarrow> 's obj_run \<Rightarrow> 's obj_run res" where
  "obj_step kind entropy cl env (Loop i) st =
     (if i < length (or_pcs st) \<and> or_pcs st ! i = At_loop then loop_step i st else Ok st)"
| "obj_step kind entropy cl env (Call i latency) st =
     (if i < length (or_pcs st) then call_step kind entropy cl env i latency st else Ok st)"

fun obj_exec ::
  "obj_kind \<Rightarrow> bytes \<Rightarrow> 's client \<Rightarrow> env \<Rightarrow> obj_label list \<Rightarrow> 's obj_run \<Rightarrow> 's obj_run res" where
  "obj_exec kind entropy cl env [] st = Ok st"
| "obj_exec kind entropy cl env (l # ls) st =
     (case obj_step kind entropy cl env l st of
        Ok st' \<Rightarrow> obj_exec kind entropy cl env ls st'
      | Err e \<Rightarrow> Err e
      | Panic \<Rightarrow> Panic)"

definition obj_start ::
  "obj_kind \<Rightarrow> (int \<Rightarrow> rng) \<Rightarrow> env \<Rightarrow> object_wl \<Rightarrow> 's world \<Rightarrow> 's obj_run res" where
  "obj_start kind source env w wd =
     (if en_threads env \<le> 0
      then Err (Plain_error (kind_label kind @ '' '' @ ow_name w @ '': threads must be >0''))
      else case shard_all env [0..<nat (en_threads env)] wd of
             Ok wd' \<Rightarrow> Ok \<lparr>or_wl = w, or_world = wd', or_pcs = replicate (nat (en_threads env)) At_loop,
                         or_rngs = map (\<lambda>i. worker_rand source (Some env) (int i)) [0..<nat (en_threads env)]\<rparr>
           | Err e \<Rightarrow> Err e
           | Panic \<Rightarrow> Panic)"

text \<open>\<open>Run\<close> under a schedule: \<open>None\<close> if the schedule stops with a worker inside a call.\<close>

definition object_run ::
  "obj_kind \<Rightarrow> bytes \<Rightarrow> (int \<Rightarrow> rng) \<Rightarrow> 's client \<Rightarrow> env \<Rightarrow> obj_label list \<Rightarrow> object_wl \<Rightarrow> 's world
     \<Rightarrow> (object_wl \<times> 's world) res option" where
  "object_run kind entropy source cl env ls w wd =
     (case obj_start kind source env w wd of
        Err e \<Rightarrow> Some (Err e)
      | Panic \<Rightarrow> Some Panic
      | Ok st0 \<Rightarrow>
          (case obj_exec kind entropy cl env ls st0 of
             Err e \<Rightarrow> Some (Err e)
           | Panic \<Rightarrow> Some Panic
           | Ok st \<Rightarrow> if \<forall>pc \<in> set (or_pcs st). pc = At_loop
                     then Some (Ok (or_wl st, or_world st)) else None))"

definition obj_cleanup :: "'s client \<Rightarrow> object_wl \<Rightarrow> 's world \<Rightarrow> unit res \<times> 's world" where
  "obj_cleanup cl w wd =
     (case delete_keys cl (map (\<lambda>i. key_for w (int i)) [0..<nat (ow_written w)]) (wd_store wd) of
        (out, s) \<Rightarrow> (out, wd\<lparr>wd_store := s\<rparr>))"

subsection \<open>The invariant of a run\<close>

fun writing :: "worker_pc \<Rightarrow> bool" where
  "writing (In_write k) = True"
| "writing _ = False"

definition pending :: "worker_pc list \<Rightarrow> nat" where
  "pending pcs = size (filter_mset writing (mset pcs))"

lemma pending_update:
  assumes "i < length pcs"
  shows "pending (pcs[i := pc]) + (if writing (pcs ! i) then 1 else 0) = pending pcs + (if writing pc then 1 else 0)"
proof -
  have "pcs ! i \<in># mset pcs" using assms by simp
  then obtain M where "mset pcs = add_mset (pcs ! i) M" by (metis mset_add)
  with assms show ?thesis by (simp add: pending_def mset_update)
qed

definition write_calls :: "obj_kind \<Rightarrow> collector_call list \<Rightarrow> nat" where
  "write_calls kind cs = length (filter (\<lambda>e. ev_op e = write_op kind) (recorded cs))"

lemma write_calls_simps [simp]:
  "write_calls kind (cs @ [Record_on r e]) = write_calls kind cs + (if ev_op e = write_op kind then 1 else 0)"
  "write_calls kind (cs @ [Shard_for i]) = write_calls kind cs"
  by (simp_all add: write_calls_def recorded_append)

lemma op_kind [simp]: "read_op kind \<noteq> write_op kind"
  by (cases kind) simp_all

text \<open>\<open>n0\<close> and \<open>c0\<close> are the counter and the recorded write calls at the start, \<open>w0\<close> the workload.\<close>

definition obj_inv ::
  "obj_kind \<Rightarrow> env \<Rightarrow> ('s \<Rightarrow> string \<Rightarrow> bytes option) \<Rightarrow> (string \<Rightarrow> string) \<Rightarrow> object_wl \<Rightarrow> 's world \<Rightarrow> 's obj_run \<Rightarrow> bool"
where
  "obj_inv kind env view addr w0 wd0 st \<longleftrightarrow>
     (let n = ow_written (or_wl st); pcs = or_pcs st in
      or_wl st = w0\<lparr>ow_written := n\<rparr> \<and> ow_written w0 \<le> n \<and>
      (\<forall>i k. i < length pcs \<longrightarrow> pcs ! i = In_write k \<longrightarrow> (\<exists>j. ow_written w0 \<le> j \<and> j < n \<and> k = key_for w0 j)) \<and>
      (\<forall>i j k. i < length pcs \<longrightarrow> j < length pcs \<longrightarrow> i \<noteq> j \<longrightarrow> pcs ! i = In_write k \<longrightarrow> pcs ! j \<noteq> In_write k) \<and>
      (\<forall>x. view (wd_store (or_world st)) x \<noteq> view (wd_store wd0) x \<longrightarrow>
         (\<exists>j. ow_written w0 \<le> j \<and> j < n \<and> x = addr (key_for w0 j))) \<and>
      (en_recorder env = Rec_collector \<longrightarrow>
         n = ow_written w0 + int (pending pcs) +
             (int (write_calls kind (wd_calls (or_world st))) - int (write_calls kind (wd_calls wd0)))))"

lemma key_for_inject:
  "0 \<le> m \<Longrightarrow> 0 \<le> n \<Longrightarrow> key_for w m = key_for w n \<longleftrightarrow> m = n"
  by (simp add: key_for_def format_int_inject)

lemma key_for_written [simp]: "key_for (w\<lparr>ow_written := n\<rparr>) j = key_for w j"
  by (simp add: key_for_def)

text \<open>What a loop step does, with the draws abstracted.\<close>

lemma loop_step_cases:
  assumes "loop_step i st = Ok st'" "0 \<le> ow_written (or_wl st)" "ow_written (or_wl st) < 2 ^ 63 - 1"
  obtains (skip) "or_wl st' = or_wl st" "or_world st' = or_world st" "or_pcs st' = or_pcs st"
  | (read) k where "or_wl st' = or_wl st" "or_world st' = or_world st" "0 \<le> k" "k < ow_written (or_wl st)"
      "or_pcs st' = (or_pcs st)[i := In_read (key_for (or_wl st) k)]"
  | (claim) "or_wl st' = (or_wl st)\<lparr>ow_written := ow_written (or_wl st) + 1\<rparr>" "or_world st' = or_world st"
      "or_pcs st' = (or_pcs st)[i := In_write (key_for (or_wl st) (ow_written (or_wl st)))]"
proof -
  obtain f r1 where f: "float64 (or_rngs st ! i) = (f, r1)" by fastforce
  have wrap: "wrap64 (ow_written (or_wl st) + 1) = ow_written (or_wl st) + 1"
    "wrap64 (ow_written (or_wl st)) = ow_written (or_wl st)"
    using assms(2,3) by (simp_all add: in_int64_iff)
  show thesis
  proof (cases "f < ow_ratio (or_wl st)")
    case True
    show thesis
    proof (cases "ow_written (or_wl st) = 0")
      case z: True
      then have "st' = st\<lparr>or_rngs := (or_rngs st)[i := r1]\<rparr>"
        using assms(1) True f by (simp add: loop_step_def)
      then show thesis by (intro skip) simp_all
    next
      case nz: False
      obtain out r2 where d: "int63n (ow_written (or_wl st)) r1 = (out, r2)" by fastforce
      then obtain k where k: "out = Ok k" "0 \<le> k" "k < ow_written (or_wl st)"
        using nz assms(2) int63n_range by (cases out) (fastforce simp: int63n_def split: if_splits)+
      then have "st' = st\<lparr>or_rngs := (or_rngs st)[i := r2],
          or_pcs := (or_pcs st)[i := In_read (key_for (or_wl st) k)]\<rparr>"
        using assms(1) True f d nz by (simp add: loop_step_def)
      with k show thesis by (intro read [of k]) simp_all
    qed
  next
    case False
    then have "st' = st\<lparr>or_rngs := (or_rngs st)[i := r1],
        or_wl := (or_wl st)\<lparr>ow_written := ow_written (or_wl st) + 1\<rparr>,
        or_pcs := (or_pcs st)[i := In_write (key_for (or_wl st) (ow_written (or_wl st)))]\<rparr>"
      using assms(1) f wrap by (simp add: loop_step_def Let_def)
    then show thesis by (intro claim) simp_all
  qed
qed

text \<open>What a call step does: the worker returns to the loop, one call has reached the client and one
  event the recorder.\<close>

lemma finish_call_Ok:
  assumes "finish_call env i e s st = Ok st'"
  shows "or_wl st' = or_wl st \<and> or_pcs st' = (or_pcs st)[i := At_loop] \<and> wd_store (or_world st') = s \<and>
    (en_recorder env = Rec_collector \<longrightarrow>
       wd_calls (or_world st') = wd_calls (or_world st) @ [Record_on (Some (int i)) e])"
  using assms unfolding finish_call_def env_record_def by (cases "en_recorder env") auto

lemma call_step_cases:
  assumes "call_step kind entropy cl env i latency st = Ok st'"
  obtains (idle) "or_pcs st ! i = At_loop" "st' = st"
  | (reading) k e where "or_pcs st ! i = In_read k" "or_wl st' = or_wl st" "or_pcs st' = (or_pcs st)[i := At_loop]"
      "wd_store (or_world st') = snd (obj_read kind cl (or_wl st) k (wd_store (or_world st)))"
      "ev_op e = read_op kind"
      "en_recorder env = Rec_collector \<longrightarrow>
         wd_calls (or_world st') = wd_calls (or_world st) @ [Record_on (Some (int i)) e]"
  | (writing) k e b n where "or_pcs st ! i = In_write k" "or_wl st' = or_wl st" "or_pcs st' = (or_pcs st)[i := At_loop]"
      "wd_store (or_world st') = snd (obj_write kind cl k b n (wd_store (or_world st)))"
      "ev_op e = write_op kind"
      "en_recorder env = Rec_collector \<longrightarrow>
         wd_calls (or_world st') = wd_calls (or_world st) @ [Record_on (Some (int i)) e]"
proof (cases "or_pcs st ! i")
  case At_loop
  then have "st' = st" using assms by (simp add: call_step_def)
  with At_loop show thesis by (rule idle)
next
  case (In_read k)
  obtain out s where c: "obj_read kind cl (or_wl st) k (wd_store (or_world st)) = (out, s)" by fastforce
  let ?e = "client_event (ow_name (or_wl st)) (read_op kind) latency (read_bytes out) (res_error out)"
  have "finish_call env i ?e s st = Ok st'"
    using assms In_read c by (simp add: call_step_def Let_def split: if_splits)
  note f = finish_call_Ok [OF this]
  show thesis
  proof (rule reading)
    show "or_pcs st ! i = In_read k" by (rule In_read)
    show "ev_op ?e = read_op kind" by (simp add: client_event_def)
    show "wd_store (or_world st') = snd (obj_read kind cl (or_wl st) k (wd_store (or_world st)))"
      using f c by simp
  qed (use f in blast)+
next
  case (In_write k)
  let ?b = "body entropy (ow_size (or_wl st))"
  obtain out s where c: "obj_write kind cl k ?b (ow_size (or_wl st)) (wd_store (or_world st)) = (out, s)" by fastforce
  let ?e = "client_event (ow_name (or_wl st)) (write_op kind) latency (ow_size (or_wl st)) (res_error out)"
  have "finish_call env i ?e s st = Ok st'"
    using assms In_write c by (simp add: call_step_def Let_def split: if_splits)
  note f = finish_call_Ok [OF this]
  show thesis
  proof (rule writing)
    show "or_pcs st ! i = In_write k" by (rule In_write)
    show "ev_op ?e = write_op kind" by (simp add: client_event_def)
    show "wd_store (or_world st') =
        snd (obj_write kind cl k ?b (ow_size (or_wl st)) (wd_store (or_world st)))"
      using f c by simp
  qed (use f in blast)+
qed

lemma pc_update_writing:
  assumes "i < length pcs" "\<not> writing pc"
  shows "\<forall>j k. j < length pcs \<longrightarrow> pcs[i := pc] ! j = In_write k \<longrightarrow> pcs ! j = In_write k \<and> j \<noteq> i"
  using assms by (auto simp: nth_list_update)

lemma obj_invI:
  assumes wl: "or_wl st = w0\<lparr>ow_written := n\<rparr>" and le: "ow_written w0 \<le> n"
    and old: "\<And>j k. j < length (or_pcs st) \<Longrightarrow> or_pcs st ! j = In_write k \<Longrightarrow>
        \<exists>m. ow_written w0 \<le> m \<and> m < n \<and> k = key_for w0 m"
    and dist: "\<And>j l k. j < length (or_pcs st) \<Longrightarrow> l < length (or_pcs st) \<Longrightarrow> j \<noteq> l \<Longrightarrow>
        or_pcs st ! j = In_write k \<Longrightarrow> or_pcs st ! l \<noteq> In_write k"
    and touched: "\<And>x. view (wd_store (or_world st)) x \<noteq> view (wd_store wd0) x \<Longrightarrow>
        \<exists>j. ow_written w0 \<le> j \<and> j < n \<and> x = addr (key_for w0 j)"
    and cnt: "en_recorder env = Rec_collector \<Longrightarrow>
       n = ow_written w0 + int (pending (or_pcs st)) +
           (int (write_calls kind (wd_calls (or_world st))) - int (write_calls kind (wd_calls wd0)))"
  shows "obj_inv kind env view addr w0 wd0 st"
proof -
  have n: "ow_written (or_wl st) = n" using wl by simp
  show ?thesis
    unfolding obj_inv_def Let_def n
    by (intro conjI allI impI) (rule wl, rule le, erule (1) old, erule (3) dist, erule touched, erule cnt)
qed

lemma obj_invD:
  assumes "obj_inv kind env view addr w0 wd0 st"
  shows "or_wl st = w0\<lparr>ow_written := ow_written (or_wl st)\<rparr>" "ow_written w0 \<le> ow_written (or_wl st)"
    "\<And>j k. j < length (or_pcs st) \<Longrightarrow> or_pcs st ! j = In_write k \<Longrightarrow>
        \<exists>m. ow_written w0 \<le> m \<and> m < ow_written (or_wl st) \<and> k = key_for w0 m"
    "\<And>j l k. j < length (or_pcs st) \<Longrightarrow> l < length (or_pcs st) \<Longrightarrow> j \<noteq> l \<Longrightarrow>
        or_pcs st ! j = In_write k \<Longrightarrow> or_pcs st ! l \<noteq> In_write k"
    "\<And>x. view (wd_store (or_world st)) x \<noteq> view (wd_store wd0) x \<Longrightarrow>
        \<exists>j. ow_written w0 \<le> j \<and> j < ow_written (or_wl st) \<and> x = addr (key_for w0 j)"
    "en_recorder env = Rec_collector \<Longrightarrow>
       ow_written (or_wl st) = ow_written w0 + int (pending (or_pcs st)) +
           (int (write_calls kind (wd_calls (or_world st))) - int (write_calls kind (wd_calls wd0)))"
  using assms unfolding obj_inv_def Let_def by blast+

lemma obj_inv_quiet:
  assumes inv: "obj_inv kind env view addr w0 wd0 st" and i: "i < length (or_pcs st)"
    and pc: "\<not> writing pc" "\<not> writing (or_pcs st ! i)"
    and st': "or_wl st' = or_wl st" "or_pcs st' = (or_pcs st)[i := pc] \<or> or_pcs st' = or_pcs st"
      "view (wd_store (or_world st')) = view (wd_store (or_world st))"
      "en_recorder env = Rec_collector \<longrightarrow>
         write_calls kind (wd_calls (or_world st')) = write_calls kind (wd_calls (or_world st))"
  shows "obj_inv kind env view addr w0 wd0 st'"
proof -
  have sub: "j < length (or_pcs st) \<and> or_pcs st ! j = In_write k"
    if "j < length (or_pcs st')" "or_pcs st' ! j = In_write k" for j k
    using st'(2) that pc_update_writing [OF i pc(1)] by auto
  have "pending (or_pcs st') = pending (or_pcs st)"
    using st'(2) pending_update [OF i, of pc] pc by auto
  note same = this
  note D = obj_invD [OF inv]
  show ?thesis
  proof (rule obj_invI [where n = "ow_written (or_wl st)"])
    show "or_wl st' = w0\<lparr>ow_written := ow_written (or_wl st)\<rparr>" using D(1) st'(1) by simp
    show "or_pcs st' ! l \<noteq> In_write k"
      if "j < length (or_pcs st')" "l < length (or_pcs st')" "j \<noteq> l" "or_pcs st' ! j = In_write k" for j l k
      using D(4) [of j l k] sub [of j k] sub [of l k] that by blast
    show "ow_written (or_wl st) = ow_written w0 + int (pending (or_pcs st')) +
        (int (write_calls kind (wd_calls (or_world st'))) - int (write_calls kind (wd_calls wd0)))"
      if "en_recorder env = Rec_collector"
      using D(6) that st'(4) same by simp
    show "\<exists>m. ow_written w0 \<le> m \<and> m < ow_written (or_wl st) \<and> k = key_for w0 m"
      if "j < length (or_pcs st')" "or_pcs st' ! j = In_write k" for j k
      using D(3) [of j k] sub [OF that] by blast
  qed (use D(2,5) st'(3) in auto)
qed

context store_frame
begin

lemma obj_write_frame: "x \<noteq> addr k \<Longrightarrow> view (snd (obj_write kind cl k b n s)) x = view s x"
  by (cases kind) (simp_all add: put_frame multipart_frame)

lemma obj_read_frame: "view (snd (obj_read kind cl w k s)) = view s"
  by (cases kind) (simp_all add: get_frame range_frame)

lemma obj_inv_loop:
  assumes inv: "obj_inv kind env view addr w0 wd0 st" and i: "i < length (or_pcs st)"
    and pc: "or_pcs st ! i = At_loop" and step: "loop_step i st = Ok st'"
    and n: "0 \<le> ow_written w0" "ow_written (or_wl st) < 2 ^ 63 - 1"
  shows "obj_inv kind env view addr w0 wd0 st' \<and> ow_written (or_wl st') \<le> ow_written (or_wl st) + 1"
proof -
  have n0: "0 \<le> ow_written (or_wl st)" using inv n by (simp add: obj_inv_def Let_def)
  from step n0 n(2) show ?thesis
  proof (cases rule: loop_step_cases)
    case skip
    then show ?thesis using obj_inv_quiet [OF inv i, of At_loop st'] pc by simp
  next
    case (read k)
    then show ?thesis
      using obj_inv_quiet [OF inv i, of "In_read (key_for (or_wl st) k)" st'] pc by simp
  next
    case claim
    define n where "n = ow_written (or_wl st)"
    note D = obj_invD [OF inv, folded n_def]
    have wl: "or_wl st = w0\<lparr>ow_written := n\<rparr>" "ow_written w0 \<le> n" using D(1,2) by blast+
    have pcs': "or_pcs st' = (or_pcs st)[i := In_write (key_for w0 n)]" and wl': "or_wl st' = w0\<lparr>ow_written := n + 1\<rparr>"
      using claim(1,3) unfolding n_def [symmetric] unfolding wl(1) by simp_all
    have new: "or_pcs st ! j \<noteq> In_write (key_for w0 n)" if "j < length (or_pcs st)" for j
    proof
      assume "or_pcs st ! j = In_write (key_for w0 n)"
      from D(3) [OF that this] obtain m where "ow_written w0 \<le> m" "m < n" "key_for w0 n = key_for w0 m" by blast
      then show False using key_for_inject [of n m w0] assms(5) wl(2) by simp
    qed
    have same: "pending (or_pcs st') = pending (or_pcs st) + 1"
      using pending_update [OF i, of "In_write (key_for w0 n)"] pc pcs' by simp
    have "obj_inv kind env view addr w0 wd0 st'"
    proof (rule obj_invI [where n = "n + 1"])
      show "or_wl st' = w0\<lparr>ow_written := n + 1\<rparr>" by (rule wl')
      show "ow_written w0 \<le> n + 1" using wl(2) by simp
      show "n + 1 = ow_written w0 + int (pending (or_pcs st')) +
          (int (write_calls kind (wd_calls (or_world st'))) - int (write_calls kind (wd_calls wd0)))"
        if "en_recorder env = Rec_collector"
        using D(6) that same claim(2) by simp
      show "\<exists>m. ow_written w0 \<le> m \<and> m < n + 1 \<and> k = key_for w0 m"
        if "j < length (or_pcs st')" "or_pcs st' ! j = In_write k" for j k
      proof (cases "j = i")
        case True
        then show ?thesis using that pcs' wl(2) by (intro exI [of _ n]) simp
      next
        case False
        then show ?thesis using that pcs' D(3) [of j k] by force
      qed
      show "or_pcs st' ! l \<noteq> In_write k"
        if "j < length (or_pcs st')" "l < length (or_pcs st')" "j \<noteq> l" "or_pcs st' ! j = In_write k" for j l k
      proof (cases "j = i")
        case True
        then have "k = key_for w0 n" "or_pcs st' ! l = or_pcs st ! l" using that pcs' i by auto
        then show ?thesis using new [of l] that(2) pcs' by simp
      next
        case False
        then have j: "or_pcs st ! j = In_write k" "j < length (or_pcs st)" using that pcs' by auto
        show ?thesis
        proof (cases "l = i")
          case True
          then show ?thesis using j new [of j] pcs' i by auto
        next
          case False
          then show ?thesis using D(4) [OF j(2) _ that(3) j(1)] that(2) pcs' by simp
        qed
      qed
      show "\<exists>j. ow_written w0 \<le> j \<and> j < n + 1 \<and> x = addr (key_for w0 j)"
        if "view (wd_store (or_world st')) x \<noteq> view (wd_store wd0) x" for x
        using D(5) [of x] that claim(2) by force
    qed
    then show ?thesis using wl' by (simp add: n_def)
  qed
qed

lemma obj_inv_call:
  assumes inv: "obj_inv kind env view addr w0 wd0 st" and i: "i < length (or_pcs st)"
    and step: "call_step kind entropy cl env i latency st = Ok st'"
  shows "obj_inv kind env view addr w0 wd0 st' \<and> or_wl st' = or_wl st"
  using step
proof (cases rule: call_step_cases)
  case idle
  with inv show ?thesis by simp
next
  case (reading k e)
  then show ?thesis
    using obj_inv_quiet [OF inv i, of At_loop st'] by (simp add: obj_read_frame)
next
  case (writing k e b m)
  note D = obj_invD [OF inv]
  have sub: "j < length (or_pcs st) \<and> or_pcs st ! j = In_write k"
    if "j < length (or_pcs st')" "or_pcs st' ! j = In_write k" for j k
    using writing(3) that pc_update_writing [OF i, of At_loop] by auto
  have same: "pending (or_pcs st') + 1 = pending (or_pcs st)"
    using pending_update [OF i, of At_loop] writing(1,3) by simp
  have "obj_inv kind env view addr w0 wd0 st'"
  proof (rule obj_invI [where n = "ow_written (or_wl st)"])
    show "or_wl st' = w0\<lparr>ow_written := ow_written (or_wl st)\<rparr>" using D(1) writing(2) by simp
    show "ow_written (or_wl st) = ow_written w0 + int (pending (or_pcs st')) +
        (int (write_calls kind (wd_calls (or_world st'))) - int (write_calls kind (wd_calls wd0)))"
      if "en_recorder env = Rec_collector"
      using D(6) [OF that] that writing(5,6) same by simp
    show "\<exists>j. ow_written w0 \<le> j \<and> j < ow_written (or_wl st) \<and> x = addr (key_for w0 j)"
      if "view (wd_store (or_world st')) x \<noteq> view (wd_store wd0) x" for x
    proof (cases "x = addr k")
      case True
      with D(3) [OF i writing(1)] show ?thesis by blast
    next
      case False
      then show ?thesis using D(5) [of x] that writing(4) by (simp add: obj_write_frame)
    qed
    show "or_pcs st' ! l \<noteq> In_write k"
      if "j < length (or_pcs st')" "l < length (or_pcs st')" "j \<noteq> l" "or_pcs st' ! j = In_write k" for j l k
      using D(4) [of j l k] sub [of j k] sub [of l k] that by blast
    show "\<exists>m. ow_written w0 \<le> m \<and> m < ow_written (or_wl st) \<and> k = key_for w0 m"
      if "j < length (or_pcs st')" "or_pcs st' ! j = In_write k" for j k
      using D(3) [of j k] sub [OF that] by blast
  qed (use D(2) in auto)
  then show ?thesis using writing(2) by simp
qed

lemma obj_inv_exec:
  assumes "obj_inv kind env view addr w0 wd0 st" "obj_exec kind entropy cl env ls st = Ok st'"
    "0 \<le> ow_written w0" "ow_written (or_wl st) + int (length ls) < 2 ^ 63"
  shows "obj_inv kind env view addr w0 wd0 st'"
  using assms
proof (induction ls arbitrary: st)
  case (Cons l ls)
  from Cons.prems(2) obtain st1 where st1: "obj_step kind entropy cl env l st = Ok st1"
    "obj_exec kind entropy cl env ls st1 = Ok st'" by (auto split: res.splits)
  have "obj_inv kind env view addr w0 wd0 st1 \<and> ow_written (or_wl st1) \<le> ow_written (or_wl st) + 1"
  proof (cases l)
    case (Loop i)
    then show ?thesis
      using st1(1) Cons.prems obj_inv_loop [OF Cons.prems(1), of i st1] by (auto split: if_splits)
  next
    case (Call i latency)
    then show ?thesis
      using st1(1) Cons.prems obj_inv_call [OF Cons.prems(1), of i] by (auto split: if_splits)
  qed
  with Cons.IH [of st1] st1(2) Cons.prems show ?case by simp
qed simp

end

lemma shard_all_frame:
  assumes "shard_all env is wd = Ok wd'"
  shows "wd_store wd' = wd_store wd \<and> write_calls kind (wd_calls wd') = write_calls kind (wd_calls wd)"
  using assms
proof (induction "is" arbitrary: wd)
  case (Cons i "is")
  then show ?case
    by (cases "en_recorder env") (auto simp: env_shard_for_def dest!: Cons.IH)
qed simp

lemma obj_start_inv:
  assumes "obj_start kind source env w wd = Ok st"
  shows "obj_inv kind env view addr w wd st \<and> or_wl st = w \<and> wd_store (or_world st) = wd_store wd"
proof -
  obtain wd' where wd': "shard_all env [0..<nat (en_threads env)] wd = Ok wd'"
    and st: "or_wl st = w" "or_world st = wd'" "or_pcs st = replicate (nat (en_threads env)) At_loop"
    using assms by (auto simp: obj_start_def split: if_splits res.splits)
  have "pending (or_pcs st) = 0" using st by (simp add: pending_def)
  moreover have "wd_store wd' = wd_store wd" "write_calls kind (wd_calls wd') = write_calls kind (wd_calls wd)"
    using shard_all_frame [OF wd'] by blast+
  ultimately show ?thesis
    using st by (auto simp: obj_inv_def Let_def)
qed

lemma loop_step_world: "loop_step i st = Ok st' \<Longrightarrow> or_world st' = or_world st"
  by (auto simp: loop_step_def Let_def split: prod.splits if_splits res.splits)

context reliable_store
begin

lemma obj_calm:
  assumes "calm s"
  shows "calm (snd (obj_write kind cl k b n s))" "calm (snd (obj_read kind cl w k s))"
  using assms by (cases kind; simp add: calm_steps)+

lemma call_step_calm:
  assumes "call_step kind entropy cl env i latency st = Ok st'" "calm (wd_store (or_world st))"
  shows "calm (wd_store (or_world st'))"
  using assms(1) by (cases rule: call_step_cases) (use assms(2) in \<open>simp_all add: obj_calm\<close>)

lemma obj_exec_calm:
  assumes "obj_exec kind entropy cl env ls st = Ok st'" "calm (wd_store (or_world st))"
  shows "calm (wd_store (or_world st'))"
  using assms
proof (induction ls arbitrary: st)
  case (Cons l ls)
  from Cons.prems(1) obtain st1 where st1: "obj_step kind entropy cl env l st = Ok st1"
    "obj_exec kind entropy cl env ls st1 = Ok st'" by (auto split: res.splits)
  have "calm (wd_store (or_world st1))"
    using st1(1) Cons.prems(2)
    by (cases l) (auto simp: loop_step_world call_step_calm split: if_splits)
  with Cons.IH st1(2) show ?case by blast
qed simp

lemma object_run_cleanup:
  assumes "calm (wd_store wd)" "0 \<le> ow_written w" "ow_written w + int (length ls) < 2 ^ 63"
    and run: "object_run kind entropy source cl env ls w wd = Some (Ok (w', wd'))"
  shows "\<exists>wd''. obj_cleanup cl w' wd' = (Ok (), wd'') \<and>
    (\<forall>x. view (wd_store wd'') x =
      (if \<exists>j. 0 \<le> j \<and> j < ow_written w' \<and> x = addr (key_for w j) then None else view (wd_store wd) x))"
proof -
  obtain st0 st where st: "obj_start kind source env w wd = Ok st0"
    "obj_exec kind entropy cl env ls st0 = Ok st" "w' = or_wl st" "wd' = or_world st"
    using run by (auto simp: object_run_def split: res.splits if_splits)
  note start = obj_start_inv [OF st(1), of view addr]
  then have inv: "obj_inv kind env view addr w wd st"
    using obj_inv_exec [OF _ st(2)] assms(2,3) by simp
  have "calm (wd_store wd')" using obj_exec_calm [OF st(2)] start assms(1) st(4) by simp
  then obtain s' where s': "delete_keys cl (map (\<lambda>i. key_for w' (int i)) [0..<nat (ow_written w')]) (wd_store wd') = (Ok (), s')"
    "view s' = (\<lambda>x. if x \<in> addr ` set (map (\<lambda>i. key_for w' (int i)) [0..<nat (ow_written w')])
        then None else view (wd_store wd') x)"
    using delete_keys_calm by blast
  have key: "key_for w' j = key_for w j" for j
    using obj_invD(1) [OF inv] st(3) by (metis key_for_written)
  have mem: "x \<in> addr ` set (map (\<lambda>i. key_for w' (int i)) [0..<nat (ow_written w')]) \<longleftrightarrow>
      (\<exists>j. 0 \<le> j \<and> j < ow_written w' \<and> x = addr (key_for w j))" for x
  proof
    assume "\<exists>j. 0 \<le> j \<and> j < ow_written w' \<and> x = addr (key_for w j)"
    then obtain j where "0 \<le> j" "j < ow_written w'" "x = addr (key_for w j)" by blast
    then have "nat j \<in> set [0..<nat (ow_written w')]" "x = addr (key_for w' (int (nat j)))" by (simp_all add: key)
    then show "x \<in> addr ` set (map (\<lambda>i. key_for w' (int i)) [0..<nat (ow_written w')])"
      unfolding set_map by blast
  next
    assume "x \<in> addr ` set (map (\<lambda>i. key_for w' (int i)) [0..<nat (ow_written w')])"
    then obtain i where "i < nat (ow_written w')" "x = addr (key_for w (int i))" by (auto simp: key)
    then show "\<exists>j. 0 \<le> j \<and> j < ow_written w' \<and> x = addr (key_for w j)"
      by (intro exI [of _ "int i"]) simp
  qed
  have "view s' x = (if \<exists>j. 0 \<le> j \<and> j < ow_written w' \<and> x = addr (key_for w j) then None
      else view (wd_store wd) x)" for x
  proof (cases "\<exists>j. 0 \<le> j \<and> j < ow_written w' \<and> x = addr (key_for w j)")
    case True
    then show ?thesis unfolding s'(2) mem by (simp only: if_True)
  next
    case False
    then have "view (wd_store wd') x = view (wd_store wd) x"
      using obj_invD(5) [OF inv, of x] assms(2) st(3,4) by (meson order_trans)
    then show ?thesis unfolding s'(2) mem using False by (simp only: if_False)
  qed
  moreover have "obj_cleanup cl w' wd' = (Ok (), wd'\<lparr>wd_store := s'\<rparr>)"
    using s'(1) by (simp add: obj_cleanup_def)
  ultimately show ?thesis by (intro exI [of _ "wd'\<lparr>wd_store := s'\<rparr>"]) simp
qed

end

subsection \<open>Properties\<close>

text \<open>C6. Whatever the interleaving, and whatever faults the client returns, the workers of a small
  or large object run change no object but those at the indices they claimed, two workers never
  have writes of the same key in flight, and with the run's collector every claimed index is
  either one recorded write call or one write in flight.\<close>

theorem object_run_claims:
  assumes "store_frame cl view addr" and "0 \<le> ow_written w" and "ow_written w + int (length ls) < 2 ^ 63"
    and "obj_start kind source env w wd = Ok st0" and "obj_exec kind entropy cl env ls st0 = Ok st"
  shows "(\<forall>x. view (wd_store (or_world st)) x \<noteq> view (wd_store wd) x \<longrightarrow>
      (\<exists>j. ow_written w \<le> j \<and> j < ow_written (or_wl st) \<and> x = addr (key_for w j))) \<and>
    (\<forall>i j k. i < length (or_pcs st) \<longrightarrow> j < length (or_pcs st) \<longrightarrow> i \<noteq> j \<longrightarrow>
      or_pcs st ! i = In_write k \<longrightarrow> or_pcs st ! j \<noteq> In_write k) \<and>
    (en_recorder env = Rec_collector \<longrightarrow>
      ow_written (or_wl st) - ow_written w = int (pending (or_pcs st)) +
        (int (write_calls kind (wd_calls (or_world st))) - int (write_calls kind (wd_calls wd))))"
proof -
  have "obj_inv kind env view addr w wd st"
    using obj_start_inv [OF assms(4)] store_frame.obj_inv_exec [OF assms(1) _ assms(5)] assms(2,3) by fastforce
  note D = obj_invD [OF this]
  show ?thesis using D(4,5) D(6) by auto
qed


subsection \<open>A race between a reader and the writer of an index\<close>

text \<open>
  Two workers on an empty in-memory store: worker 0 claims index 0, and before its \<open>PUT\<close> reaches
  the store worker 1 picks that index and reads it.
\<close>

definition race_env :: env where
  "race_env = \<lparr>en_recorder = Rec_collector, en_rand = None, en_seed = 0, en_threads = 2,
     en_run_prefix = '''', en_part_size = 0, en_concurrency = 0\<rparr>"

definition race_source :: "int \<Rightarrow> rng" where
  "race_source s = sconst (if s = 1 then 2 ^ 52 else 0)"

definition race_wl :: object_wl where
  "race_wl = \<lparr>ow_name = ''s'', ow_key_prefix = ''s/k-'', ow_size = 1, ow_ratio = 1 / 2, ow_written = 0\<rparr>"

definition race_world :: "fake_state world" where
  "race_world = \<lparr>wd_store = fake_new, wd_calls = []\<rparr>"

definition race_schedule :: "obj_label list" where
  "race_schedule = [Loop 0, Loop 1, Call 1 7, Call 0 9]"

lemma race_world_calm: "fake_calm (wd_store race_world)" "fake_view (wd_store race_world) k = None"
  by (simp add: race_world_def fake_calm_def fake_wf_new, simp add: fake_new_def)
    (simp add: race_world_def fake_new_def fake_view_def)

lemma race_start:
  "obj_start Small_object race_source race_env race_wl race_world =
    Ok \<lparr>or_wl = race_wl, or_world = race_world\<lparr>wd_calls := [Shard_for 0, Shard_for 1]\<rparr>,
        or_pcs = [At_loop, At_loop], or_rngs = [sconst (2 ^ 52), sconst 0]\<rparr>"
  by (simp add: obj_start_def race_env_def race_world_def env_shard_for_def upt_rec worker_rand_def
      worker_seed_def race_source_def numeral_2_eq_2)

lemma race_result:
  "object_run Small_object (fill_entropy []) race_source fake_client race_env race_schedule race_wl race_world =
    Some (Ok (race_wl\<lparr>ow_written := 1\<rparr>,
      \<lparr>wd_store = fake_new\<lparr>fs_objects := [(''s/k-0'', body (fill_entropy []) 1)]\<rparr>,
       wd_calls = [Shard_for 0, Shard_for 1,
         Record_on (Some 1) (client_event ''s'' OpGet 7 0 (Some Err_not_found)),
         Record_on (Some 0) (client_event ''s'' OpPut 9 1 None)]\<rparr>))"
proof -
  have k: "format_int 0 = ''0''" by code_simp
  show ?thesis
    unfolding object_run_def race_start
    by (simp add: race_schedule_def race_wl_def race_env_def race_world_def loop_step_def float64_def
        int63n_def call_step_def finish_call_def env_record_def key_for_def k fake_get_def fake_put_def
        fake_new_def check_fail_def read_bytes_def)
qed

text \<open>So the counter does not say which indices hold an object, and the read is counted as a failure.\<close>

lemma read_of_claimed_index_fails:
  "\<exists>wd'. object_run Small_object (fill_entropy []) race_source fake_client race_env race_schedule race_wl race_world =
      Some (Ok (race_wl\<lparr>ow_written := 1\<rparr>, wd')) \<and>
    map ev_err (recorded (wd_calls wd')) = [Some Err_not_found, None]"
  by (simp add: race_result client_event_def)

theorem object_run_claims_witness:
  "\<exists>st0 st. obj_start Small_object race_source race_env race_wl race_world = Ok st0 \<and>
     obj_exec Small_object (fill_entropy []) fake_client race_env race_schedule st0 = Ok st \<and>
     ow_written (or_wl st) = int (pending (or_pcs st)) + int (write_calls Small_object (wd_calls (or_world st)))"
proof -
  obtain st0 where st0: "obj_start Small_object race_source race_env race_wl race_world = Ok st0"
    using race_start by blast
  obtain st where st: "obj_exec Small_object (fill_entropy []) fake_client race_env race_schedule st0 = Ok st"
    using race_result st0 by (auto simp: object_run_def split: res.splits)
  have "en_recorder race_env = Rec_collector" "ow_written race_wl = 0" "wd_calls race_world = []"
    "0 \<le> ow_written race_wl" "ow_written race_wl + int (length race_schedule) < 2 ^ 63"
    by (simp_all add: race_env_def race_wl_def race_world_def race_schedule_def)
  then show ?thesis
    using object_run_claims [OF fake_frame.store_frame_axioms _ _ st0 st] st0 st
    by (auto simp: write_calls_def)
qed


end
