(* ===== verification/Checkpoint.thy ===== *)
theory Checkpoint
  imports Object_Workloads
begin

section \<open>Checkpoints (\<open>internal/workload/checkpoint/checkpoint.go\<close>)\<close>

text \<open>
  Writers upload numbered checkpoints and keep the last \<open>retain\<close> of them; a resume reader re-reads
  the latest. The goroutines interleave between the atomic counter, the client calls and the
  mutex-protected list of versions: \<open>ckpt_step\<close> is the step relation over these points, the timers
  only deciding when a writer takes its next step. Warnings about failed bursts go to the log only.
\<close>

subsection \<open>The workload\<close>

record checkpoint =
  ck_name :: string
  ck_key_prefix :: string
  ck_size :: int
  ck_writers :: int
  ck_retain :: int
  ck_burst :: int
  ck_resume :: bool
  ck_versions :: "string list"
  ck_counter :: int

definition checkpoint_factory :: "(string \<Rightarrow> int option) \<Rightarrow> checkpoint factory" where
  "checkpoint_factory parse_duration w =
     (if we_object_size w \<le> 0
      then Err (Plain_error (''checkpoint '' @ we_name w @ '': object_size must be >0''))
      else Ok \<lparr>ck_name = we_name w, ck_key_prefix = we_name w @ ''/ckpt-'', ck_size = we_object_size w,
               ck_writers = int_param (we_params w) ''writers'' 4,
               ck_retain = int_param (we_params w) ''retain_versions'' 3,
               ck_burst = duration_param parse_duration (we_params w) ''burst_interval'' 60000000000,
               ck_resume = bool_param (we_params w) ''resume'' False,
               ck_versions = [], ck_counter = 0\<rparr>)"

subsection \<open>Writing one checkpoint\<close>

text \<open>Where a writer stands in \<open>writeOneAt\<close>: waiting for its timer, holding a key to upload, done
  with the upload, or deleting what fell out of the retain window.\<close>

datatype ckpt_pc = Ck_idle | Ck_upload string | Ck_commit string | Ck_delete "string list"

definition ckpt_key :: "checkpoint \<Rightarrow> int \<Rightarrow> string" where
  "ckpt_key w n = append_key_padded (ck_key_prefix w) n 8"

definition next_key :: "checkpoint \<Rightarrow> string \<times> checkpoint" where
  "next_key w =
     (let n = wrap64 (ck_counter w + 1) in (ckpt_key w n, w\<lparr>ck_counter := n\<rparr>))"

definition upload_version ::
  "bytes \<Rightarrow> 's client \<Rightarrow> env \<Rightarrow> recorder \<Rightarrow> int \<Rightarrow> checkpoint \<Rightarrow> string \<Rightarrow> 's world
     \<Rightarrow> unit res \<times> 's world" where
  "upload_version entropy cl env r latency w k wd =
     (let (out, s) = cl_multipart cl k (body entropy (ck_size w)) (ck_size w) (wd_store wd);
          wd1 = wd\<lparr>wd_store := s\<rparr>
      in if out = Panic then (Panic, wd1)
         else case env_record env r
             (client_event (ck_name w) OpCheckpointPut latency (ck_size w) (res_error out)) wd1 of
             (Ok _, wd2) \<Rightarrow> (out, wd2)
           | (Err e, wd2) \<Rightarrow> (Err e, wd2)
           | (Panic, wd2) \<Rightarrow> (Panic, wd2))"

text \<open>The critical section: append, and cut the list down to \<open>retain\<close> versions. With a negative
  \<open>retain\<close> the second slice starts behind the end of the list and panics.\<close>

definition commit_version :: "checkpoint \<Rightarrow> string \<Rightarrow> (checkpoint \<times> string list) res" where
  "commit_version w k =
     (let vs = ck_versions w @ [k]; len = int (length vs) in
      if len > ck_retain w
      then if ck_retain w < 0 then Panic
           else Ok (w\<lparr>ck_versions := drop (nat (len - ck_retain w)) vs\<rparr>, take (nat (len - ck_retain w)) vs)
      else Ok (w\<lparr>ck_versions := vs\<rparr>, []))"

text \<open>A failed delete of an old version is logged and forgotten.\<close>

fun retain_deletes :: "'s client \<Rightarrow> string list \<Rightarrow> 's \<Rightarrow> unit res \<times> 's" where
  "retain_deletes cl [] s = (Ok (), s)"
| "retain_deletes cl (k # ks) s =
     (case cl_delete cl k s of
        (Panic, s) \<Rightarrow> (Panic, s)
      | (_, s) \<Rightarrow> retain_deletes cl ks s)"

definition write_one_at ::
  "bytes \<Rightarrow> 's client \<Rightarrow> env \<Rightarrow> recorder \<Rightarrow> int \<Rightarrow> checkpoint \<Rightarrow> 's world
     \<Rightarrow> unit res \<times> checkpoint \<times> 's world" where
  "write_one_at entropy cl env r latency w wd =
     (let (k, w1) = next_key w in
      case upload_version entropy cl env r latency w1 k wd of
        (Err e, wd1) \<Rightarrow> (Err e, w1, wd1)
      | (Panic, wd1) \<Rightarrow> (Panic, w1, wd1)
      | (Ok _, wd1) \<Rightarrow>
          (case commit_version w1 k of
             Ok (w2, old) \<Rightarrow>
               (case retain_deletes cl old (wd_store wd1) of
                  (out, s) \<Rightarrow> (out, w2, wd1\<lparr>wd_store := s\<rparr>))
           | Err e \<Rightarrow> (Err e, w1, wd1)
           | Panic \<Rightarrow> (Panic, w1, wd1)))"

text \<open>\<open>Prepopulate\<close> writes one checkpoint through the environment's own recorder.\<close>

definition ckpt_prepopulate ::
  "bytes \<Rightarrow> 's client \<Rightarrow> env \<Rightarrow> int \<Rightarrow> checkpoint \<Rightarrow> 's world \<Rightarrow> unit res \<times> checkpoint \<times> 's world" where
  "ckpt_prepopulate entropy cl env latency w wd = write_one_at entropy cl env None latency w wd"

subsection \<open>The run as a step relation\<close>

record 's ckpt_run =
  cr_wl :: checkpoint
  cr_world :: "'s world"
  cr_pcs :: "ckpt_pc list"
  cr_reading :: "string option"    \<comment> \<open>the key the resume reader is about to read\<close>

definition ckpt_start :: "env \<Rightarrow> checkpoint \<Rightarrow> 's world \<Rightarrow> 's ckpt_run res" where
  "ckpt_start env w wd =
     (if ck_writers w \<le> 0
      then Err (Plain_error (''checkpoint '' @ ck_name w @ '': writers must be >0''))
      else case shard_all env [0..<nat (ck_writers w) + (if ck_resume w then 1 else 0)] wd of
             Ok wd' \<Rightarrow> Ok \<lparr>cr_wl = w, cr_world = wd', cr_pcs = replicate (nat (ck_writers w)) Ck_idle,
                         cr_reading = None\<rparr>
           | Err e \<Rightarrow> Err e
           | Panic \<Rightarrow> Panic)"

definition set_pc :: "nat \<Rightarrow> ckpt_pc \<Rightarrow> 's ckpt_run \<Rightarrow> 's ckpt_run" where
  "set_pc i pc st = st\<lparr>cr_pcs := (cr_pcs st)[i := pc]\<rparr>"

definition read_latest ::
  "'s client \<Rightarrow> env \<Rightarrow> recorder \<Rightarrow> int \<Rightarrow> checkpoint \<Rightarrow> string \<Rightarrow> 's world \<Rightarrow> unit res \<times> 's world" where
  "read_latest cl env r latency w k wd =
     (let (out, s) = cl_get cl k (wd_store wd); wd1 = wd\<lparr>wd_store := s\<rparr> in
      if out = Panic then (Panic, wd1)
      else env_record env r (client_event (ck_name w) OpGet latency (read_bytes out) (res_error out)) wd1)"

inductive ckpt_step :: "bytes \<Rightarrow> 's client \<Rightarrow> env \<Rightarrow> 's ckpt_run \<Rightarrow> 's ckpt_run \<Rightarrow> bool"
  for entropy cl env where
  claim: "\<lbrakk>i < length (cr_pcs st); cr_pcs st ! i = Ck_idle; next_key (cr_wl st) = (k, w)\<rbrakk>
    \<Longrightarrow> ckpt_step entropy cl env st (set_pc i (Ck_upload k) (st\<lparr>cr_wl := w\<rparr>))"
| upload: "\<lbrakk>i < length (cr_pcs st); cr_pcs st ! i = Ck_upload k;
      upload_version entropy cl env (Some (int i)) latency (cr_wl st) k (cr_world st) = (Ok u, wd)\<rbrakk>
    \<Longrightarrow> ckpt_step entropy cl env st (set_pc i (Ck_commit k) (st\<lparr>cr_world := wd\<rparr>))"
| upload_failed: "\<lbrakk>i < length (cr_pcs st); cr_pcs st ! i = Ck_upload k;
      upload_version entropy cl env (Some (int i)) latency (cr_wl st) k (cr_world st) = (Err e, wd)\<rbrakk>
    \<Longrightarrow> ckpt_step entropy cl env st (set_pc i Ck_idle (st\<lparr>cr_world := wd\<rparr>))"
| commit: "\<lbrakk>i < length (cr_pcs st); cr_pcs st ! i = Ck_commit k; commit_version (cr_wl st) k = Ok (w, old)\<rbrakk>
    \<Longrightarrow> ckpt_step entropy cl env st (set_pc i (Ck_delete old) (st\<lparr>cr_wl := w\<rparr>))"
| delete: "\<lbrakk>i < length (cr_pcs st); cr_pcs st ! i = Ck_delete (k # ks);
      cl_delete cl k (wd_store (cr_world st)) = (out, s); out \<noteq> Panic\<rbrakk>
    \<Longrightarrow> ckpt_step entropy cl env st (set_pc i (Ck_delete ks) (st\<lparr>cr_world := (cr_world st)\<lparr>wd_store := s\<rparr>\<rparr>))"
| finished: "\<lbrakk>i < length (cr_pcs st); cr_pcs st ! i = Ck_delete []\<rbrakk>
    \<Longrightarrow> ckpt_step entropy cl env st (set_pc i Ck_idle st)"
| latest: "\<lbrakk>ck_resume (cr_wl st); cr_reading st = None; ck_versions (cr_wl st) \<noteq> []\<rbrakk>
    \<Longrightarrow> ckpt_step entropy cl env st (st\<lparr>cr_reading := Some (last (ck_versions (cr_wl st)))\<rparr>)"
| read_version: "\<lbrakk>cr_reading st = Some k;
      read_latest cl env (Some (ck_writers (cr_wl st))) latency (cr_wl st) k (cr_world st) = (Ok u, wd)\<rbrakk>
    \<Longrightarrow> ckpt_step entropy cl env st (st\<lparr>cr_reading := None, cr_world := wd\<rparr>)"

inductive_cases ckpt_stepE: "ckpt_step entropy cl env st st'"

definition ckpt_quiet :: "'s ckpt_run \<Rightarrow> bool" where
  "ckpt_quiet st \<longleftrightarrow> (\<forall>pc \<in> set (cr_pcs st). pc = Ck_idle) \<and> cr_reading st = None"

definition ckpt_cleanup :: "'s client \<Rightarrow> checkpoint \<Rightarrow> 's world \<Rightarrow> unit res \<times> 's world" where
  "ckpt_cleanup cl w wd =
     (case delete_keys cl (ck_versions w) (wd_store wd) of (out, s) \<Rightarrow> (out, wd\<lparr>wd_store := s\<rparr>))"

subsection \<open>The invariant of a run\<close>

text \<open>The keys a writer holds, and those of them whose object is in the store.\<close>

fun pc_keys :: "ckpt_pc \<Rightarrow> string multiset" where
  "pc_keys Ck_idle = {#}"
| "pc_keys (Ck_upload k) = {#k#}"
| "pc_keys (Ck_commit k) = {#k#}"
| "pc_keys (Ck_delete ks) = mset ks"

fun pc_stored :: "ckpt_pc \<Rightarrow> string multiset" where
  "pc_stored (Ck_upload k) = {#}"
| "pc_stored pc = pc_keys pc"

definition tracked :: "'s ckpt_run \<Rightarrow> string multiset" where
  "tracked st = mset (ck_versions (cr_wl st)) + (\<Sum>pc\<in>#mset (cr_pcs st). pc_keys pc)"

definition stored :: "'s ckpt_run \<Rightarrow> string multiset" where
  "stored st = mset (ck_versions (cr_wl st)) + (\<Sum>pc\<in>#mset (cr_pcs st). pc_stored pc)"

text \<open>\<open>base\<close> is the content of the bucket without the checkpoints, \<open>w0\<close> the workload at the start.\<close>

definition ckpt_inv ::
  "('s \<Rightarrow> string \<Rightarrow> bytes option) \<Rightarrow> (string \<Rightarrow> string) \<Rightarrow> ('s \<Rightarrow> bool) \<Rightarrow> (string \<Rightarrow> bytes option)
     \<Rightarrow> checkpoint \<Rightarrow> 's ckpt_run \<Rightarrow> bool" where
  "ckpt_inv view addr calm base w0 st \<longleftrightarrow>
     cr_wl st = w0\<lparr>ck_versions := ck_versions (cr_wl st), ck_counter := ck_counter (cr_wl st)\<rparr> \<and>
     0 \<le> ck_counter (cr_wl st) \<and>
     calm (wd_store (cr_world st)) \<and>
     int (length (ck_versions (cr_wl st))) \<le> ck_retain w0 \<and>
     (\<forall>k. count (tracked st) k \<le> 1) \<and>
     (\<forall>k \<in># tracked st. \<exists>n. 1 \<le> n \<and> n \<le> ck_counter (cr_wl st) \<and> k = ckpt_key w0 n) \<and>
     (\<forall>k \<in># stored st. view (wd_store (cr_world st)) (addr k) \<noteq> None) \<and>
     (\<forall>x. x \<notin> addr ` set_mset (stored st) \<longrightarrow> view (wd_store (cr_world st)) x = base x)"

lemma sum_pcs_update:
  assumes "i < length pcs"
  shows "(\<Sum>p\<in>#mset (pcs[i := pc]). f p) + f (pcs ! i) =
    (\<Sum>p\<in>#mset pcs. f p) + (f pc :: string multiset)"
proof -
  have "pcs ! i \<in># mset pcs" using assms by simp
  then obtain M where "mset pcs = add_mset (pcs ! i) M" by (metis mset_add)
  with assms show ?thesis by (simp add: mset_update)
qed

lemma tracked_set_pc:
  assumes "i < length (cr_pcs st)"
  shows "tracked (set_pc i pc st) + pc_keys (cr_pcs st ! i) = tracked st + pc_keys pc"
    "stored (set_pc i pc st) + pc_stored (cr_pcs st ! i) = stored st + pc_stored pc"
  using sum_pcs_update [OF assms, where f = pc_keys and pc = pc]
    sum_pcs_update [OF assms, where f = pc_stored and pc = pc]
  by (simp_all add: tracked_def stored_def set_pc_def)

lemma tracked_simps [simp]:
  "tracked (st\<lparr>cr_world := wd\<rparr>) = tracked st" "stored (st\<lparr>cr_world := wd\<rparr>) = stored st"
  "tracked (st\<lparr>cr_reading := r\<rparr>) = tracked st" "stored (st\<lparr>cr_reading := r\<rparr>) = stored st"
  by (simp_all add: tracked_def stored_def)

lemma tracked_wl:
  "mset (ck_versions w) = mset (ck_versions (cr_wl st)) \<Longrightarrow> tracked (st\<lparr>cr_wl := w\<rparr>) = tracked st"
  "mset (ck_versions w) = mset (ck_versions (cr_wl st)) \<Longrightarrow> stored (st\<lparr>cr_wl := w\<rparr>) = stored st"
  by (simp_all add: tracked_def stored_def)

lemma stored_subset: "stored st \<subseteq># tracked st"
proof -
  have "pc_stored pc \<subseteq># pc_keys pc" for pc by (cases pc) auto
  then have "(\<Sum>pc\<in>#M. pc_stored pc) \<subseteq># (\<Sum>pc\<in>#M. pc_keys pc)" for M
    by (induction M) (auto intro: subset_mset.add_mono)
  then show ?thesis by (simp add: tracked_def stored_def)
qed

lemma set_pc_sel [simp]:
  "cr_wl (set_pc i pc st) = cr_wl st" "cr_world (set_pc i pc st) = cr_world st"
  "cr_pcs (set_pc i pc st) = (cr_pcs st)[i := pc]" "cr_reading (set_pc i pc st) = cr_reading st"
  by (simp_all add: set_pc_def)

lemma ckpt_key_inject: "0 \<le> m \<Longrightarrow> 0 \<le> n \<Longrightarrow> ckpt_key w m = ckpt_key w n \<longleftrightarrow> m = n"
  by (simp add: ckpt_key_def append_key_padded_inject)

lemma ckpt_key_update [simp]:
  "ckpt_key (w\<lparr>ck_versions := vs\<rparr>) n = ckpt_key w n" "ckpt_key (w\<lparr>ck_counter := c\<rparr>) n = ckpt_key w n"
  by (simp_all add: ckpt_key_def)

lemma commit_version_Ok:
  assumes "0 \<le> ck_retain w"
  obtains vs old where "commit_version w k = Ok (w\<lparr>ck_versions := vs\<rparr>, old)"
    "old @ vs = ck_versions w @ [k]" "int (length vs) \<le> ck_retain w"
proof (cases "int (length (ck_versions w @ [k])) > ck_retain w")
  case True
  define d where "d = nat (int (length (ck_versions w @ [k])) - ck_retain w)"
  have "commit_version w k =
      Ok (w\<lparr>ck_versions := drop d (ck_versions w @ [k])\<rparr>, take d (ck_versions w @ [k]))"
    unfolding commit_version_def Let_def d_def using True assms
    by (simp only: if_True if_False not_less [THEN iffD2])
  moreover have "int (length (drop d (ck_versions w @ [k]))) \<le> ck_retain w"
    using True assms by (simp add: d_def)
  ultimately show thesis using that append_take_drop_id by blast
next
  case False
  then have "commit_version w k = Ok (w\<lparr>ck_versions := ck_versions w @ [k]\<rparr>, [])"
    unfolding commit_version_def Let_def by (simp only: if_False)
  then show thesis using that [of "ck_versions w @ [k]" "[]"] False by simp
qed

lemma ckpt_invI:
  assumes "cr_wl st = w0\<lparr>ck_versions := vs, ck_counter := c\<rparr>" "0 \<le> c"
    "calm (wd_store (cr_world st))" "int (length vs) \<le> ck_retain w0"
    "\<And>k. count (tracked st) k \<le> 1"
    "\<And>k. k \<in># tracked st \<Longrightarrow> \<exists>n. 1 \<le> n \<and> n \<le> c \<and> k = ckpt_key w0 n"
    "\<And>k. k \<in># stored st \<Longrightarrow> view (wd_store (cr_world st)) (addr k) \<noteq> None"
    "\<And>x. x \<notin> addr ` set_mset (stored st) \<Longrightarrow> view (wd_store (cr_world st)) x = base x"
  shows "ckpt_inv view addr calm base w0 st"
proof -
  have w: "ck_versions (cr_wl st) = vs" "ck_counter (cr_wl st) = c" using assms(1) by simp_all
  show ?thesis
    unfolding ckpt_inv_def w
    by (intro conjI allI ballI impI) (rule assms(1-5), rule assms(2-5), rule assms(3-5), rule assms(4-5),
      rule assms(5), erule assms(6), erule assms(7), erule assms(8))
qed

lemma ckpt_invD:
  assumes "ckpt_inv view addr calm base w0 st"
  shows "cr_wl st = w0\<lparr>ck_versions := ck_versions (cr_wl st), ck_counter := ck_counter (cr_wl st)\<rparr>"
    "0 \<le> ck_counter (cr_wl st)" "calm (wd_store (cr_world st))"
    "int (length (ck_versions (cr_wl st))) \<le> ck_retain w0"
    "\<And>k. count (tracked st) k \<le> 1"
    "\<And>k. k \<in># tracked st \<Longrightarrow> \<exists>n. 1 \<le> n \<and> n \<le> ck_counter (cr_wl st) \<and> k = ckpt_key w0 n"
    "\<And>k. k \<in># stored st \<Longrightarrow> view (wd_store (cr_world st)) (addr k) \<noteq> None"
    "\<And>x. x \<notin> addr ` set_mset (stored st) \<Longrightarrow> view (wd_store (cr_world st)) x = base x"
  using assms unfolding ckpt_inv_def by blast+

text \<open>A step that moves keys without losing any, and does not touch the store.\<close>

lemma ckpt_inv_move:
  assumes inv: "ckpt_inv view addr calm base w0 st"
    and st': "cr_wl st' = (cr_wl st)\<lparr>ck_versions := vs\<rparr>" "int (length vs) \<le> ck_retain w0"
      "calm (wd_store (cr_world st'))"
      "view (wd_store (cr_world st')) = view (wd_store (cr_world st))"
      "tracked st' \<subseteq># tracked st" "set_mset (stored st') = set_mset (stored st)"
  shows "ckpt_inv view addr calm base w0 st'"
proof (rule ckpt_invI [where vs = vs and c = "ck_counter (cr_wl st)"])
  note D = ckpt_invD [OF inv]
  show "cr_wl st' = w0\<lparr>ck_versions := vs, ck_counter := ck_counter (cr_wl st)\<rparr>"
    unfolding st'(1) by (subst D(1)) simp
  show "count (tracked st') k \<le> 1" for k
    using D(5) [of k] mset_subset_eq_count [OF st'(5), of k] by simp
  show "\<exists>n. 1 \<le> n \<and> n \<le> ck_counter (cr_wl st) \<and> k = ckpt_key w0 n" if "k \<in># tracked st'" for k
    using D(6) [of k] that st'(5) by (meson mset_subset_eqD)
qed (use ckpt_invD [OF inv] st' in auto)

context reliable_store
begin

lemma upload_version_Ok:
  assumes "upload_version entropy cl env r latency w k wd = (Ok u, wd')" "calm (wd_store wd)"
  shows "calm (wd_store wd') \<and> (\<exists>b. view (wd_store wd') = (view (wd_store wd))(addr k \<mapsto> b))"
proof -
  obtain out s where c: "cl_multipart cl k (body entropy (ck_size w)) (ck_size w) (wd_store wd) = (out, s)"
    by fastforce
  have "wd_store wd' = s"
    using assms(1) c by (cases "en_recorder env")
      (auto simp: upload_version_def Let_def env_record_def split: if_splits)
  moreover have "calm s" using multipart_calm [OF assms(2), of k] c by (metis snd_conv)
  moreover have "view s = (view (wd_store wd))(addr k \<mapsto> body entropy (ck_size w))"
    using multipart_view [OF assms(2), of k "body entropy (ck_size w)" "ck_size w"] c by simp
  ultimately show ?thesis by blast
qed

lemma upload_version_Err:
  assumes "calm (wd_store wd)"
  shows "upload_version entropy cl env r latency w k wd \<noteq> (Err e, wd')"
proof -
  obtain out s where c: "cl_multipart cl k (body entropy (ck_size w)) (ck_size w) (wd_store wd) = (out, s)"
    by fastforce
  then have "out = Ok ()"
    using multipart_ok [OF assms, of k "body entropy (ck_size w)" "ck_size w"] by simp
  with c show ?thesis
    by (cases "en_recorder env") (auto simp: upload_version_def Let_def env_record_def)
qed

lemma read_latest_frame:
  assumes "read_latest cl env r latency w k wd = (out, wd')" "calm (wd_store wd)"
  shows "calm (wd_store wd') \<and> view (wd_store wd') = view (wd_store wd)"
proof -
  obtain res s where c: "cl_get cl k (wd_store wd) = (res, s)" by fastforce
  have "wd_store wd' = s"
    using assms(1) c by (cases "en_recorder env")
      (auto simp: read_latest_def Let_def env_record_def split: if_splits)
  then show ?thesis
    using get_calm [OF assms(2), of k] get_frame [of k "wd_store wd"] c by simp
qed

lemma ckpt_inv_step:
  assumes step: "ckpt_step entropy cl env st st'" and inv: "ckpt_inv view addr calm base w0 st"
    and inj: "\<And>m n. 1 \<le> m \<Longrightarrow> 1 \<le> n \<Longrightarrow> addr (ckpt_key w0 m) = addr (ckpt_key w0 n) \<Longrightarrow> m = n"
    and base: "\<And>n. 1 \<le> n \<Longrightarrow> base (addr (ckpt_key w0 n)) = None"
    and bound: "ck_counter (cr_wl st) < 2 ^ 63 - 1"
  shows "ckpt_inv view addr calm base w0 st' \<and> ck_counter (cr_wl st') \<le> ck_counter (cr_wl st) + 1"
  using step
proof cases
  define c where "c = ck_counter (cr_wl st)"
  define vs where "vs = ck_versions (cr_wl st)"
  note D = ckpt_invD [OF inv, folded c_def vs_def]
  note wl = D(1)
  {
    case (claim i k w)
    have k: "k = ckpt_key w0 (c + 1)" and w: "w = w0\<lparr>ck_versions := vs, ck_counter := c + 1\<rparr>"
      using claim(4) bound [folded c_def] D(2) unfolding next_key_def Let_def wl
      by (auto simp: in_int64_iff)
    have new: "k \<notin># tracked st"
    proof
      assume "k \<in># tracked st"
      from D(6) [OF this] obtain n where "1 \<le> n" "n \<le> c" "k = ckpt_key w0 n" by blast
      then show False using k ckpt_key_inject [of "c + 1" n w0] by simp
    qed
    let ?st = "st\<lparr>cr_wl := w\<rparr>"
    have "mset (ck_versions w) = mset (ck_versions (cr_wl st))" using w vs_def by simp
    note same = tracked_wl [OF this]
    have T: "tracked st' = add_mset k (tracked st)" and S: "stored st' = stored st"
      using tracked_set_pc [of i ?st "Ck_upload k"] claim(1-3) same by simp_all
    have "ckpt_inv view addr calm base w0 st'"
    proof (rule ckpt_invI [where vs = vs and c = "c + 1"])
      show "cr_wl st' = w0\<lparr>ck_versions := vs, ck_counter := c + 1\<rparr>" using claim(1) w by simp
      show "count (tracked st') j \<le> 1" for j
        using D(5) [of j] new unfolding T by (auto simp: not_in_iff)
      show "\<exists>n. 1 \<le> n \<and> n \<le> c + 1 \<and> j = ckpt_key w0 n" if "j \<in># tracked st'" for j
      proof (cases "j = k")
        case True
        then show ?thesis using k D(2) by (intro exI [of _ "c + 1"]) simp
      next
        case False
        then show ?thesis using that D(6) [of j] unfolding T by force
      qed
    qed (use D(2-4,7,8) claim(1) S in auto)
    then show ?thesis using claim(1) w by (simp add: c_def)
  next
    case (upload i k latency u wd)
    obtain b where wd: "calm (wd_store wd)" "view (wd_store wd) = (view (wd_store (cr_world st)))(addr k \<mapsto> b)"
      using upload_version_Ok [OF upload(4) D(3)] by blast
    have T: "tracked st' = tracked st" and S: "stored st' = add_mset k (stored st)"
      using tracked_set_pc [of i "st\<lparr>cr_world := wd\<rparr>" "Ck_commit k"] upload(1-3) by simp_all
    have "ckpt_inv view addr calm base w0 st'"
    proof (rule ckpt_invI [where vs = vs and c = c])
      show "view (wd_store (cr_world st')) (addr j) \<noteq> None" if "j \<in># stored st'" for j
        using that D(7) [of j] wd(2) upload(1) unfolding S by auto
      show "view (wd_store (cr_world st')) x = base x" if "x \<notin> addr ` set_mset (stored st')" for x
        using that D(8) [of x] wd(2) upload(1) unfolding S by auto
    qed (use D(2,4-6) wl wd(1) upload(1) T in auto)
    then show ?thesis using upload(1) by simp
  next
    case (upload_failed i k latency e wd)
    with upload_version_Err [OF D(3)] show ?thesis by blast
  next
    case (commit i k w old)
    have "0 \<le> ck_retain (cr_wl st)" using D(4) wl by simp
    from commit_version_Ok [OF this, of k] obtain vs' where vs': "w = (cr_wl st)\<lparr>ck_versions := vs'\<rparr>"
      "old @ vs' = vs @ [k]" "int (length vs') \<le> ck_retain (cr_wl st)"
      using commit(4) unfolding vs_def by auto
    have m: "mset vs' + mset old = add_mset k (mset vs)"
      using arg_cong [OF vs'(2), of mset] by (simp add: add.commute)
    define P where "P = (\<Sum>pc\<in>#mset (cr_pcs st). pc_keys pc)"
    define Q where "Q = (\<Sum>pc\<in>#mset (cr_pcs st). pc_stored pc)"
    have P: "(\<Sum>pc\<in>#mset ((cr_pcs st)[i := Ck_delete old]). pc_keys pc) + {#k#} = P + mset old"
      using sum_pcs_update [OF commit(2), of pc_keys "Ck_delete old"] commit(3) by (simp add: P_def)
    have Q: "(\<Sum>pc\<in>#mset ((cr_pcs st)[i := Ck_delete old]). pc_stored pc) + {#k#} = Q + mset old"
      using sum_pcs_update [OF commit(2), of pc_stored "Ck_delete old"] commit(3) by (simp add: Q_def)
    have "tracked st' + {#k#} = mset vs' + (P + mset old)"
      unfolding tracked_def commit(1) set_pc_sel using P vs'(1) by (simp add: ac_simps)
    also have "\<dots> = tracked st + {#k#}"
      using m by (simp add: tracked_def P_def vs_def ac_simps)
    finally have T: "tracked st' = tracked st" by simp
    have "stored st' + {#k#} = mset vs' + (Q + mset old)"
      unfolding stored_def commit(1) set_pc_sel using Q vs'(1) by (simp add: ac_simps)
    also have "\<dots> = stored st + {#k#}"
      using m by (simp add: stored_def Q_def vs_def ac_simps)
    finally have S: "stored st' = stored st" by simp
    have "ckpt_inv view addr calm base w0 st'"
      by (rule ckpt_inv_move [OF inv, of st' vs']) (use commit(1) vs' wl T S D(3) in auto)
    then show ?thesis using commit(1) vs'(1) by simp
  next
    case (delete i k ks out s)
    have s: "calm s" "view s = (view (wd_store (cr_world st)))(addr k := None)"
      using delete_calm [OF D(3), of k] delete_view [OF D(3), of k] delete(4) by simp_all
    let ?st = "st\<lparr>cr_world := (cr_world st)\<lparr>wd_store := s\<rparr>\<rparr>"
    have T: "add_mset k (tracked st') = tracked st" and S: "add_mset k (stored st') = stored st"
      using tracked_set_pc [of i ?st "Ck_delete ks"] delete(1-3) by simp_all
    have kk: "k \<in># tracked st" "k \<notin># tracked st'"
      using D(5) [of k] unfolding T [symmetric] by (auto simp: not_in_iff)
    obtain n where n: "1 \<le> n" "k = ckpt_key w0 n" using D(6) [OF kk(1)] by blast
    have "ckpt_inv view addr calm base w0 st'"
    proof (rule ckpt_invI [where vs = vs and c = c])
      show "count (tracked st') j \<le> 1" for j
        using D(5) [of j] unfolding T [symmetric] by (auto split: if_splits)
      show "\<exists>n. 1 \<le> n \<and> n \<le> c \<and> j = ckpt_key w0 n" if "j \<in># tracked st'" for j
        using that D(6) [of j] unfolding T [symmetric] by simp
      show "view (wd_store (cr_world st')) (addr j) \<noteq> None" if "j \<in># stored st'" for j
      proof -
        have j: "j \<in># tracked st'" using that stored_subset by (meson mset_subset_eqD)
        then have "j \<in># tracked st" unfolding T [symmetric] by simp
        then obtain m where m: "1 \<le> m" "j = ckpt_key w0 m" using D(6) by blast
        have "j \<noteq> k" using j kk(2) by blast
        then have "addr j \<noteq> addr k" using inj [OF m(1) n(1)] m(2) n(2) by blast
        moreover have "view (wd_store (cr_world st)) (addr j) \<noteq> None"
          using D(7) [of j] that unfolding S [symmetric] by simp
        ultimately show ?thesis using s(2) delete(1) by simp
      qed
      show "view (wd_store (cr_world st')) x = base x" if "x \<notin> addr ` set_mset (stored st')" for x
      proof (cases "x = addr k")
        case True
        then show ?thesis using s(2) delete(1) base [OF n(1)] n(2) by simp
      next
        case False
        then have "x \<notin> addr ` set_mset (stored st)" using that unfolding S [symmetric] by simp
        then show ?thesis using D(8) [of x] s(2) delete(1) False by simp
      qed
    qed (use D(2,4) wl s(1) delete(1) in auto)
    then show ?thesis using delete(1) by simp
  next
    case (finished i)
    have "tracked st' = tracked st" "stored st' = stored st"
      using tracked_set_pc [of i st Ck_idle] finished by simp_all
    then show ?thesis
      using ckpt_inv_move [OF inv, of st' vs] finished(1) D(3,4) by (simp add: vs_def)
  next
    case latest
    then show ?thesis
      using ckpt_inv_move [OF inv, of st' vs] D(3,4) by (simp add: vs_def)
  next
    case (read_version k latency u wd)
    have "calm (wd_store wd)" "view (wd_store wd) = view (wd_store (cr_world st))"
      using read_latest_frame [OF read_version(3) D(3)] by blast+
    then show ?thesis
      using ckpt_inv_move [OF inv, of st' vs] read_version(1) D(4) by (simp add: vs_def)
  }
qed

end

context reliable_store
begin

lemma retain_deletes_calm:
  assumes "calm s"
  shows "\<exists>s'. retain_deletes cl ks s = (Ok (), s') \<and> calm s' \<and>
    view s' = (\<lambda>x. if x \<in> addr ` set ks then None else view s x)"
  using assms
proof (induction ks arbitrary: s)
  case (Cons k ks)
  obtain out s1 where del: "cl_delete cl k s = (out, s1)" by fastforce
  have c1: "calm s1" using delete_calm [OF Cons.prems, of k] del by simp
  have v1: "view s1 = (view s)(addr k := None)" using delete_view [OF Cons.prems, of k] del by simp
  have "out \<noteq> Panic"
    using delete_ok [OF Cons.prems, of k] delete_missing [OF Cons.prems, of k] del by fastforce
  then have step: "retain_deletes cl (k # ks) s = retain_deletes cl ks s1"
    by (cases out) (simp_all add: del)
  obtain s' where s': "retain_deletes cl ks s1 = (Ok (), s')" "calm s'"
    "view s' = (\<lambda>x. if x \<in> addr ` set ks then None else view s1 x)"
    using Cons.IH [OF c1] by blast
  have "view s' = (\<lambda>x. if x \<in> addr ` set (k # ks) then None else view s x)"
    unfolding s'(3) v1 by (rule ext) simp
  then show ?case using s'(1,2) step by metis
qed simp

lemma ckpt_start_inv:
  assumes start: "ckpt_start env w wd = Ok st" and w: "w = w0\<lparr>ck_versions := vs, ck_counter := c\<rparr>"
    and "0 \<le> c" "calm (wd_store wd)" "int (length vs) \<le> ck_retain w0" "distinct vs"
    "\<And>k. k \<in> set vs \<Longrightarrow> \<exists>n. 1 \<le> n \<and> n \<le> c \<and> k = ckpt_key w0 n"
    "\<And>k. k \<in> set vs \<Longrightarrow> view (wd_store wd) (addr k) \<noteq> None"
    "\<And>x. x \<notin> addr ` set vs \<Longrightarrow> view (wd_store wd) x = base x"
  shows "ckpt_inv view addr calm base w0 st \<and> cr_wl st = w"
proof -
  obtain m wd' where wd': "shard_all env m wd = Ok wd'"
    and st: "st = \<lparr>cr_wl = w, cr_world = wd', cr_pcs = replicate (nat (ck_writers w)) Ck_idle, cr_reading = None\<rparr>"
    using start by (auto simp: ckpt_start_def split: if_splits res.splits)
  have store: "wd_store wd' = wd_store wd" using shard_all_frame [OF wd'] by blast
  have "tracked st = mset vs" "stored st = mset vs"
    by (simp_all add: tracked_def stored_def st w)
  then have "ckpt_inv view addr calm base w0 st"
    by (intro ckpt_invI [where vs = vs and c = c])
      (use assms store st in \<open>simp_all add: distinct_count_atmost_1 count_mset [symmetric]\<close>)
  then show ?thesis by (simp add: st)
qed

lemma ckpt_prepopulate_inv:
  assumes "calm (wd_store wd)" "ck_versions w = []" "ck_counter w = 0" "0 \<le> ck_retain w"
    and base: "\<And>n. 1 \<le> n \<Longrightarrow> view (wd_store wd) (addr (ckpt_key w n)) = None"
    and pre: "ckpt_prepopulate entropy cl env latency w wd = (Ok (), w', wd')"
  shows "\<exists>vs. w' = w\<lparr>ck_versions := vs, ck_counter := 1\<rparr> \<and> calm (wd_store wd') \<and>
    int (length vs) \<le> ck_retain w \<and> distinct vs \<and> set vs \<subseteq> {ckpt_key w 1} \<and>
    (\<forall>k \<in> set vs. view (wd_store wd') (addr k) \<noteq> None) \<and>
    (\<forall>x. x \<notin> addr ` set vs \<longrightarrow> view (wd_store wd') x = view (wd_store wd) x)"
proof -
  define k where "k = ckpt_key w 1"
  define w1 where "w1 = w\<lparr>ck_counter := 1\<rparr>"
  have next1: "next_key w = (k, w1)" by (simp add: next_key_def assms(3) k_def w1_def Let_def)
  obtain out wd1 where up: "upload_version entropy cl env None latency w1 k wd = (out, wd1)" by fastforce
  have "out \<noteq> Panic" using pre up next1 by (auto simp: ckpt_prepopulate_def write_one_at_def)
  then obtain u where out: "out = Ok u"
    using upload_version_Err [OF assms(1)] up by (cases out) blast+
  obtain b where wd1: "calm (wd_store wd1)" "view (wd_store wd1) = (view (wd_store wd))(addr k \<mapsto> b)"
    using upload_version_Ok [OF up [unfolded out] assms(1)] by blast
  obtain vs old where c: "commit_version w1 k = Ok (w1\<lparr>ck_versions := vs\<rparr>, old)" "old @ vs = ck_versions w1 @ [k]"
    "int (length vs) \<le> ck_retain w1"
    using commit_version_Ok [of w1 k] assms(4) by (auto simp: w1_def)
  obtain s where s: "retain_deletes cl old (wd_store wd1) = (Ok (), s)" "calm s"
    "view s = (\<lambda>x. if x \<in> addr ` set old then None else view (wd_store wd1) x)"
    using retain_deletes_calm [OF wd1(1)] by blast
  have w': "w' = w1\<lparr>ck_versions := vs\<rparr>" "wd' = wd1\<lparr>wd_store := s\<rparr>"
    using pre next1 up out c(1) s(1) by (auto simp: ckpt_prepopulate_def write_one_at_def)
  have gone: "view (wd_store wd) (addr k) = None" using base [of 1] by (simp add: k_def)
  consider "old = []" "vs = [k]" | "old = [k]" "vs = []"
    using c(2) assms(2) by (auto simp: w1_def append_eq_Cons_conv)
  then show ?thesis
  proof cases
    case 1
    then show ?thesis
      using w' s wd1 c(3) by (intro exI [of _ vs]) (auto simp: w1_def k_def)
  next
    case 2
    then show ?thesis
      using w' s wd1 gone c(3) by (intro exI [of _ vs]) (auto simp: w1_def k_def)
  qed
qed

lemma ckpt_inv_steps:
  assumes steps: "(ckpt_step entropy cl env ^^ n) st st'" and inv: "ckpt_inv view addr calm base w0 st"
    and inj: "\<And>m n. 1 \<le> m \<Longrightarrow> 1 \<le> n \<Longrightarrow> addr (ckpt_key w0 m) = addr (ckpt_key w0 n) \<Longrightarrow> m = n"
    and base: "\<And>n. 1 \<le> n \<Longrightarrow> base (addr (ckpt_key w0 n)) = None"
    and bound: "ck_counter (cr_wl st) + int n < 2 ^ 63"
  shows "ckpt_inv view addr calm base w0 st' \<and> ck_counter (cr_wl st') \<le> ck_counter (cr_wl st) + int n"
  using steps bound
proof (induction n arbitrary: st')
  case 0
  then show ?case using inv by simp
next
  case (Suc n)
  obtain st1 where st1: "(ckpt_step entropy cl env ^^ n) st st1" "ckpt_step entropy cl env st1 st'"
    using Suc.prems(1) by auto
  have IH: "ckpt_inv view addr calm base w0 st1" "ck_counter (cr_wl st1) \<le> ck_counter (cr_wl st) + int n"
    using Suc.IH [OF st1(1)] Suc.prems(2) by linarith+
  have "ck_counter (cr_wl st1) < 2 ^ 63 - 1" using IH(2) Suc.prems(2) by linarith
  from ckpt_inv_step [where base = base and ?w0.0 = w0, OF st1(2) IH(1) inj base this]
  have "ckpt_inv view addr calm base w0 st'" "ck_counter (cr_wl st') \<le> ck_counter (cr_wl st1) + 1"
    by blast+
  with IH(2) show ?case by simp
qed

text \<open>A run from a fresh workload, prepopulated or not.\<close>

lemma ckpt_run_inv:
  assumes "calm (wd_store wd0)" "ck_versions w0 = []" "ck_counter w0 = 0" "0 \<le> ck_retain w0"
    and inj: "\<And>m n. 1 \<le> m \<Longrightarrow> 1 \<le> n \<Longrightarrow> addr (ckpt_key w0 m) = addr (ckpt_key w0 n) \<Longrightarrow> m = n"
    and base: "\<And>n. 1 \<le> n \<Longrightarrow> view (wd_store wd0) (addr (ckpt_key w0 n)) = None"
    and pre: "(w, wd) = (w0, wd0) \<or> ckpt_prepopulate entropy cl env0 latency w0 wd0 = (Ok (), w, wd)"
    and start: "ckpt_start env w wd = Ok st" and steps: "(ckpt_step entropy cl env ^^ n) st st'"
    and bound: "int n < 2 ^ 63 - 1"
  shows "ckpt_inv view addr calm (view (wd_store wd0)) w0 st'"
proof -
  have "\<exists>vs c. w = w0\<lparr>ck_versions := vs, ck_counter := c\<rparr> \<and> (c = 0 \<or> c = 1) \<and> calm (wd_store wd) \<and>
      int (length vs) \<le> ck_retain w0 \<and> distinct vs \<and> (\<forall>k \<in> set vs. 1 \<le> c \<and> k = ckpt_key w0 1) \<and>
      (\<forall>k \<in> set vs. view (wd_store wd) (addr k) \<noteq> None) \<and>
      (\<forall>x. x \<notin> addr ` set vs \<longrightarrow> view (wd_store wd) x = view (wd_store wd0) x)"
    using pre
  proof
    assume "(w, wd) = (w0, wd0)"
    then show ?thesis using assms(1-4) by (intro exI [of _ "[]"] exI [of _ 0]) simp
  next
    assume "ckpt_prepopulate entropy cl env0 latency w0 wd0 = (Ok (), w, wd)"
    from ckpt_prepopulate_inv [OF assms(1-4) base this] obtain vs where
      "w = w0\<lparr>ck_versions := vs, ck_counter := 1\<rparr>" "calm (wd_store wd)"
      "int (length vs) \<le> ck_retain w0" "distinct vs" "set vs \<subseteq> {ckpt_key w0 1}"
      "\<forall>k \<in> set vs. view (wd_store wd) (addr k) \<noteq> None"
      "\<forall>x. x \<notin> addr ` set vs \<longrightarrow> view (wd_store wd) x = view (wd_store wd0) x" by blast
    then show ?thesis by (intro exI [of _ vs] exI [of _ 1]) auto
  qed
  then obtain vs c where w: "w = w0\<lparr>ck_versions := vs, ck_counter := c\<rparr>" "c = 0 \<or> c = 1"
    "calm (wd_store wd)" "int (length vs) \<le> ck_retain w0" "distinct vs"
    "\<forall>k \<in> set vs. 1 \<le> c \<and> k = ckpt_key w0 1" "\<forall>k \<in> set vs. view (wd_store wd) (addr k) \<noteq> None"
    "\<forall>x. x \<notin> addr ` set vs \<longrightarrow> view (wd_store wd) x = view (wd_store wd0) x" by blast
  have inv: "ckpt_inv view addr calm (view (wd_store wd0)) w0 st \<and> cr_wl st = w"
    by (rule ckpt_start_inv [OF start w(1)]) (use w(2-8) in auto)
  have "ck_counter (cr_wl st) + int n < 2 ^ 63" using inv w(1,2) bound by auto
  from ckpt_inv_steps [where base = "view (wd_store wd0)" and ?w0.0 = w0, OF steps conjunct1 [OF inv] inj base this]
  show ?thesis by blast
qed

end


subsection \<open>Properties\<close>

lemma distinct_count_le_1:
  assumes "\<And>a. count (mset xs) a \<le> 1"
  shows "distinct xs"
  unfolding distinct_count_atmost_1
proof
  show "count (mset xs) a = (if a \<in> set xs then 1 else 0)" for a
    using assms [of a] count_mset_0_iff [of xs a] by (cases "count (mset xs) a") auto
qed

lemma checkpoint_factory_fresh:
  assumes "checkpoint_factory parse_duration e = Ok w"
  shows "ck_versions w = []" "ck_counter w = 0" "0 < ck_size w"
  using assms by (auto simp: checkpoint_factory_def split: if_splits)

lemma ckpt_addr_inject:
  assumes "inj_on addr (ckpt_key w ` {1..})" "1 \<le> m" "1 \<le> n" "addr (ckpt_key w m) = addr (ckpt_key w n)"
  shows "m = n"
  using inj_onD [OF assms(1,4)] assms(2,3) ckpt_key_inject [of m n w] by simp

text \<open>C5. Retention holds at every moment of every interleaving: on a store that works, a run of a
  freshly built workload, prepopulated or not, tracks at most \<open>retain_versions\<close> versions, all
  distinct and all present in the store, and no object differs from the content before the
  workload except at a tracked version or at a key that some writer is working on.\<close>

theorem ckpt_run_bounded:
  assumes "reliable_store cl view addr calm after" and "calm (wd_store wd0)"
    and "checkpoint_factory parse_duration e = Ok w0" and "0 \<le> ck_retain w0"
    and "inj_on addr (ckpt_key w0 ` {1..})"
    and "\<And>n. 1 \<le> n \<Longrightarrow> view (wd_store wd0) (addr (ckpt_key w0 n)) = None"
    and "(w, wd) = (w0, wd0) \<or> ckpt_prepopulate entropy cl env0 latency w0 wd0 = (Ok (), w, wd)"
    and "ckpt_start env w wd = Ok st" and "(ckpt_step entropy cl env ^^ n) st st'" and "int n < 2 ^ 63 - 1"
  shows "int (length (ck_versions (cr_wl st'))) \<le> ck_retain w0 \<and> distinct (ck_versions (cr_wl st')) \<and>
    (\<forall>k \<in> set (ck_versions (cr_wl st')). view (wd_store (cr_world st')) (addr k) \<noteq> None) \<and>
    (\<forall>x. view (wd_store (cr_world st')) x \<noteq> view (wd_store wd0) x \<longrightarrow> x \<in> addr ` set_mset (tracked st'))"
proof -
  note fresh = checkpoint_factory_fresh [OF assms(3)]
  from reliable_store.ckpt_run_inv [OF assms(1,2) fresh(1,2) assms(4) ckpt_addr_inject [OF assms(5)] assms(6-10)]
  have inv: "ckpt_inv view addr calm (view (wd_store wd0)) w0 st'" .
  note D = ckpt_invD [OF inv]
  have "count (mset (ck_versions (cr_wl st'))) k \<le> 1" for k
    using D(5) [of k] by (simp add: tracked_def)
  then have "distinct (ck_versions (cr_wl st'))" by (rule distinct_count_le_1)
  moreover have "set (ck_versions (cr_wl st')) \<subseteq> set_mset (stored st')" by (auto simp: stored_def)
  moreover have "set_mset (stored st') \<subseteq> set_mset (tracked st')" by (rule set_mset_mono [OF stored_subset])
  ultimately show ?thesis using D(4,7,8) by (meson image_mono subsetD)
qed


text \<open>With a negative \<open>retain_versions\<close>, which the factory accepts, the first commit panics.\<close>

lemma negative_retain_panics:
  "ck_retain w < 0 \<Longrightarrow> commit_version w k = Panic"
  by (simp add: commit_version_def Let_def)

subsection \<open>Every run can end\<close>

text \<open>Once the context has ended no writer starts another checkpoint and the reader no other read: what
  is left are the steps that finish what has been begun. \<open>ckpt_rank\<close> bounds their number.\<close>

definition ckpt_drain :: "bytes \<Rightarrow> 's client \<Rightarrow> env \<Rightarrow> 's ckpt_run \<Rightarrow> 's ckpt_run \<Rightarrow> bool" where
  "ckpt_drain entropy cl env st st' \<longleftrightarrow>
     ckpt_step entropy cl env st st' \<and> ck_counter (cr_wl st') = ck_counter (cr_wl st) \<and>
     (cr_reading st = None \<longrightarrow> cr_reading st' = None)"

fun pc_rank :: "ckpt_pc \<Rightarrow> nat" where
  "pc_rank Ck_idle = 0"
| "pc_rank (Ck_upload k) = 4"
| "pc_rank (Ck_commit k) = 3"
| "pc_rank (Ck_delete ks) = Suc (length ks)"

definition ckpt_rank :: "'s ckpt_run \<Rightarrow> nat" where
  "ckpt_rank st = sum_list (map pc_rank (cr_pcs st)) + (if cr_reading st = None then 0 else 1)"

text \<open>Retention in the large: the list is within its bound, and a writer deletes at most one version.\<close>

definition ckpt_tidy :: "'s ckpt_run \<Rightarrow> bool" where
  "ckpt_tidy st \<longleftrightarrow> int (length (ck_versions (cr_wl st))) \<le> ck_retain (cr_wl st) \<and>
     (\<forall>ks. Ck_delete ks \<in> set (cr_pcs st) \<longrightarrow> length ks \<le> 1)"

lemma rank_update:
  assumes "i < length pcs"
  shows "sum_list (map pc_rank (pcs[i := pc])) + pc_rank (pcs ! i) = sum_list (map pc_rank pcs) + pc_rank pc"
  using assms
proof (induction pcs arbitrary: i)
  case (Cons p pcs)
  then show ?case by (cases i) auto
qed simp

lemma ckpt_rank_set_pc:
  assumes "i < length (cr_pcs st)"
  shows "ckpt_rank (set_pc i pc st) + pc_rank (cr_pcs st ! i) = ckpt_rank st + pc_rank pc"
  using rank_update [OF assms, of pc] by (simp add: ckpt_rank_def)

lemma ckpt_rank_update [simp]:
  "ckpt_rank (st\<lparr>cr_world := wd\<rparr>) = ckpt_rank st" "ckpt_rank (st\<lparr>cr_wl := w\<rparr>) = ckpt_rank st"
  by (simp_all add: ckpt_rank_def)

lemma commit_version_tidy:
  assumes "int (length (ck_versions w)) \<le> ck_retain w"
  obtains vs old where "commit_version w k = Ok (w\<lparr>ck_versions := vs\<rparr>, old)"
    "length old \<le> 1" "int (length vs) \<le> ck_retain w"
proof -
  have "0 \<le> ck_retain w" using assms by linarith
  from commit_version_Ok [OF this, of k] obtain vs old where c: "commit_version w k = Ok (w\<lparr>ck_versions := vs\<rparr>, old)"
    "old @ vs = ck_versions w @ [k]" "int (length vs) \<le> ck_retain w" .
  have "length old \<le> 1"
    using assms c(1) by (auto simp: commit_version_def Let_def split: if_splits)
  with c show thesis using that by blast
qed

lemma tidy_pc:
  assumes "ckpt_tidy st" "pc \<in> set (cr_pcs st)"
  shows "pc_rank pc \<le> 4"
proof (cases pc)
  case (Ck_delete ks)
  then have "length ks \<le> 1" using assms by (auto simp: ckpt_tidy_def)
  then show ?thesis using Ck_delete by simp
qed simp_all

lemma ckpt_step_tidy:
  assumes "ckpt_step entropy cl env st st'" "ckpt_tidy st"
  shows "ckpt_tidy st' \<and> length (cr_pcs st') = length (cr_pcs st) \<and>
    ck_retain (cr_wl st') = ck_retain (cr_wl st) \<and> ck_writers (cr_wl st') = ck_writers (cr_wl st)"
  using assms(1)
proof cases
  case (claim i k w)
  then show ?thesis
    using assms(2) set_update_subset_insert [of "cr_pcs st" i "Ck_upload k"]
    by (auto simp: ckpt_tidy_def next_key_def Let_def)
next
  case (upload i k latency u wd)
  then show ?thesis
    using assms(2) set_update_subset_insert [of "cr_pcs st" i "Ck_commit k"] by (auto simp: ckpt_tidy_def)
next
  case (upload_failed i k latency e wd)
  then show ?thesis
    using assms(2) set_update_subset_insert [of "cr_pcs st" i Ck_idle] by (auto simp: ckpt_tidy_def)
next
  case (commit i k w old)
  have "int (length (ck_versions (cr_wl st))) \<le> ck_retain (cr_wl st)" using assms(2) by (simp add: ckpt_tidy_def)
  then obtain vs where "w = (cr_wl st)\<lparr>ck_versions := vs\<rparr>" "length old \<le> 1" "int (length vs) \<le> ck_retain (cr_wl st)"
    using commit(4) by (metis commit_version_tidy Pair_inject res.inject(1))
  then show ?thesis
    using commit(1) assms(2) set_update_subset_insert [of "cr_pcs st" i "Ck_delete old"]
    by (auto simp: ckpt_tidy_def)
next
  case (delete i k ks out s)
  then have "length (k # ks) \<le> 1" using assms(2) nth_mem [of i "cr_pcs st"] by (auto simp: ckpt_tidy_def)
  then show ?thesis
    using delete(1) assms(2) set_update_subset_insert [of "cr_pcs st" i "Ck_delete ks"]
    by (auto simp: ckpt_tidy_def)
next
  case (finished i)
  then show ?thesis
    using assms(2) set_update_subset_insert [of "cr_pcs st" i Ck_idle] by (auto simp: ckpt_tidy_def)
qed (use assms(2) in \<open>auto simp: ckpt_tidy_def\<close>)

lemma ckpt_steps_tidy:
  assumes "(ckpt_step entropy cl env)\<^sup>*\<^sup>* st st'" "ckpt_tidy st"
  shows "ckpt_tidy st' \<and> length (cr_pcs st') = length (cr_pcs st) \<and> ck_retain (cr_wl st') = ck_retain (cr_wl st)"
  using assms
proof (induction rule: rtranclp_induct)
  case (step y z)
  then show ?case using ckpt_step_tidy [OF step.hyps(2)] by simp
qed simp

lemma wrap64_Suc_neq: "wrap64 (n + 1) \<noteq> n"
proof
  assume n: "wrap64 (n + 1) = n"
  then have "in_int64 n" by (metis in_int64_wrap64)
  show False
  proof (cases "in_int64 (n + 1)")
    case False
    with \<open>in_int64 n\<close> have "n = 2 ^ 63 - 1" by (auto simp: in_int64_iff)
    with n show False by (simp add: wrap64_def)
  qed (use n in simp)
qed

lemma ckpt_drain_rank:
  assumes "ckpt_drain entropy cl env st st'" "ckpt_tidy st"
  shows "ckpt_rank st' < ckpt_rank st"
proof -
  have step: "ckpt_step entropy cl env st st'" and same: "ck_counter (cr_wl st') = ck_counter (cr_wl st)"
    "cr_reading st = None \<longrightarrow> cr_reading st' = None"
    using assms(1) by (simp_all add: ckpt_drain_def)
  show ?thesis
    using step
  proof cases
    case (claim i k w)
    then have "ck_counter (cr_wl st') = wrap64 (ck_counter (cr_wl st) + 1)" by (auto simp: next_key_def Let_def)
    then show ?thesis using same(1) wrap64_Suc_neq [of "ck_counter (cr_wl st)"] by simp
  next
    case (commit i k w old)
    have "int (length (ck_versions (cr_wl st))) \<le> ck_retain (cr_wl st)" using assms(2) by (simp add: ckpt_tidy_def)
    then have "length old \<le> 1" using commit(4) by (metis commit_version_tidy Pair_inject res.inject(1))
    then show ?thesis using commit ckpt_rank_set_pc [of i "st\<lparr>cr_wl := w\<rparr>" "Ck_delete old"] by simp
  next
    case (upload i k latency u wd)
    then show ?thesis using ckpt_rank_set_pc [of i "st\<lparr>cr_world := wd\<rparr>" "Ck_commit k"] by simp
  next
    case (upload_failed i k latency e wd)
    then show ?thesis using ckpt_rank_set_pc [of i "st\<lparr>cr_world := wd\<rparr>" Ck_idle] by simp
  next
    case (delete i k ks out s)
    then show ?thesis
      using ckpt_rank_set_pc [of i "st\<lparr>cr_world := (cr_world st)\<lparr>wd_store := s\<rparr>\<rparr>" "Ck_delete ks"] by simp
  next
    case (finished i)
    then show ?thesis using ckpt_rank_set_pc [of i st Ck_idle] by simp
  next
    case latest
    then show ?thesis using same(2) by simp
  next
    case (read_version k latency u wd)
    then show ?thesis by (simp add: ckpt_rank_def)
  qed
qed
text \<open>A client that returns from every call. What it returns may be an error each time.\<close>

definition returns_at :: "'s client \<Rightarrow> 's \<Rightarrow> bool" where
  "returns_at cl s \<longleftrightarrow> (\<forall>k b n. fst (cl_multipart cl k b n s) \<noteq> Panic) \<and>
     (\<forall>k. fst (cl_delete cl k s) \<noteq> Panic) \<and> (\<forall>k. fst (cl_get cl k s) \<noteq> Panic)"

definition returns :: "'s client \<Rightarrow> bool" where
  "returns cl \<longleftrightarrow> (\<forall>s. returns_at cl s)"

lemma upload_returns:
  assumes "returns_at cl (wd_store wd)" "en_recorder env \<noteq> Rec_nil"
  shows "fst (upload_version entropy cl env r latency w k wd) \<noteq> Panic"
proof -
  obtain out s where out: "cl_multipart cl k (body entropy (ck_size w)) (ck_size w) (wd_store wd) = (out, s)" by fastforce
  then have "out \<noteq> Panic" using assms(1) unfolding returns_at_def by (metis fst_conv)
  then show ?thesis
    using assms(2) out by (cases "en_recorder env") (simp_all add: upload_version_def env_record_def Let_def)
qed

lemma read_latest_returns:
  assumes "returns_at cl (wd_store wd)" "en_recorder env \<noteq> Rec_nil"
  shows "\<exists>wd'. read_latest cl env r latency w k wd = (Ok (), wd')"
proof -
  obtain out s where out: "cl_get cl k (wd_store wd) = (out, s)" by fastforce
  then have "out \<noteq> Panic" using assms(1) unfolding returns_at_def by (metis fst_conv)
  then show ?thesis
    using assms(2) out by (cases "en_recorder env") (simp_all add: read_latest_def env_record_def Let_def)
qed

lemma ckpt_drain_enabled:
  assumes "returns_at cl (wd_store (cr_world st))" "en_recorder env \<noteq> Rec_nil" "ckpt_tidy st" "\<not> ckpt_quiet st"
  shows "\<exists>st'. ckpt_drain entropy cl env st st'"
proof (cases "cr_reading st")
  case (Some k)
  obtain wd' where "read_latest cl env (Some (ck_writers (cr_wl st))) 0 (cr_wl st) k (cr_world st) = (Ok (), wd')"
    using read_latest_returns [OF assms(1,2)] by blast
  from ckpt_step.read_version [OF Some this, of entropy] show ?thesis
    unfolding ckpt_drain_def by (intro exI conjI) (assumption | simp)+
next
  case None
  then obtain i where i: "i < length (cr_pcs st)" "cr_pcs st ! i \<noteq> Ck_idle"
    using assms(4) by (auto simp: ckpt_quiet_def in_set_conv_nth)
  show ?thesis
  proof (cases "cr_pcs st ! i")
    case Ck_idle
    then show ?thesis using i(2) by simp
  next
    case (Ck_upload k)
    obtain out wd' where out: "upload_version entropy cl env (Some (int i)) 0 (cr_wl st) k (cr_world st) = (out, wd')"
      by fastforce
    then have "out \<noteq> Panic" using upload_returns [OF assms(1,2)] by (metis fst_conv)
    then show ?thesis
    proof (cases out)
      case (Ok u)
      show ?thesis
        using ckpt_step.upload [OF i(1) Ck_upload out [unfolded Ok]] by (auto simp: ckpt_drain_def)
    next
      case (Err e)
      show ?thesis
        using ckpt_step.upload_failed [OF i(1) Ck_upload out [unfolded Err]] by (auto simp: ckpt_drain_def)
    qed simp
  next
    case (Ck_commit k)
    have "int (length (ck_versions (cr_wl st))) \<le> ck_retain (cr_wl st)" using assms(3) by (simp add: ckpt_tidy_def)
    from commit_version_tidy [OF this, of k]
    obtain vs old where "commit_version (cr_wl st) k = Ok ((cr_wl st)\<lparr>ck_versions := vs\<rparr>, old)" .
    from ckpt_step.commit [OF i(1) Ck_commit this, of entropy cl env] show ?thesis by (auto simp: ckpt_drain_def)
  next
    case (Ck_delete ks)
    show ?thesis
    proof (cases ks)
      case Nil
      from ckpt_step.finished [OF i(1) Ck_delete [unfolded Nil], of entropy cl env] show ?thesis by (auto simp: ckpt_drain_def)
    next
      case (Cons k js)
      obtain out s where out: "cl_delete cl k (wd_store (cr_world st)) = (out, s)" by fastforce
      then have "out \<noteq> Panic" using assms(1) unfolding returns_at_def by (metis fst_conv)
      from ckpt_step.delete [OF i(1) Ck_delete [unfolded Cons] out this, of entropy env] show ?thesis by (auto simp: ckpt_drain_def)
    qed
  qed
qed

lemma ckpt_drains:
  assumes "returns cl" "en_recorder env \<noteq> Rec_nil" "ckpt_tidy st"
  shows "\<exists>st'. (ckpt_drain entropy cl env)\<^sup>*\<^sup>* st st' \<and> ckpt_quiet st' \<and> ckpt_tidy st'"
  using assms(3)
proof (induction "ckpt_rank st" arbitrary: st rule: less_induct)
  case less
  show ?case
  proof (cases "ckpt_quiet st")
    case False
    then obtain st1 where st1: "ckpt_drain entropy cl env st st1"
      using ckpt_drain_enabled [OF _ assms(2) less.prems] assms(1) unfolding returns_def by blast
    then have "ckpt_tidy st1" using ckpt_step_tidy [of entropy cl env st st1] less.prems by (simp add: ckpt_drain_def)
    then obtain st' where "(ckpt_drain entropy cl env)\<^sup>*\<^sup>* st1 st'" "ckpt_quiet st'" "ckpt_tidy st'"
      using less.hyps [OF ckpt_drain_rank [OF st1 less.prems]] by blast
    then show ?thesis using st1 by (meson converse_rtranclp_into_rtranclp)
  qed (use less.prems in blast)
qed

lemma ckpt_rank_bound:
  assumes "ckpt_tidy st"
  shows "ckpt_rank st \<le> 4 * length (cr_pcs st) + 1"
proof -
  have "sum_list (map pc_rank (cr_pcs st)) \<le> sum_list (map (\<lambda>_. 4) (cr_pcs st))"
    using tidy_pc [OF assms] by (intro sum_list_mono)
  then show ?thesis by (simp add: ckpt_rank_def sum_list_triv mult.commute)
qed


subsection \<open>A concrete run\<close>

definition ckpt_entry :: workload_entry where
  "ckpt_entry = \<lparr>we_name = ''c'', we_type = ''checkpointing'', we_weight = 1, we_object_size = 1,
     we_threads = 0, we_duration = 0,
     we_params = [(''writers'', Y_int 1), (''retain_versions'', Y_float 2)]\<rparr>"

definition ckpt_sample :: checkpoint where
  "ckpt_sample = \<lparr>ck_name = ''c'', ck_key_prefix = ''c/ckpt-'', ck_size = 1, ck_writers = 1, ck_retain = 2,
     ck_burst = 60000000000, ck_resume = False, ck_versions = [], ck_counter = 0\<rparr>"

lemma ckpt_sample_built: "checkpoint_factory (\<lambda>_. None) ckpt_entry = Ok ckpt_sample"
proof -
  have "float_to_int64 2 = 2" using float_to_int64_of_int [of 2] by simp
  then show ?thesis
    by (simp add: checkpoint_factory_def ckpt_entry_def ckpt_sample_def int_param_def duration_param_def bool_param_def)
qed

text \<open>One writer claims, uploads and commits checkpoint 1 on the empty in-memory store.\<close>

lemma ckpt_sample_run:
  "\<exists>st st'. ckpt_start race_env ckpt_sample race_world = Ok st \<and>
     (ckpt_step (fill_entropy []) fake_client race_env ^^ 4) st st' \<and> ckpt_quiet st' \<and>
     ck_versions (cr_wl st') = [ckpt_key ckpt_sample 1]"
proof -
  let ?step = "ckpt_step (fill_entropy []) fake_client race_env"
  define k where "k = ckpt_key ckpt_sample 1"
  define wd0 where "wd0 = race_world\<lparr>wd_calls := [Shard_for 0]\<rparr>"
  define w1 where "w1 = ckpt_sample\<lparr>ck_counter := 1\<rparr>"
  define st0 where "st0 = \<lparr>cr_wl = ckpt_sample, cr_world = wd0, cr_pcs = [Ck_idle], cr_reading = None\<rparr>"
  have start: "ckpt_start race_env ckpt_sample race_world = Ok st0"
    by (simp add: ckpt_start_def race_env_def race_world_def env_shard_for_def ckpt_sample_def st0_def wd0_def upt_rec)
  obtain wd1 where up: "upload_version (fill_entropy []) fake_client race_env (Some (int 0)) 5 w1 k wd0 = (Ok (), wd1)"
    by (simp add: upload_version_def wd0_def race_world_def race_env_def fake_multipart_def fake_put_def check_fail_def
        fake_new_def env_record_def)
  have s1: "?step st0 (set_pc 0 (Ck_upload k) (st0\<lparr>cr_wl := w1\<rparr>))"
    by (rule ckpt_step.claim) (simp_all add: st0_def next_key_def w1_def k_def ckpt_sample_def Let_def)
  let ?st1 = "set_pc 0 (Ck_upload k) (st0\<lparr>cr_wl := w1\<rparr>)"
  have s2: "?step ?st1 (set_pc 0 (Ck_commit k) (?st1\<lparr>cr_world := wd1\<rparr>))"
    by (rule ckpt_step.upload [where latency = 5 and u = "()"]) (use up in \<open>simp_all add: st0_def set_pc_def\<close>)
  let ?st2 = "set_pc 0 (Ck_commit k) (?st1\<lparr>cr_world := wd1\<rparr>)"
  let ?w2 = "w1\<lparr>ck_versions := [k]\<rparr>"
  have s3: "?step ?st2 (set_pc 0 (Ck_delete []) (?st2\<lparr>cr_wl := ?w2\<rparr>))"
    by (rule ckpt_step.commit [where k = k])
      (simp_all add: st0_def set_pc_def commit_version_def w1_def ckpt_sample_def)
  let ?st3 = "set_pc 0 (Ck_delete []) (?st2\<lparr>cr_wl := ?w2\<rparr>)"
  have s4: "?step ?st3 (set_pc 0 Ck_idle ?st3)"
    by (rule ckpt_step.finished) (simp_all add: st0_def set_pc_def)
  have "(?step ^^ 4) st0 (set_pc 0 Ck_idle ?st3)"
    unfolding eval_nat_numeral BitM.simps
    by (rule relpowp_Suc_I [where P = ?step, OF relpowp_Suc_I [where P = ?step, OF relpowp_Suc_I [where P = ?step,
      OF relpowp_Suc_I [where P = ?step, OF relpowp_0_I s1] s2] s3] s4])
  moreover have "ckpt_quiet (set_pc 0 Ck_idle ?st3)" by (simp add: ckpt_quiet_def st0_def set_pc_def)
  ultimately show ?thesis using start by (auto simp: k_def)
qed

lemma ckpt_sample_world:
  "fake_calm (wd_store race_world)" "inj_on id (ckpt_key ckpt_sample ` {1..})"
  "\<And>n. fake_view (wd_store race_world) (id (ckpt_key ckpt_sample n)) = None"
  by (simp_all add: race_world_calm)

theorem ckpt_run_bounded_witness:
  "\<exists>st st'. ckpt_start race_env ckpt_sample race_world = Ok st \<and>
     (ckpt_step (fill_entropy []) fake_client race_env ^^ 4) st st' \<and>
     int (length (ck_versions (cr_wl st'))) \<le> 2 \<and>
     fake_view (wd_store (cr_world st')) (ckpt_key ckpt_sample 1) \<noteq> None"
proof -
  obtain st st' where run: "ckpt_start race_env ckpt_sample race_world = Ok st"
    "(ckpt_step (fill_entropy []) fake_client race_env ^^ 4) st st'"
    "ck_versions (cr_wl st') = [ckpt_key ckpt_sample 1]"
    using ckpt_sample_run by blast
  have "0 \<le> ck_retain ckpt_sample" by (simp add: ckpt_sample_def)
  from ckpt_run_bounded [OF fake.reliable_store_axioms ckpt_sample_world(1) ckpt_sample_built this
      ckpt_sample_world(2,3) disjI1 [OF refl] run(1,2)] run
  show ?thesis by (auto simp: ckpt_sample_def)
qed


text \<open>The in-memory client returns from every call, with faults or without.\<close>

lemma fake_returns: "returns fake_client"
  by (auto simp: returns_def returns_at_def fake_op_defs Let_def check_fail_def split: option.splits prod.splits)


end
