(* ===== verification/Dataloader.thy ===== *)
theory Dataloader
  imports Object_Workloads
begin

section \<open>Training data (\<open>internal/workload/dataloader/dataloader.go\<close>)\<close>

text \<open>
  A data set of objects with lognormal sizes is uploaded first; the workers then read it in one of
  three access patterns. A worker's steps are the choice of the next key, which in the sequential
  pattern takes the shared atomic counter, and the client call. \<open>uint64\<close> is \<open>64 word\<close>; \<open>gauss\<close>,
  \<open>source\<close> and \<open>parse_float\<close> are the parameters of \<open>Sizedist\<close> and \<open>Params\<close>.
\<close>

unbundle bit_operations_syntax

record dataloader =
  dl_name :: string
  dl_key_prefix :: string
  dl_count :: int
  dl_size_mean :: real
  dl_size_sigma :: real
  dl_size_min :: int
  dl_size_max :: int
  dl_pattern :: string
  dl_zipf_s :: real
  dl_range_prob :: real
  dl_keys :: "string list"
  dl_seq :: int

definition dl_factory :: "(string \<Rightarrow> real option) \<Rightarrow> dataloader factory" where
  "dl_factory parse_float w =
     (let p = we_params w;
          count = int_param p ''object_count'' 1000;
          pattern = string_param p ''access_pattern'' ''shuffled''
      in if count \<le> 0 then Err (Plain_error (''dataloader '' @ we_name w @ '': object_count must be >0''))
      else if pattern \<notin> {''sequential'', ''shuffled'', ''zipfian''}
      then Err (Plain_error (''dataloader '' @ we_name w @ '': access_pattern '' @ pattern @ '' not supported''))
      else Ok \<lparr>dl_name = we_name w, dl_key_prefix = we_name w @ ''/obj-'', dl_count = count,
               dl_size_mean = of_int (size_param p ''size_mean'' 524288),
               dl_size_sigma = float_param parse_float p ''size_sigma'' (8 / 10),
               dl_size_min = size_param p ''size_min'' 65536, dl_size_max = size_param p ''size_max'' 4194304,
               dl_pattern = pattern, dl_zipf_s = float_param parse_float p ''zipfian_s'' (107 / 100),
               dl_range_prob = float_param parse_float p ''range_probability'' 0,
               dl_keys = [], dl_seq = 0\<rparr>)"

definition dl_key :: "dataloader \<Rightarrow> int \<Rightarrow> string" where
  "dl_key w i = append_key_padded (dl_key_prefix w) i 8"

subsection \<open>Prepopulation\<close>

text \<open>The upload loop. The sampler of an environment without \<open>Rand\<close> panics on its first draw. The
  sampler draws from the environment's own generator, which the result returns advanced.\<close>

fun dl_fill ::
  "bytes \<Rightarrow> (int \<Rightarrow> real) \<Rightarrow> 's client \<Rightarrow> (int \<Rightarrow> string) \<Rightarrow> nat list \<Rightarrow> bool \<Rightarrow> lognormal \<Rightarrow> 's
     \<Rightarrow> string list res \<times> lognormal \<times> 's" where
  "dl_fill entropy gauss cl key [] has_rand l s = (Ok [], l, s)"
| "dl_fill entropy gauss cl key (i # is) has_rand l s =
     (if \<not> has_rand then (Panic, l, s)
      else let (size, l1) = lognormal_sample gauss l; k = key (int i) in
        case cl_put cl k (body entropy size) size s of
          (Err e, s1) \<Rightarrow> (Err e, l1, s1)
        | (Panic, s1) \<Rightarrow> (Panic, l1, s1)
        | (Ok _, s1) \<Rightarrow>
            (case dl_fill entropy gauss cl key is has_rand l1 s1 of
               (Ok ks, r) \<Rightarrow> (Ok (k # ks), r)
             | (Err e, r) \<Rightarrow> (Err e, r)
             | (Panic, r) \<Rightarrow> (Panic, r)))"

definition env_rng :: "env \<Rightarrow> rng" where
  "env_rng env = (case en_rand env of Some r \<Rightarrow> r | None \<Rightarrow> sconst 0)"

definition dl_prepopulate ::
  "bytes \<Rightarrow> (int \<Rightarrow> real) \<Rightarrow> 's client \<Rightarrow> env \<Rightarrow> dataloader \<Rightarrow> 's world
     \<Rightarrow> unit res \<times> dataloader \<times> env \<times> 's world" where
  "dl_prepopulate entropy gauss cl env w wd =
     (case new_lognormal (dl_size_mean w) (dl_size_sigma w) (dl_size_min w) (dl_size_max w) (env_rng env) of
        Err e \<Rightarrow> (Err e, w, env, wd)
      | Panic \<Rightarrow> (Panic, w, env, wd)
      | Ok l \<Rightarrow>
          (let (out, l1, s) = dl_fill entropy gauss cl (dl_key w) [0..<nat (dl_count w)] (en_rand env \<noteq> None) l (wd_store wd);
               env1 = env\<lparr>en_rand := map_option (\<lambda>_. lg_rng l1) (en_rand env)\<rparr>;
               wd1 = wd\<lparr>wd_store := s\<rparr>
           in case out of
                Ok ks \<Rightarrow> (Ok (), w\<lparr>dl_keys := ks\<rparr>, env1, wd1)
              | Err e \<Rightarrow> (Err e, w, env1, wd1)
              | Panic \<Rightarrow> (Panic, w, env1, wd1)))"

subsection \<open>Key selection\<close>

definition mix64 :: "64 word \<Rightarrow> 64 word" where
  "mix64 x0 =
     (let x1 = x0 XOR drop_bit 30 x0;
          x2 = x1 * 0xbf58476d1ce4e5b9;
          x3 = x2 XOR drop_bit 27 x2;
          x4 = x3 * 0x94d049bb133111eb
      in x4 XOR drop_bit 31 x4)"

definition shuffle_seed :: "nat \<Rightarrow> 64 word" where
  "shuffle_seed i = of_nat i * 0x9E3779B97F4A7C15 + 1"

definition key_at :: "string list \<Rightarrow> int \<Rightarrow> string res" where
  "key_at keys i = (if 0 \<le> i \<and> i < int (length keys) then Ok (keys ! nat i) else Panic)"

definition dl_next_key ::
  "dataloader \<Rightarrow> 64 word \<Rightarrow> 64 word \<Rightarrow> zipfian option \<Rightarrow> (string \<times> dataloader \<times> zipfian option) res" where
  "dl_next_key w seed counter z =
     (let keys = dl_keys w; len = int (length keys) in
      if dl_pattern w = ''sequential'' then
        (let n = wrap64 (dl_seq w + 1) in
         case key_at keys (go_mod (wrap64 (n - 1)) len) of
           Ok k \<Rightarrow> Ok (k, w\<lparr>dl_seq := n\<rparr>, z) | Err e \<Rightarrow> Err e | Panic \<Rightarrow> Panic)
      else if dl_pattern w = ''zipfian'' then
        (case z of
           None \<Rightarrow> Panic
         | Some z0 \<Rightarrow>
             (let (i, z1) = zipfian_sample z0 in
              case key_at keys i of Ok k \<Rightarrow> Ok (k, w, Some z1) | Err e \<Rightarrow> Err e | Panic \<Rightarrow> Panic))
      else
        (case key_at keys (uint (mix64 (seed + counter)) mod len) of
           Ok k \<Rightarrow> Ok (k, w, z) | Err e \<Rightarrow> Err e | Panic \<Rightarrow> Panic))"

subsection \<open>Workers\<close>

datatype dl_pc = Dl_loop | Dl_get string | Dl_range string

record dl_worker =
  dw_pc :: dl_pc
  dw_rng :: rng
  dw_zipf :: "zipfian option"
  dw_counter :: "64 word"

definition dl_choose :: "nat \<Rightarrow> dataloader \<Rightarrow> dl_worker \<Rightarrow> (dataloader \<times> dl_worker) res" where
  "dl_choose i w k =
     (let c = dw_counter k + 1 in
      case dl_next_key w (shuffle_seed i) c (dw_zipf k) of
        Ok (key, w1, z) \<Rightarrow>
          (let (f, r) = float64 (dw_rng k) in
           Ok (w1, \<lparr>dw_pc = (if f < dl_range_prob w then Dl_range key else Dl_get key),
                    dw_rng = r, dw_zipf = z, dw_counter = c\<rparr>))
      | Err e \<Rightarrow> Err e
      | Panic \<Rightarrow> Panic)"

definition do_get ::
  "'s client \<Rightarrow> env \<Rightarrow> recorder \<Rightarrow> int \<Rightarrow> dataloader \<Rightarrow> string \<Rightarrow> 's world \<Rightarrow> 's world res" where
  "do_get cl env r latency w key wd =
     (let call = cl_get cl key (wd_store wd) in
      record_call env r (dl_name w) OpGet latency (read_bytes (fst call)) call wd)"

definition do_range_get ::
  "'s client \<Rightarrow> env \<Rightarrow> recorder \<Rightarrow> int \<Rightarrow> dataloader \<Rightarrow> string \<Rightarrow> 's world \<Rightarrow> 's world res" where
  "do_range_get cl env r latency w key wd =
     (let call = cl_range_get cl key 0 65536 (wd_store wd) in
      record_call env r (dl_name w) OpRangeGet latency (read_bytes (fst call)) call wd)"

definition dl_act :: "'s client \<Rightarrow> env \<Rightarrow> (dataloader, dl_worker, 's) act" where
  "dl_act cl env i latency w k wd =
     (case dw_pc k of
        Dl_loop \<Rightarrow>
          (case dl_choose i w k of
             Ok (w1, k1) \<Rightarrow> Ok (w1, k1, wd) | Err e \<Rightarrow> Err e | Panic \<Rightarrow> Panic)
      | Dl_get key \<Rightarrow> after_call w (k\<lparr>dw_pc := Dl_loop\<rparr>) (do_get cl env (Some (int i)) latency w key wd)
      | Dl_range key \<Rightarrow> after_call w (k\<lparr>dw_pc := Dl_loop\<rparr>) (do_range_get cl env (Some (int i)) latency w key wd))"

text \<open>The start of \<open>Run\<close>: in the zipfian pattern every worker clones one template.\<close>

definition dl_template :: "env \<Rightarrow> dataloader \<Rightarrow> zipfian option res" where
  "dl_template env w =
     (if dl_pattern w = ''zipfian'' then
        (case new_zipfian (int (length (dl_keys w))) (dl_zipf_s w) (env_rng env) of
           Ok z \<Rightarrow> Ok (Some z) | Err e \<Rightarrow> Err e | Panic \<Rightarrow> Panic)
      else Ok None)"

definition dl_start ::
  "(int \<Rightarrow> rng) \<Rightarrow> env \<Rightarrow> dataloader \<Rightarrow> 's world \<Rightarrow> (dataloader, dl_worker, 's) crew res" where
  "dl_start source env w wd =
     (if en_threads env \<le> 0
      then Err (Plain_error (''dataloader '' @ dl_name w @ '': threads must be >0''))
      else if dl_keys w = []
      then Err (Plain_error (''dataloader '' @ dl_name w @ '': dataset empty; prepopulate first''))
      else case dl_template env w of
             Err e \<Rightarrow> Err e
           | Panic \<Rightarrow> Panic
           | Ok t \<Rightarrow>
               (let ids = [0..<nat (en_threads env)] in
                case shard_all env ids wd of
                  Ok wd1 \<Rightarrow> Ok \<lparr>cw_wl = w, cw_world = wd1,
                    cw_workers = map (\<lambda>i. \<lparr>dw_pc = Dl_loop, dw_rng = worker_rand source (Some env) (int i),
                      dw_zipf = map_option (zipfian_for_worker source (int i)) t, dw_counter = 0\<rparr>) ids\<rparr>
                | Err e \<Rightarrow> Err e
                | Panic \<Rightarrow> Panic))"

definition dl_cleanup :: "'s client \<Rightarrow> dataloader \<Rightarrow> 's world \<Rightarrow> unit res \<times> 's world" where
  "dl_cleanup cl w wd =
     (case delete_keys cl (dl_keys w) (wd_store wd) of (out, s) \<Rightarrow> (out, wd\<lparr>wd_store := s\<rparr>))"


subsection \<open>The hash of the shuffled pattern\<close>

definition xorshift :: "nat \<Rightarrow> 64 word \<Rightarrow> 64 word" where
  "xorshift n x = x XOR drop_bit n x"

definition unxorshift :: "nat \<Rightarrow> 64 word \<Rightarrow> 64 word" where
  "unxorshift n y = y XOR drop_bit n y XOR drop_bit (2 * n) y"

definition unmix64 :: "64 word \<Rightarrow> 64 word" where
  "unmix64 y =
     unxorshift 30 (unxorshift 27 (unxorshift 31 y * 0x319642b2d24d8ec3) * 0x96de1b173f119089)"

lemma drop_bit_all: "64 \<le> n \<Longrightarrow> drop_bit n (x :: 64 word) = 0"
  by (rule bit_eqI) (auto simp: bit_drop_bit_eq dest: bit_imp_le_length)

lemma xor_cancel: "a XOR (a XOR b) = (b :: 64 word)"
  by (simp add: xor.assoc [symmetric])

lemma xorshift_inverse:
  assumes "64 \<le> 3 * n"
  shows "unxorshift n (xorshift n x) = x" "xorshift n (unxorshift n x) = x"
proof -
  have zero: "drop_bit (n + (n + n)) x = 0" "drop_bit (n + n + n) x = 0" using assms by (intro drop_bit_all; linarith)+
  show "unxorshift n (xorshift n x) = x" "xorshift n (unxorshift n x) = x"
    unfolding xorshift_def unxorshift_def mult_2 using zero
    by (simp_all add: xor.assoc xor.left_commute xor_cancel)
qed

lemma mult_inverses:
  "x * 0xbf58476d1ce4e5b9 * 0x96de1b173f119089 = (x :: 64 word)"
  "x * 0x96de1b173f119089 * 0xbf58476d1ce4e5b9 = (x :: 64 word)"
  "x * 0x94d049bb133111eb * 0x319642b2d24d8ec3 = (x :: 64 word)"
  "x * 0x319642b2d24d8ec3 * 0x94d049bb133111eb = (x :: 64 word)"
proof -
  have one: "0xbf58476d1ce4e5b9 * 0x96de1b173f119089 = (1 :: 64 word)"
    "0x94d049bb133111eb * 0x319642b2d24d8ec3 = (1 :: 64 word)"
    by (transfer, simp add: take_bit_eq_mod)+
  show "x * 0xbf58476d1ce4e5b9 * 0x96de1b173f119089 = x" "x * 0x96de1b173f119089 * 0xbf58476d1ce4e5b9 = x"
    "x * 0x94d049bb133111eb * 0x319642b2d24d8ec3 = x" "x * 0x319642b2d24d8ec3 * 0x94d049bb133111eb = x"
    using one by (simp_all only: mult.assoc mult.commute [of "0x96de1b173f119089 :: 64 word"]
        mult.commute [of "0x319642b2d24d8ec3 :: 64 word"] mult_1_right)
qed

lemma mix64_xorshift:
  "mix64 x = xorshift 31 (xorshift 27 (xorshift 30 x * 0xbf58476d1ce4e5b9) * 0x94d049bb133111eb)"
  by (simp add: mix64_def xorshift_def Let_def)

text \<open>The finaliser behind the shuffled pattern loses nothing: it is a permutation of the 64-bit
  words, with an explicit inverse, so a worker's successive counters never collide before the
  reduction modulo the number of keys.\<close>

theorem mix64_invertible:
  "unmix64 (mix64 x) = x \<and> mix64 (unmix64 x) = x"
proof -
  have big: "64 \<le> 3 * (30::nat)" "64 \<le> 3 * (27::nat)" "64 \<le> 3 * (31::nat)" by simp_all
  show ?thesis
    by (simp only: mix64_xorshift unmix64_def mult_inverses big [THEN xorshift_inverse(1)]
        big [THEN xorshift_inverse(2)])
qed


subsection \<open>The sequential pattern\<close>

text \<open>A series of claims, each made by some worker with its own seed and counter.\<close>

fun claim_keys :: "(64 word \<times> 64 word) list \<Rightarrow> dataloader \<Rightarrow> (string list \<times> dataloader) res" where
  "claim_keys [] w = Ok ([], w)"
| "claim_keys ((seed, c) # cs) w =
     (case dl_next_key w seed c None of
        Ok (k, w1, z) \<Rightarrow>
          (case claim_keys cs w1 of
             Ok (ks, w2) \<Rightarrow> Ok (k # ks, w2) | Err e \<Rightarrow> Err e | Panic \<Rightarrow> Panic)
      | Err e \<Rightarrow> Err e
      | Panic \<Rightarrow> Panic)"

lemma key_at_Ok: "0 \<le> i \<Longrightarrow> i < int (length keys) \<Longrightarrow> key_at keys i = Ok (keys ! nat i)"
  by (simp add: key_at_def)

lemma sequential_next:
  assumes "dl_pattern w = ''sequential''" "dl_keys w \<noteq> []" "0 \<le> dl_seq w" "dl_seq w + 1 < 2 ^ 63"
  shows "dl_next_key w seed c z =
    Ok (dl_keys w ! (nat (dl_seq w) mod length (dl_keys w)), w\<lparr>dl_seq := dl_seq w + 1\<rparr>, z)"
proof -
  have wrap: "wrap64 (dl_seq w + 1) = dl_seq w + 1" "wrap64 (dl_seq w) = dl_seq w"
    using assms(3,4) by (simp_all add: in_int64_iff)
  have "go_mod (dl_seq w) (int (length (dl_keys w))) = dl_seq w mod int (length (dl_keys w))"
    using assms(3) by (cases "dl_seq w = 0") (simp_all add: go_mod_def)
  moreover have "nat (dl_seq w mod int (length (dl_keys w))) = nat (dl_seq w) mod length (dl_keys w)"
    using assms(3) by (simp add: nat_mod_distrib)
  ultimately show ?thesis
    using assms(1,2) wrap by (simp add: dl_next_key_def Let_def key_at_Ok)
qed

text \<open>C32. The sequential pattern is a round robin over the data set, whichever workers make the claims:
  the \<open>i\<close>-th claim from counter \<open>c\<close> gets key \<open>(c + i) mod n\<close>, so every \<open>n\<close> consecutive claims
  read each key exactly once, in order from where the counter stood.\<close>

theorem sequential_round_robin:
  assumes "dl_pattern w = ''sequential''" and "dl_keys w \<noteq> []" and "0 \<le> dl_seq w"
    and "dl_seq w + int (length cs) < 2 ^ 63"
  shows "claim_keys cs w =
      Ok (map (\<lambda>i. dl_keys w ! ((nat (dl_seq w) + i) mod length (dl_keys w))) [0..<length cs],
          w\<lparr>dl_seq := dl_seq w + int (length cs)\<rparr>) \<and>
    (length cs = length (dl_keys w) \<longrightarrow>
      (\<exists>w'. claim_keys cs w = Ok (rotate (nat (dl_seq w)) (dl_keys w), w')))"
proof (rule context_conjI)
  show "claim_keys cs w =
      Ok (map (\<lambda>i. dl_keys w ! ((nat (dl_seq w) + i) mod length (dl_keys w))) [0..<length cs],
          w\<lparr>dl_seq := dl_seq w + int (length cs)\<rparr>)"
    using assms
  proof (induction cs arbitrary: w)
    case (Cons sc cs)
    let ?w = "w\<lparr>dl_seq := dl_seq w + 1\<rparr>"
    have "claim_keys cs ?w =
        Ok (map (\<lambda>i. dl_keys ?w ! ((nat (dl_seq ?w) + i) mod length (dl_keys ?w))) [0..<length cs],
            ?w\<lparr>dl_seq := dl_seq ?w + int (length cs)\<rparr>)"
      by (rule Cons.IH) (use Cons.prems in simp_all)
    moreover have "nat (dl_seq w + 1) = Suc (nat (dl_seq w))" using Cons.prems(3) by simp
    ultimately show ?case
      using Cons.prems by (cases sc) (simp add: sequential_next map_upt_Suc algebra_simps del: upt_Suc)
  qed simp
next
  assume "claim_keys cs w =
      Ok (map (\<lambda>i. dl_keys w ! ((nat (dl_seq w) + i) mod length (dl_keys w))) [0..<length cs],
          w\<lparr>dl_seq := dl_seq w + int (length cs)\<rparr>)"
  moreover have "rotate (nat (dl_seq w)) (dl_keys w) =
      map (\<lambda>i. dl_keys w ! ((nat (dl_seq w) + i) mod length (dl_keys w))) [0..<length (dl_keys w)]"
    by (rule nth_equalityI) (simp_all add: nth_rotate)
  ultimately show "length cs = length (dl_keys w) \<longrightarrow>
      (\<exists>w'. claim_keys cs w = Ok (rotate (nat (dl_seq w)) (dl_keys w), w'))" by auto
qed

definition seq_sample :: dataloader where
  "seq_sample = \<lparr>dl_name = ''d'', dl_key_prefix = ''d/obj-'', dl_count = 3, dl_size_mean = 1, dl_size_sigma = 1,
     dl_size_min = 1, dl_size_max = 2, dl_pattern = ''sequential'', dl_zipf_s = 2, dl_range_prob = 0,
     dl_keys = [''a'', ''b'', ''c''], dl_seq = 4\<rparr>"

theorem sequential_round_robin_witness:
  "\<exists>w'. claim_keys [(1, 1), (7, 1), (1, 2)] seq_sample = Ok ([''b'', ''c'', ''a''], w')"
proof -
  have hyps: "dl_pattern seq_sample = ''sequential''" "dl_keys seq_sample \<noteq> []" "0 \<le> dl_seq seq_sample"
    "dl_seq seq_sample + int (length [(1 :: 64 word, 1 :: 64 word), (7, 1), (1, 2)]) < 2 ^ 63"
    "length [(1 :: 64 word, 1 :: 64 word), (7, 1), (1, 2)] = length (dl_keys seq_sample)"
    by (simp_all add: seq_sample_def)
  have "rotate (nat (dl_seq seq_sample)) (dl_keys seq_sample) = [''b'', ''c'', ''a'']"
    by (simp add: seq_sample_def rotate_drop_take)
  then show ?thesis using sequential_round_robin [OF hyps(1-4)] hyps(5) by metis
qed


subsection \<open>A run on a store that works\<close>

definition dl_worker_ok :: "dataloader \<Rightarrow> dl_worker \<Rightarrow> bool" where
  "dl_worker_ok w k \<longleftrightarrow>
     (case dw_pc k of
        Dl_loop \<Rightarrow> True
      | Dl_get key \<Rightarrow> key \<in> set (dl_keys w)
      | Dl_range key \<Rightarrow> key \<in> set (dl_keys w) \<and> 0 < dl_range_prob w) \<and>
     (dl_pattern w = ''zipfian'' \<longrightarrow>
       (\<exists>z. dw_zipf k = Some z \<and> 0 \<le> zf_imax z \<and> zf_imax z < int (length (dl_keys w))))"

lemma dl_worker_ok_seq [simp]: "dl_worker_ok (w\<lparr>dl_seq := n\<rparr>) k = dl_worker_ok w k"
  by (simp add: dl_worker_ok_def split: dl_pc.split)

lemma dl_worker_ok_loop: "dl_worker_ok w k \<Longrightarrow> dl_worker_ok w (k\<lparr>dw_pc := Dl_loop\<rparr>)"
  by (simp add: dl_worker_ok_def)

lemma dl_next_key_ok:
  assumes "dl_keys w \<noteq> []" "0 \<le> dl_seq w" "dl_seq w + 1 < 2 ^ 63"
    and z: "dl_pattern w = ''zipfian'' \<longrightarrow>
      (\<exists>z0. z = Some z0 \<and> 0 \<le> zf_imax z0 \<and> zf_imax z0 < int (length (dl_keys w)))"
  obtains key n z' where "dl_next_key w seed c z = Ok (key, w\<lparr>dl_seq := n\<rparr>, z')"
    "key \<in> set (dl_keys w)" "dl_seq w \<le> n" "n \<le> dl_seq w + 1"
    "dl_pattern w = ''zipfian'' \<longrightarrow>
      (\<exists>z0. z' = Some z0 \<and> 0 \<le> zf_imax z0 \<and> zf_imax z0 < int (length (dl_keys w)))"
proof -
  have same: "w = w\<lparr>dl_seq := dl_seq w\<rparr>" by simp
  consider (seq) "dl_pattern w = ''sequential''" | (zipf) "dl_pattern w = ''zipfian''"
    | (shuffled) "dl_pattern w \<noteq> ''sequential''" "dl_pattern w \<noteq> ''zipfian''" by blast
  then show thesis
  proof cases
    case seq
    then show thesis
      using assms(1) by (intro that [OF sequential_next [OF seq assms(1-3)]]) simp_all
  next
    case zipf
    then obtain z0 where z0: "z = Some z0" "0 \<le> zf_imax z0" "zf_imax z0 < int (length (dl_keys w))"
      using z by blast
    define i where "i = shd (zf_rng z0) mod (zf_imax z0 + 1)"
    have i: "0 \<le> i" "i < int (length (dl_keys w))"
      using z0 pos_mod_bound [of "zf_imax z0 + 1" "shd (zf_rng z0)"] by (auto simp: i_def)
    then have next_key: "dl_next_key w seed c z =
        Ok (dl_keys w ! nat i, w\<lparr>dl_seq := dl_seq w\<rparr>, Some (z0\<lparr>zf_rng := stl (zf_rng z0)\<rparr>))"
      using zipf z0(1) by (simp add: dl_next_key_def zipfian_sample_def i_def [symmetric] key_at_Ok Let_def)
    show thesis using z0 i by (intro that [OF next_key]) simp_all
  next
    case shuffled
    define i where "i = uint (mix64 (seed + c)) mod int (length (dl_keys w))"
    have i: "0 \<le> i" "i < int (length (dl_keys w))" using assms(1) by (simp_all add: i_def)
    then have next_key: "dl_next_key w seed c z = Ok (dl_keys w ! nat i, w\<lparr>dl_seq := dl_seq w\<rparr>, z)"
      using shuffled by (simp add: dl_next_key_def i_def [symmetric] key_at_Ok Let_def)
    show thesis using i shuffled by (intro that [OF next_key]) simp_all
  qed
qed

lemma dl_choose_ok:
  assumes "dl_keys w \<noteq> []" "0 \<le> dl_seq w" "dl_seq w + 1 < 2 ^ 63" "dl_worker_ok w k"
  obtains n k' where "dl_choose i w k = Ok (w\<lparr>dl_seq := n\<rparr>, k')" "dl_seq w \<le> n" "n \<le> dl_seq w + 1"
    "dl_worker_ok w k'"
proof -
  have z: "dl_pattern w = ''zipfian'' \<longrightarrow>
      (\<exists>z0. dw_zipf k = Some z0 \<and> 0 \<le> zf_imax z0 \<and> zf_imax z0 < int (length (dl_keys w)))"
    using assms(4) by (simp add: dl_worker_ok_def)
  obtain key n z' where next_key: "dl_next_key w (shuffle_seed i) (dw_counter k + 1) (dw_zipf k) =
      Ok (key, w\<lparr>dl_seq := n\<rparr>, z')" "key \<in> set (dl_keys w)" "dl_seq w \<le> n" "n \<le> dl_seq w + 1"
    "dl_pattern w = ''zipfian'' \<longrightarrow>
      (\<exists>z0. z' = Some z0 \<and> 0 \<le> zf_imax z0 \<and> zf_imax z0 < int (length (dl_keys w)))"
    using dl_next_key_ok [OF assms(1-3) z] by metis
  obtain f r where f: "float64 (dw_rng k) = (f, r)" "0 \<le> f" using float64_range [of "dw_rng k"] by (cases "float64 (dw_rng k)") auto
  show thesis
    using next_key f by (intro that [of n]) (auto simp: dl_choose_def dl_worker_ok_def Let_def)
qed

text \<open>\<open>w1\<close> is the workload at the start, \<open>v\<close> the content of the store, \<open>es0\<close> the events so far.\<close>

definition dl_inv ::
  "('s \<Rightarrow> string \<Rightarrow> bytes option) \<Rightarrow> ('s \<Rightarrow> bool) \<Rightarrow> dataloader \<Rightarrow> (string \<Rightarrow> bytes option) \<Rightarrow> event list
     \<Rightarrow> nat \<Rightarrow> dataloader \<Rightarrow> dl_worker list \<Rightarrow> 's world \<Rightarrow> bool" where
  "dl_inv view calm w1 v es0 m w ks wd \<longleftrightarrow>
     w = w1\<lparr>dl_seq := dl_seq w\<rparr> \<and> dl_seq w1 \<le> dl_seq w \<and> dl_seq w \<le> dl_seq w1 + int m \<and>
     calm (wd_store wd) \<and> view (wd_store wd) = v \<and> (\<forall>k \<in> set ks. dl_worker_ok w1 k) \<and>
     (\<exists>es. recorded (wd_calls wd) = es0 @ es \<and> (\<forall>e \<in> set es. ev_err e = None))"

lemma dl_inv_call:
  assumes inv: "dl_inv view calm w1 v es0 m w ks wd" and rec: "en_recorder env = Rec_collector"
    and call: "fst call = Ok b" "calm (snd call)" "view (snd call) = v" and k: "dl_worker_ok w1 k"
  shows "\<exists>wd'. record_call env r name x latency n call wd = Ok wd' \<and> dl_inv view calm w1 v es0 (Suc m) w (ks[i := k]) wd'"
proof -
  obtain wd' where wd': "record_call env r name x latency n call wd = Ok wd'"
    using record_call_Ok [of call env r name x latency n wd] call(1) rec by auto
  have "wd_store wd' = snd call" by (rule record_call_store [OF wd'])
  moreover have "recorded (wd_calls wd') = recorded (wd_calls wd) @ [client_event name x latency n None]"
    unfolding record_call_calls [OF wd' rec] by (simp add: recorded_append call(1))
  moreover obtain es where "recorded (wd_calls wd) = es0 @ es" "\<forall>e \<in> set es. ev_err e = None"
    using inv by (auto simp: dl_inv_def)
  ultimately have "\<exists>es. recorded (wd_calls wd') = es0 @ es \<and> (\<forall>e \<in> set es. ev_err e = None)"
    by (intro exI [of _ "es @ [client_event name x latency n None]"]) (simp add: client_event_def)
  moreover have "\<forall>k' \<in> set (ks[i := k]). dl_worker_ok w1 k'"
    using inv k set_update_subset_insert [of ks i k] by (auto simp: dl_inv_def)
  ultimately have "dl_inv view calm w1 v es0 (Suc m) w (ks[i := k]) wd'"
    using inv call(2,3) \<open>wd_store wd' = snd call\<close> unfolding dl_inv_def by (intro conjI) (auto simp del: set_update_subsetI)
  with wd' show ?thesis by blast
qed

context reliable_store
begin

lemma dl_act_inv:
  assumes inv: "dl_inv view calm w1 v es0 m w ks wd" and rec: "en_recorder env = Rec_collector"
    and w1: "dl_keys w1 \<noteq> []" "0 \<le> dl_seq w1" "dl_seq w1 + int m + 1 < 2 ^ 63" and i: "i < length ks"
    and data: "\<And>key. key \<in> set (dl_keys w1) \<Longrightarrow> \<exists>b. v (addr key) = Some b \<and> (0 < dl_range_prob w1 \<longrightarrow> b \<noteq> [])"
  shows "\<exists>w' k wd'. dl_act cl env i latency w (ks ! i) wd = Ok (w', k, wd') \<and>
    dl_inv view calm w1 v es0 (Suc m) w' (ks[i := k]) wd'"
proof -
  have D: "w = w1\<lparr>dl_seq := dl_seq w\<rparr>" "dl_seq w1 \<le> dl_seq w" "dl_seq w \<le> dl_seq w1 + int m"
    "calm (wd_store wd)" "view (wd_store wd) = v" "\<forall>k \<in> set ks. dl_worker_ok w1 k"
    using inv by (auto simp: dl_inv_def)
  let ?k = "ks ! i"
  have k: "dl_worker_ok w1 ?k" using D(6) i by simp
  note loop = dl_worker_ok_loop [OF k]
  show ?thesis
  proof (cases "dw_pc ?k")
    case Dl_loop
    have keys: "dl_keys w = dl_keys w1" "dl_worker_ok w ?k = dl_worker_ok w1 ?k"
      by (subst D(1), simp)+
    have "dl_keys w \<noteq> []" "0 \<le> dl_seq w" "dl_seq w + 1 < 2 ^ 63" "dl_worker_ok w ?k"
      using keys w1 D(2,3) k by simp_all
    then obtain n k' where c: "dl_choose i w ?k = Ok (w\<lparr>dl_seq := n\<rparr>, k')" "dl_seq w \<le> n"
      "n \<le> dl_seq w + 1" "dl_worker_ok w k'"
      using dl_choose_ok by metis
    have "dl_worker_ok w1 k'" using c(4) by (subst (asm) D(1)) simp
    then have "\<forall>j \<in> set (ks[i := k']). dl_worker_ok w1 j"
      using D(6) set_update_subset_insert [of ks i k'] by auto
    moreover have "w\<lparr>dl_seq := n\<rparr> = w1\<lparr>dl_seq := n\<rparr>" by (subst D(1)) simp
    ultimately have "dl_inv view calm w1 v es0 (Suc m) (w\<lparr>dl_seq := n\<rparr>) (ks[i := k']) wd"
      using inv c(2,3) D(2,3) by (simp add: dl_inv_def)
    then show ?thesis using c(1) Dl_loop by (simp add: dl_act_def)
  next
    case (Dl_get key)
    obtain b where b: "v (addr key) = Some b" using k Dl_get data by (auto simp: dl_worker_ok_def)
    have "\<exists>wd'. do_get cl env (Some (int i)) latency w key wd = Ok wd' \<and>
        dl_inv view calm w1 v es0 (Suc m) w (ks[i := ?k\<lparr>dw_pc := Dl_loop\<rparr>]) wd'"
      unfolding do_get_def Let_def
      by (rule dl_inv_call [OF inv rec get_some _ _ loop]) (use b D in \<open>simp_all add: get_calm get_frame\<close>)
    then show ?thesis using Dl_get by (auto simp: dl_act_def)
  next
    case (Dl_range key)
    obtain b where b: "v (addr key) = Some b" "b \<noteq> []" using k Dl_range data by (auto simp: dl_worker_ok_def)
    have "\<exists>wd'. do_range_get cl env (Some (int i)) latency w key wd = Ok wd' \<and>
        dl_inv view calm w1 v es0 (Suc m) w (ks[i := ?k\<lparr>dw_pc := Dl_loop\<rparr>]) wd'"
      unfolding do_range_get_def Let_def
      by (rule dl_inv_call [OF inv rec range_some _ _ loop]) (use b D in \<open>simp_all add: range_calm range_frame\<close>)
    then show ?thesis using Dl_range by (auto simp: dl_act_def)
  qed
qed

end


context reliable_store
begin

lemma dl_fill_ok:
  assumes "calm s" "0 \<le> lg_min l" "lg_min l \<le> lg_max l"
  shows "\<exists>l' s'. dl_fill entropy gauss cl key is True l s = (Ok (map (\<lambda>i. key (int i)) is), l', s') \<and> calm s' \<and>
    (\<forall>x. x \<notin> addr ` key ` int ` set is \<longrightarrow> view s' x = view s x) \<and>
    (\<forall>i \<in> set is. \<exists>b. view s' (addr (key (int i))) = Some b \<and> lg_min l \<le> int (length b))"
  using assms
proof (induction "is" arbitrary: s l)
  case (Cons i "is")
  obtain size l1 where draw: "lognormal_sample gauss l = (size, l1)" by fastforce
  have l1: "lg_min l1 = lg_min l" "lg_max l1 = lg_max l" "lg_min l \<le> size"
    using lognormal_sample_bounds_keep [of gauss l] lognormal_sample_bounds(1) [OF Cons.prems(3), of gauss] draw
    by simp_all
  let ?k = "key (int i)" and ?b = "body entropy size"
  have len: "size = int (length ?b)" using l1(3) Cons.prems(2) by simp
  obtain s1 where put: "cl_put cl ?k ?b size s = (Ok (), s1)"
    using put_ok [OF Cons.prems(1) len] by (metis prod.collapse)
  have s1: "calm s1" "view s1 = (view s)(addr ?k \<mapsto> ?b)"
    using put_calm [OF Cons.prems(1), of ?k ?b size] put_view [OF Cons.prems(1) len, of ?k] put by simp_all
  obtain l' s' where fill: "dl_fill entropy gauss cl key is True l1 s1 = (Ok (map (\<lambda>i. key (int i)) is), l', s')"
    "calm s'" "\<forall>x. x \<notin> addr ` key ` int ` set is \<longrightarrow> view s' x = view s1 x"
    "\<forall>i \<in> set is. \<exists>b. view s' (addr (key (int i))) = Some b \<and> lg_min l \<le> int (length b)"
    using Cons.IH [of s1 l1] s1(1) l1 Cons.prems by auto
  have "\<exists>b. view s' (addr ?k) = Some b \<and> lg_min l \<le> int (length b)"
  proof (cases "addr ?k \<in> addr ` key ` int ` set is")
    case True
    then obtain j where "j \<in> set is" "addr ?k = addr (key (int j))" by blast
    then show ?thesis using fill(4) by metis
  next
    case False
    then show ?thesis using fill(3) s1(2) len l1(3) by simp
  qed
  moreover have "\<forall>x. x \<notin> addr ` key ` int ` set (i # is) \<longrightarrow> view s' x = view s x"
    using fill(3) s1(2) by simp
  moreover have "dl_fill entropy gauss cl key (i # is) True l s = (Ok (map (\<lambda>i. key (int i)) (i # is)), l', s')"
    using draw put fill(1) by simp
  ultimately show ?case using fill(2,4) by auto
qed simp

lemma dl_fill_no_rand: "is \<noteq> [] \<Longrightarrow> fst (dl_fill entropy gauss cl key is False l s) = Panic"
  by (cases "is") simp_all

lemma dl_prepopulate_ok:
  assumes "calm (wd_store wd)" "0 < dl_count w"
    and pre: "dl_prepopulate entropy gauss cl env w wd = (Ok (), w', env', wd')"
  shows "w' = w\<lparr>dl_keys := map (\<lambda>i. dl_key w (int i)) [0..<nat (dl_count w)]\<rparr> \<and>
    calm (wd_store wd') \<and> wd_calls wd' = wd_calls wd \<and>
    (\<forall>x. x \<notin> addr ` set (dl_keys w') \<longrightarrow> view (wd_store wd') x = view (wd_store wd) x) \<and>
    (\<forall>k \<in> set (dl_keys w'). \<exists>b. view (wd_store wd') (addr k) = Some b \<and> dl_size_min w \<le> int (length b))"
proof -
  let ?is = "[0..<nat (dl_count w)]"
  obtain l where l: "new_lognormal (dl_size_mean w) (dl_size_sigma w) (dl_size_min w) (dl_size_max w) (env_rng env) = Ok l"
    using pre by (auto simp: dl_prepopulate_def split: res.splits)
  note new = new_lognormal_Ok [OF l]
  have rand: "en_rand env \<noteq> None"
  proof
    assume "en_rand env = None"
    moreover have "fst (dl_fill entropy gauss cl (dl_key w) ?is False l (wd_store wd)) = Panic"
      using assms(2) by (intro dl_fill_no_rand) simp
    ultimately show False using pre l by (auto simp: dl_prepopulate_def split: prod.splits)
  qed
  obtain l' s' where fill: "dl_fill entropy gauss cl (dl_key w) ?is True l (wd_store wd) =
      (Ok (map (\<lambda>i. dl_key w (int i)) ?is), l', s')" "calm s'"
    "\<forall>x. x \<notin> addr ` dl_key w ` int ` set ?is \<longrightarrow> view s' x = view (wd_store wd) x"
    "\<forall>i \<in> set ?is. \<exists>b. view s' (addr (dl_key w (int i))) = Some b \<and> dl_size_min w \<le> int (length b)"
    using dl_fill_ok [OF assms(1), of l entropy gauss "dl_key w" ?is] new by auto
  have "w' = w\<lparr>dl_keys := map (\<lambda>i. dl_key w (int i)) ?is\<rparr>" "wd' = wd\<lparr>wd_store := s'\<rparr>"
    using pre l rand fill(1) by (auto simp: dl_prepopulate_def Let_def)
  then show ?thesis using fill(2-4) by (simp add: image_image)
qed

end

text \<open>A worker that starts is at its loop, with a clone of the template.\<close>

lemma dl_start_ok:
  assumes "dl_start source env w wd = Ok st"
  shows "cw_wl st = w \<and> wd_store (cw_world st) = wd_store wd \<and>
    recorded (wd_calls (cw_world st)) = recorded (wd_calls wd) \<and> dl_keys w \<noteq> [] \<and>
    (\<forall>k \<in> set (cw_workers st). dl_worker_ok w k)"
proof -
  obtain t wd1 where t: "dl_template env w = Ok t" and wd1: "shard_all env [0..<nat (en_threads env)] wd = Ok wd1"
    and st: "st = \<lparr>cw_wl = w, cw_world = wd1,
      cw_workers = map (\<lambda>i. \<lparr>dw_pc = Dl_loop, dw_rng = worker_rand source (Some env) (int i),
        dw_zipf = map_option (zipfian_for_worker source (int i)) t, dw_counter = 0\<rparr>) [0..<nat (en_threads env)]\<rparr>"
    and keys: "dl_keys w \<noteq> []"
    using assms by (auto simp: dl_start_def Let_def split: if_splits res.splits)
  have "dl_pattern w = ''zipfian'' \<longrightarrow> (\<exists>z. t = Some z \<and> zf_n z = int (length (dl_keys w)))"
    using t by (auto simp: dl_template_def new_zipfian_def split: if_splits res.splits)
  then have "\<forall>k \<in> set (cw_workers st). dl_worker_ok w k"
    using keys by (auto simp: st dl_worker_ok_def zipfian_for_worker_def)
  then show ?thesis using shard_all_store [OF wd1] shard_all_recorded [OF wd1] keys by (simp add: st)
qed

lemma dl_factory_ok:
  "dl_factory parse_float e = Ok w \<Longrightarrow> 0 < dl_count w \<and> dl_keys w = [] \<and> dl_seq w = 0"
  by (auto simp: dl_factory_def Let_def split: if_splits)

text \<open>C11. A data loader measures nothing but hits, and leaves no trace: on a store that works, after a
  successful prepopulation every schedule of its workers runs to its end without a panic, every
  read it records succeeded, and \<open>Cleanup\<close> then succeeds and restores the bucket to what it was
  before the prepopulation. (A ranged read of an empty object is an error on S3, so ranged reads
  need a positive minimum size.)\<close>

theorem dl_lifecycle:
  assumes "reliable_store cl view addr calm after" and "calm (wd_store wd0)"
    and "dl_factory parse_float e = Ok w0" and "dl_range_prob w0 \<le> 0 \<or> 0 < dl_size_min w0"
    and "dl_prepopulate entropy gauss cl env0 w0 wd0 = (Ok (), w, env1, wd)"
    and "\<And>k. k \<in> set (dl_keys w) \<Longrightarrow> view (wd_store wd0) (addr k) = None"
    and "en_recorder env = Rec_collector" and "dl_start source env w wd = Ok st" and "int (length ls) < 2 ^ 63"
  shows "\<exists>st' es wd'. crew_exec (dl_act cl env) ls st = Ok st' \<and>
    recorded (wd_calls (cw_world st')) = recorded (wd_calls wd0) @ es \<and> (\<forall>e \<in> set es. ev_err e = None) \<and>
    dl_cleanup cl (cw_wl st') (cw_world st') = (Ok (), wd') \<and> view (wd_store wd') = view (wd_store wd0)"
proof -
  have fac: "0 < dl_count w0" "dl_seq w0 = 0" using dl_factory_ok [OF assms(3)] by simp_all
  from reliable_store.dl_prepopulate_ok [OF assms(1,2) fac(1) assms(5)]
  have w: "w = w0\<lparr>dl_keys := map (\<lambda>i. dl_key w0 (int i)) [0..<nat (dl_count w0)]\<rparr>"
    and wd: "calm (wd_store wd)" "wd_calls wd = wd_calls wd0"
      "\<forall>x. x \<notin> addr ` set (dl_keys w) \<longrightarrow> view (wd_store wd) x = view (wd_store wd0) x"
    and data: "\<forall>k \<in> set (dl_keys w). \<exists>b. view (wd_store wd) (addr k) = Some b \<and> dl_size_min w0 \<le> int (length b)"
    by blast+
  have seq: "dl_seq w = 0" "dl_range_prob w = dl_range_prob w0" using w fac(2) by simp_all
  note start = dl_start_ok [OF assms(8)]
  let ?I = "dl_inv view calm w (view (wd_store wd)) (recorded (wd_calls wd0))"
  have init: "?I 0 (cw_wl st) (cw_workers st) (cw_world st)"
    using start wd by (simp add: dl_inv_def)
  have hit: "\<exists>b. view (wd_store wd) (addr key) = Some b \<and> (0 < dl_range_prob w \<longrightarrow> b \<noteq> [])"
    if "key \<in> set (dl_keys w)" for key
    using data that assms(4) seq(2) by fastforce
  have "\<exists>st'. crew_exec (dl_act cl env) ls st = Ok st' \<and> ?I (0 + length ls) (cw_wl st') (cw_workers st') (cw_world st')"
  proof (rule crew_exec_ok [where I = ?I, OF init])
    show "?I (Suc m) v ks wd" if "?I m v ks wd" for m v ks wd
      using that by (auto simp: dl_inv_def)
    fix m i latency v ks wd assume "?I m v ks wd" "m < 0 + length ls" "i < length ks"
    then show "\<exists>w' k wd'. dl_act cl env i latency v (ks ! i) wd = Ok (w', k, wd') \<and> ?I (Suc m) w' (ks[i := k]) wd'"
      using start seq assms(9) by (intro reliable_store.dl_act_inv [OF assms(1) _ assms(7)] hit) simp_all
  qed
  then obtain st' where st': "crew_exec (dl_act cl env) ls st = Ok st'"
    "?I (length ls) (cw_wl st') (cw_workers st') (cw_world st')" by auto
  have keys: "dl_keys (cw_wl st') = dl_keys w"
    using st'(2) unfolding dl_inv_def by (metis dataloader.select_convs(11) dataloader.update_convs(12) dataloader.surjective)
  have calm: "calm (wd_store (cw_world st'))" "view (wd_store (cw_world st')) = view (wd_store wd)"
    using st'(2) by (simp_all add: dl_inv_def)
  obtain s' where s': "delete_keys cl (dl_keys w) (wd_store (cw_world st')) = (Ok (), s')"
    "view s' = (\<lambda>x. if x \<in> addr ` set (dl_keys w) then None else view (wd_store (cw_world st')) x)"
    using reliable_store.delete_keys_calm [OF assms(1) calm(1)] by blast
  have "view s' = view (wd_store wd0)"
    unfolding s'(2) calm(2) using wd(3) assms(6) by (intro ext) auto
  moreover have "dl_cleanup cl (cw_wl st') (cw_world st') = (Ok (), (cw_world st')\<lparr>wd_store := s'\<rparr>)"
    using s'(1) keys by (simp add: dl_cleanup_def)
  ultimately show ?thesis using st' by (auto simp: dl_inv_def)
qed


subsection \<open>A concrete run\<close>

context reliable_store
begin

lemma dl_prepopulate_succeeds:
  assumes "calm (wd_store wd)" "en_rand env \<noteq> None"
    "new_lognormal (dl_size_mean w) (dl_size_sigma w) (dl_size_min w) (dl_size_max w) (env_rng env) = Ok l"
  shows "\<exists>w' env' wd'. dl_prepopulate entropy gauss cl env w wd = (Ok (), w', env', wd')"
proof -
  note new = new_lognormal_Ok [OF assms(3)]
  obtain l' s' where "dl_fill entropy gauss cl (dl_key w) [0..<nat (dl_count w)] True l (wd_store wd) =
      (Ok (map (\<lambda>i. dl_key w (int i)) [0..<nat (dl_count w)]), l', s')"
    using dl_fill_ok [OF assms(1), of l entropy gauss "dl_key w" "[0..<nat (dl_count w)]"] new by auto
  then show ?thesis using assms(2,3) by (simp add: dl_prepopulate_def Let_def)
qed

end

definition dl_entry :: workload_entry where
  "dl_entry = \<lparr>we_name = ''d'', we_type = ''training_data'', we_weight = 1, we_object_size = 0,
     we_threads = 0, we_duration = 0,
     we_params = [(''object_count'', Y_int 2), (''access_pattern'', Y_string ''sequential''),
       (''size_mean'', Y_int 1), (''size_min'', Y_int 1), (''size_max'', Y_int 2),
       (''range_probability'', Y_float (1 / 2))]\<rparr>"

theorem dl_lifecycle_witness:
  "\<exists>w0 w env1 wd st st' wd'. dl_factory (\<lambda>_. None) dl_entry = Ok w0 \<and>
     dl_prepopulate (fill_entropy []) of_int fake_client (race_env\<lparr>en_rand := Some (sconst 1)\<rparr>) w0 race_world =
       (Ok (), w, env1, wd) \<and>
     dl_start race_source race_env w wd = Ok st \<and>
     crew_exec (dl_act fake_client race_env) [(0, 5), (1, 5), (1, 6), (0, 7)] st = Ok st' \<and>
     dl_cleanup fake_client (cw_wl st') (cw_world st') = (Ok (), wd') \<and>
     fake_view (wd_store wd') = fake_view (wd_store race_world)"
proof -
  let ?env0 = "race_env\<lparr>en_rand := Some (sconst 1)\<rparr>"
  obtain w0 where w0: "dl_factory (\<lambda>_. None) dl_entry = Ok w0" "dl_size_min w0 = 1" "dl_size_max w0 = 2"
    "dl_size_mean w0 = 1" "dl_size_sigma w0 = 8 / 10" "dl_pattern w0 = ''sequential''"
    by (simp add: dl_factory_def dl_entry_def int_param_def size_param_def float_param_def string_param_def Let_def)
  note calm = race_world_calm(1)
  note empty = race_world_calm(2)
  obtain l where "new_lognormal (dl_size_mean w0) (dl_size_sigma w0) (dl_size_min w0) (dl_size_max w0) (env_rng ?env0) = Ok l"
    using w0 by (simp add: new_lognormal_def)
  then obtain w env1 wd where pre: "dl_prepopulate (fill_entropy []) of_int fake_client ?env0 w0 race_world = (Ok (), w, env1, wd)"
    using fake.dl_prepopulate_succeeds [OF calm, of ?env0 w0] by fastforce
  note fac = dl_factory_ok [OF w0(1)]
  from fake.dl_prepopulate_ok [OF calm conjunct1 [OF fac] pre]
  have w: "w = w0\<lparr>dl_keys := map (\<lambda>i. dl_key w0 (int i)) [0..<nat (dl_count w0)]\<rparr>" by blast
  have run: "en_recorder race_env = Rec_collector" "en_threads race_env = 2" by (simp_all add: race_env_def)
  obtain wd1 where "shard_all race_env [0..<nat (en_threads race_env)] wd = Ok wd1"
    using shard_all_ok [of race_env "[0..<nat (en_threads race_env)]" wd] run by auto
  then obtain st where st: "dl_start race_source race_env w wd = Ok st"
    using fac run(2) w0(6) by (simp add: dl_start_def w dl_template_def Let_def)
  have "dl_range_prob w0 \<le> 0 \<or> 0 < dl_size_min w0" using w0(2) by simp
  moreover have "int (length [(0 :: nat, 5 :: int), (1, 5), (1, 6), (0, 7)]) < 2 ^ 63" by simp
  ultimately show ?thesis
    using dl_lifecycle [OF fake.reliable_store_axioms calm w0(1) _ pre empty run(1) st] w0(1) pre st by blast
qed

end
