(* ===== verification/Metadata.thy ===== *)
theory Metadata
  imports Object_Workloads
begin

section \<open>Metadata operations (\<open>internal/workload/metadata/metadata.go\<close>)\<close>

text \<open>
  A tree of prefixes is filled with stub objects; the workers then run random metadata verbs on it.
  Each page of a listing is one step of its worker, and the claim of a copy destination from the
  shared counter is one step with the draws that lead to it.
\<close>

record metadata_wl =
  md_name :: string
  md_copy_prefix :: string
  md_fanout :: int
  md_depth :: int
  md_per_prefix :: int
  md_size :: int
  md_base_keys :: "string list"
  md_copies :: int

definition md_factory :: "metadata_wl factory" where
  "md_factory w =
     (let p = we_params w;
          fanout = int_param p ''prefix_fanout'' 4;
          depth = int_param p ''prefix_depth'' 2;
          per_prefix = int_param p ''objects_per_prefix'' 25;
          size = (if we_object_size w \<le> 0 then 1024 else we_object_size w)
      in if fanout \<le> 0 \<or> depth \<le> 0 \<or> per_prefix \<le> 0
         then Err (Plain_error (''metadata '' @ we_name w @ '': fanout/depth/objects_per_prefix must be >0''))
         else Ok \<lparr>md_name = we_name w, md_copy_prefix = we_name w @ ''/copy/dst-'', md_fanout = fanout,
                  md_depth = depth, md_per_prefix = per_prefix, md_size = size,
                  md_base_keys = [], md_copies = 0\<rparr>)"

subsection \<open>The data set\<close>

text \<open>\<open>fmt\<close> pads \<open>%02d\<close> and \<open>%04d\<close> as \<open>append_key_padded\<close> does for the indices of these loops.\<close>

function build_prefixes :: "string \<Rightarrow> int \<Rightarrow> int \<Rightarrow> string list" where
  "build_prefixes base fanout depth =
     (if depth \<le> 0 then [base]
      else concat (map (\<lambda>i. build_prefixes (append_key_padded (base @ ''/p'') (int i) 2) fanout (depth - 1))
             [0..<nat fanout]))"
  by pat_completeness auto
termination
  by (relation "measure (\<lambda>(_, _, depth). nat depth)") auto

declare build_prefixes.simps [simp del]

definition md_keys :: "metadata_wl \<Rightarrow> string list" where
  "md_keys w =
     concat (map (\<lambda>p. map (\<lambda>i. append_key_padded (p @ ''/obj-'') (int i) 4) [0..<nat (md_per_prefix w)])
       (build_prefixes (md_name w) (md_fanout w) (md_depth w)))"

text \<open>The upload loop, with the keys stored before it ends.\<close>

fun md_fill :: "bytes \<Rightarrow> 's client \<Rightarrow> int \<Rightarrow> string list \<Rightarrow> 's \<Rightarrow> unit res \<times> string list \<times> 's" where
  "md_fill entropy cl n [] s = (Ok (), [], s)"
| "md_fill entropy cl n (k # ks) s =
     (case cl_put cl k (body entropy n) n s of
        (Ok _, s1) \<Rightarrow>
          (case md_fill entropy cl n ks s1 of (out, stored_keys, s2) \<Rightarrow> (out, k # stored_keys, s2))
      | (Err e, s1) \<Rightarrow> (Err e, [], s1)
      | (Panic, s1) \<Rightarrow> (Panic, [], s1))"

definition md_prepopulate ::
  "bytes \<Rightarrow> 's client \<Rightarrow> metadata_wl \<Rightarrow> 's world \<Rightarrow> unit res \<times> metadata_wl \<times> 's world" where
  "md_prepopulate entropy cl w wd =
     (case md_fill entropy cl (md_size w) (md_keys w) (wd_store wd) of
        (out, ks, s) \<Rightarrow> (out, w\<lparr>md_base_keys := md_base_keys w @ ks\<rparr>, wd\<lparr>wd_store := s\<rparr>))"

subsection \<open>Workers\<close>

datatype md_pc =
    Md_loop
  | Md_head string
  | Md_list string string      \<comment> \<open>delimiter and continuation token\<close>
  | Md_copy string string      \<comment> \<open>source and destination\<close>
  | Md_put_tags string
  | Md_get_tags string

record md_worker =
  mw_pc :: md_pc
  mw_rng :: rng

definition copy_key_for :: "metadata_wl \<Rightarrow> int \<Rightarrow> string" where
  "copy_key_for w n = append_key_padded (md_copy_prefix w) n 12"

definition one_op :: "metadata_wl \<Rightarrow> md_worker \<Rightarrow> (metadata_wl \<times> md_worker) res" where
  "one_op w k =
     (case int63n (int (length (md_base_keys w))) (mw_rng k) of
        (Ok j, r1) \<Rightarrow>
          (let key = md_base_keys w ! nat j in
           case int63n 6 r1 of
             (Ok verb, r2) \<Rightarrow>
               (if verb = 0 then Ok (w, \<lparr>mw_pc = Md_head key, mw_rng = r2\<rparr>)
                else if verb = 1 then Ok (w, \<lparr>mw_pc = Md_list '''' '''', mw_rng = r2\<rparr>)
                else if verb = 2 then Ok (w, \<lparr>mw_pc = Md_list ''/'' '''', mw_rng = r2\<rparr>)
                else if verb = 3 then
                  (let n = wrap64 (md_copies w + 1) in
                   Ok (w\<lparr>md_copies := n\<rparr>,
                       \<lparr>mw_pc = Md_copy key (copy_key_for w (wrap64 (n - 1))), mw_rng = r2\<rparr>))
                else if verb = 4 then Ok (w, \<lparr>mw_pc = Md_put_tags key, mw_rng = r2\<rparr>)
                else Ok (w, \<lparr>mw_pc = Md_get_tags key, mw_rng = r2\<rparr>))
           | (Err e, r2) \<Rightarrow> Err e
           | (Panic, r2) \<Rightarrow> Panic)
      | (Err e, r1) \<Rightarrow> Err e
      | (Panic, r1) \<Rightarrow> Panic)"

text \<open>One turn of the loop of \<open>listPrefix\<close>: the page, the records it counts, and where to go on.\<close>

definition list_count :: "list_result res \<Rightarrow> int" where
  "list_count out =
     (case out of Ok r \<Rightarrow> int (length (lr_keys r) + length (lr_common_prefixes r)) | _ \<Rightarrow> 0)"

definition list_next_pc :: "string \<Rightarrow> list_result res \<Rightarrow> md_pc" where
  "list_next_pc d out =
     (case out of Ok r \<Rightarrow> if lr_truncated r then Md_list d (lr_next r) else Md_loop | _ \<Rightarrow> Md_loop)"

definition list_turn ::
  "'s client \<Rightarrow> env \<Rightarrow> recorder \<Rightarrow> int \<Rightarrow> metadata_wl \<Rightarrow> string \<Rightarrow> string \<Rightarrow> 's world
     \<Rightarrow> (md_pc \<times> 's world) res" where
  "list_turn cl env r latency w d tok wd =
     (let call = cl_list cl (md_name w @ ''/'') d tok 100 (wd_store wd) in
      case record_call env r (md_name w) OpList latency (list_count (fst call)) call wd of
        Ok wd1 \<Rightarrow> Ok (list_next_pc d (fst call), wd1)
      | Err e \<Rightarrow> Err e
      | Panic \<Rightarrow> Panic)"

text \<open>The verbs that make one call: \<open>head\<close>, \<open>copy\<close>, \<open>putTags\<close> and \<open>getTags\<close>.\<close>

definition md_head ::
  "'s client \<Rightarrow> env \<Rightarrow> recorder \<Rightarrow> int \<Rightarrow> metadata_wl \<Rightarrow> string \<Rightarrow> 's world \<Rightarrow> 's world res" where
  "md_head cl env r latency w k wd =
     record_call env r (md_name w) OpHead latency 0 (cl_head cl k (wd_store wd)) wd"

definition md_copy ::
  "'s client \<Rightarrow> env \<Rightarrow> recorder \<Rightarrow> int \<Rightarrow> metadata_wl \<Rightarrow> string \<Rightarrow> string \<Rightarrow> 's world \<Rightarrow> 's world res" where
  "md_copy cl env r latency w src dst wd =
     record_call env r (md_name w) OpCopy latency 0 (cl_copy cl src dst (wd_store wd)) wd"

definition md_put_tags ::
  "'s client \<Rightarrow> env \<Rightarrow> recorder \<Rightarrow> int \<Rightarrow> metadata_wl \<Rightarrow> string \<Rightarrow> 's world \<Rightarrow> 's world res" where
  "md_put_tags cl env r latency w k wd =
     record_call env r (md_name w) OpPutTagging latency 0
       (cl_put_tags cl k [(''bench'', ''1'')] (wd_store wd)) wd"

definition md_get_tags ::
  "'s client \<Rightarrow> env \<Rightarrow> recorder \<Rightarrow> int \<Rightarrow> metadata_wl \<Rightarrow> string \<Rightarrow> 's world \<Rightarrow> 's world res" where
  "md_get_tags cl env r latency w k wd =
     record_call env r (md_name w) OpGetTagging latency 0 (cl_get_tags cl k (wd_store wd)) wd"

definition md_act :: "'s client \<Rightarrow> env \<Rightarrow> (metadata_wl, md_worker, 's) act" where
  "md_act cl env i latency w k wd =
     (let r = Some (int i); idle = k\<lparr>mw_pc := Md_loop\<rparr> in
      case mw_pc k of
        Md_loop \<Rightarrow>
          (case one_op w k of Ok (w1, k1) \<Rightarrow> Ok (w1, k1, wd) | Err e \<Rightarrow> Err e | Panic \<Rightarrow> Panic)
      | Md_head key \<Rightarrow> after_call w idle (md_head cl env r latency w key wd)
      | Md_list d tok \<Rightarrow>
          (case list_turn cl env r latency w d tok wd of
             Ok (pc, wd1) \<Rightarrow> Ok (w, k\<lparr>mw_pc := pc\<rparr>, wd1) | Err e \<Rightarrow> Err e | Panic \<Rightarrow> Panic)
      | Md_copy src dst \<Rightarrow> after_call w idle (md_copy cl env r latency w src dst wd)
      | Md_put_tags key \<Rightarrow> after_call w idle (md_put_tags cl env r latency w key wd)
      | Md_get_tags key \<Rightarrow> after_call w idle (md_get_tags cl env r latency w key wd))"

definition md_start ::
  "(int \<Rightarrow> rng) \<Rightarrow> env \<Rightarrow> metadata_wl \<Rightarrow> 's world \<Rightarrow> (metadata_wl, md_worker, 's) crew res" where
  "md_start source env w wd =
     (if en_threads env \<le> 0
      then Err (Plain_error (''metadata '' @ md_name w @ '': threads must be >0''))
      else if md_base_keys w = []
      then Err (Plain_error (''metadata '' @ md_name w @ '': dataset empty''))
      else let ids = [0..<nat (en_threads env)] in
        case shard_all env ids wd of
          Ok wd1 \<Rightarrow> Ok \<lparr>cw_wl = w, cw_world = wd1,
            cw_workers = map (\<lambda>i. \<lparr>mw_pc = Md_loop, mw_rng = worker_rand source (Some env) (int i)\<rparr>) ids\<rparr>
        | Err e \<Rightarrow> Err e
        | Panic \<Rightarrow> Panic)"

text \<open>\<open>Cleanup\<close>: the base keys, then the copy destinations that were claimed.\<close>

definition md_cleanup :: "'s client \<Rightarrow> metadata_wl \<Rightarrow> 's world \<Rightarrow> unit res \<times> 's world" where
  "md_cleanup cl w wd =
     (case delete_keys cl (md_base_keys w) (wd_store wd) of
        (Ok _, s1) \<Rightarrow>
          (case delete_keys cl (map (\<lambda>i. copy_key_for w (int i)) [0..<nat (md_copies w)]) s1 of
             (out, s2) \<Rightarrow> (out, wd\<lparr>wd_store := s2\<rparr>))
      | (Err e, s1) \<Rightarrow> (Err e, wd\<lparr>wd_store := s1\<rparr>)
      | (Panic, s1) \<Rightarrow> (Panic, wd\<lparr>wd_store := s1\<rparr>))"


subsection \<open>The layout of the data set\<close>

lemma append_key_padded_split: "append_key_padded p i n = p @ append_key_padded [] i n"
  by (simp add: append_key_padded_def Let_def)

lemma padded_no_slash: "0 \<le> i \<Longrightarrow> CHR ''/'' \<notin> set (append_key_padded [] i n)"
  using nat_digits_all_digits [of "nat i"]
  by (auto simp: append_key_padded_def format_int_def Let_def list_all_iff is_digit_def)

text \<open>A segment without a slash ends where the slash is.\<close>

lemma segment_inject:
  assumes "CHR ''/'' \<notin> set x" "CHR ''/'' \<notin> set y" "s = [] \<or> hd s = CHR ''/''" "t = [] \<or> hd t = CHR ''/''"
    and "x @ s = y @ t"
  shows "x = y \<and> s = t"
proof -
  have seg: "takeWhile (\<lambda>c. c \<noteq> CHR ''/'') (x @ s) = x" if "CHR ''/'' \<notin> set x" "s = [] \<or> hd s = CHR ''/''" for x s
    using that by (cases s) (auto simp: takeWhile_append)
  have "x = y" using seg [OF assms(1,3)] seg [OF assms(2,4)] assms(5) by metis
  then show ?thesis using assms(5) by simp
qed

lemma last_segment_inject:
  assumes "CHR ''/'' \<notin> set x" "CHR ''/'' \<notin> set y" "a @ ''/'' @ x = b @ ''/'' @ y"
  shows "a = b \<and> x = y"
proof -
  have "rev x @ CHR ''/'' # rev a = rev y @ CHR ''/'' # rev b"
    using arg_cong [OF assms(3), of rev] by simp
  then show ?thesis
    using segment_inject [of "rev x" "rev y" "CHR ''/'' # rev a" "CHR ''/'' # rev b"] assms(1,2) by simp
qed

lemma distinct_concat_map:
  assumes "\<And>x. x \<in> set xs \<Longrightarrow> distinct (f x)" "distinct xs"
    and "\<And>x y k. x \<in> set xs \<Longrightarrow> y \<in> set xs \<Longrightarrow> k \<in> set (f x) \<Longrightarrow> k \<in> set (f y) \<Longrightarrow> x = y"
  shows "distinct (concat (map f xs))"
  using assms by (induction xs) auto

lemma length_concat_const:
  "(\<And>x. x \<in> set xs \<Longrightarrow> length (f x) = c) \<Longrightarrow> length (concat (map f xs)) = length xs * c"
  by (induction xs) auto

lemma length_build_prefixes: "length (build_prefixes base fanout depth) = nat fanout ^ nat depth"
proof (induction base fanout depth rule: build_prefixes.induct)
  case (1 base fanout depth)
  show ?case
  proof (cases "depth \<le> 0")
    case False
    then have "nat depth = Suc (nat (depth - 1))" by simp
    moreover have "length (concat (map (\<lambda>i. build_prefixes (append_key_padded (base @ ''/p'') (int i) 2) fanout (depth - 1))
        [0..<nat fanout])) = length [0..<nat fanout] * nat fanout ^ nat (depth - 1)"
      by (rule length_concat_const) (rule 1 [OF False])
    ultimately show ?thesis
      using False by (subst build_prefixes.simps) simp
  qed (simp add: build_prefixes.simps)
qed

lemma build_prefixes_shape:
  "p \<in> set (build_prefixes base fanout depth) \<Longrightarrow>
    \<exists>s. p = base @ s \<and> (if depth \<le> 0 then s = [] else has_prefix s ''/p'')"
proof (induction base fanout depth arbitrary: p rule: build_prefixes.induct)
  case (1 base fanout depth)
  show ?case
  proof (cases "depth \<le> 0")
    case True
    then show ?thesis using 1(2) by (simp add: build_prefixes.simps)
  next
    case False
    then obtain i where i: "i \<in> set [0..<nat fanout]"
      "p \<in> set (build_prefixes (append_key_padded (base @ ''/p'') (int i) 2) fanout (depth - 1))"
      using 1(2) by (subst (asm) build_prefixes.simps) auto
    from 1(1) [OF False i] obtain s where "p = append_key_padded (base @ ''/p'') (int i) 2 @ s" by auto
    then have "p = base @ (''/p'' @ append_key_padded [] (int i) 2 @ s)"
      using append_key_padded_split [of "base @ ''/p''" "int i" 2] by simp
    then show ?thesis using False by (intro exI [of _ "''/p'' @ append_key_padded [] (int i) 2 @ s"]) (simp add: has_prefix_def)
  qed
qed

lemma build_prefixes_tail:
  assumes "p \<in> set (build_prefixes base fanout depth)"
  obtains s where "p = base @ s" "s = [] \<or> hd s = CHR ''/''"
proof -
  obtain s where s: "p = base @ s" "if depth \<le> 0 then s = [] else has_prefix s ''/p''"
    using build_prefixes_shape [OF assms] by blast
  have "s = [] \<or> hd s = CHR ''/''"
    using s(2) by (cases s) (auto simp: has_prefix_def split: if_splits)
  with s(1) show thesis by (rule that)
qed

lemma distinct_build_prefixes: "distinct (build_prefixes base fanout depth)"
proof (induction base fanout depth rule: build_prefixes.induct)
  case (1 base fanout depth)
  show ?case
  proof (cases "depth \<le> 0")
    case False
    have "distinct (concat (map (\<lambda>i. build_prefixes (append_key_padded (base @ ''/p'') (int i) 2) fanout (depth - 1)) [0..<nat fanout]))"
    proof (rule distinct_concat_map)
      fix i j k
      let ?f = "\<lambda>i. build_prefixes (append_key_padded (base @ ''/p'') (int i) 2) fanout (depth - 1)"
      assume "k \<in> set (?f i)" "k \<in> set (?f j)"
      then obtain s t where "k = append_key_padded (base @ ''/p'') (int i) 2 @ s" "k = append_key_padded (base @ ''/p'') (int j) 2 @ t"
        and st: "s = [] \<or> hd s = CHR ''/''" "t = [] \<or> hd t = CHR ''/''"
        using build_prefixes_tail by metis
      then have "append_key_padded [] (int i) 2 @ s = append_key_padded [] (int j) 2 @ t"
        using append_key_padded_split [of "base @ ''/p''" "int i" 2] append_key_padded_split [of "base @ ''/p''" "int j" 2] by simp
      from segment_inject [OF padded_no_slash padded_no_slash st this]
      show "i = j" using append_key_padded_inject [of "int i" "int j" "[]" 2] by simp
    qed (use 1 [OF False] in auto)
    then show ?thesis using False by (subst build_prefixes.simps) simp
  qed (simp add: build_prefixes.simps)
qed


lemma md_keys_shape:
  assumes "k \<in> set (md_keys w)" "0 < md_depth w"
  shows "has_prefix k (md_name w @ ''/p'')"
proof -
  obtain p i where p: "p \<in> set (build_prefixes (md_name w) (md_fanout w) (md_depth w))"
    "k = append_key_padded (p @ ''/obj-'') (int i) 4"
    using assms(1) by (auto simp: md_keys_def)
  obtain s where "p = md_name w @ s" "has_prefix s ''/p''"
    using build_prefixes_shape [OF p(1)] assms(2) by (auto split: if_splits)
  then obtain t where "p = (md_name w @ ''/p'') @ t"
    by (metis append.assoc append_take_drop_id has_prefix_def)
  then have "k = (md_name w @ ''/p'') @ (t @ ''/obj-'' @ append_key_padded [] (int i) 4)"
    using p(2) append_key_padded_split [of "p @ ''/obj-''" "int i" 4] by simp
  then show ?thesis unfolding has_prefix_def by (metis append_eq_conv_conj)
qed

text \<open>The data set has the promised shape: \<open>fanout ^ depth * objects_per_prefix\<close> keys, no key
  twice (so no upload overwrites another, even where an index outgrows its padding), all below the
  workload's own name, and none of them ever the destination of a copy.\<close>

theorem md_layout:
  assumes "md_factory e = Ok w"
  shows "length (md_keys w) = nat (md_fanout w) ^ nat (md_depth w) * nat (md_per_prefix w) \<and>
    distinct (md_keys w) \<and>
    (\<forall>k \<in> set (md_keys w). has_prefix k (md_name w @ ''/'') \<and> (\<forall>n. k \<noteq> copy_key_for w n))"
proof -
  have w: "0 < md_depth w" "md_copy_prefix w = md_name w @ ''/copy/dst-''"
    using assms by (auto simp: md_factory_def Let_def split: if_splits)
  let ?f = "\<lambda>p. map (\<lambda>i. append_key_padded (p @ ''/obj-'') (int i) 4) [0..<nat (md_per_prefix w)]"
  have "length (concat (map ?f (build_prefixes (md_name w) (md_fanout w) (md_depth w)))) =
      length (build_prefixes (md_name w) (md_fanout w) (md_depth w)) * nat (md_per_prefix w)"
    by (rule length_concat_const) simp
  then have len: "length (md_keys w) = nat (md_fanout w) ^ nat (md_depth w) * nat (md_per_prefix w)"
    by (simp add: md_keys_def length_build_prefixes)
  have "distinct (concat (map ?f (build_prefixes (md_name w) (md_fanout w) (md_depth w))))"
  proof (rule distinct_concat_map)
    show "distinct (?f p)" for p
      by (auto simp: distinct_map inj_on_def append_key_padded_inject)
    show "distinct (build_prefixes (md_name w) (md_fanout w) (md_depth w))" by (rule distinct_build_prefixes)
    fix p q k assume "k \<in> set (?f p)" "k \<in> set (?f q)"
    then obtain i j where k: "k = append_key_padded (p @ ''/obj-'') (int i) 4" "k = append_key_padded (q @ ''/obj-'') (int j) 4"
      unfolding set_map by blast
    have "k = p @ ''/'' @ (''obj-'' @ append_key_padded [] (int i) 4)"
      unfolding k(1) by (subst append_key_padded_split) simp
    moreover have "k = q @ ''/'' @ (''obj-'' @ append_key_padded [] (int j) 4)"
      unfolding k(2) by (subst append_key_padded_split) simp
    ultimately show "p = q"
      using last_segment_inject [of "''obj-'' @ append_key_padded [] (int i) 4" "''obj-'' @ append_key_padded [] (int j) 4" p q]
        padded_no_slash [of "int i" 4] padded_no_slash [of "int j" 4] by auto
  qed
  then have dist: "distinct (md_keys w)" by (simp add: md_keys_def)
  have "has_prefix k (md_name w @ ''/'') \<and> k \<noteq> copy_key_for w n" if "k \<in> set (md_keys w)" for k n
  proof -
    have "take (length (md_name w) + 2) k = md_name w @ ''/p''"
      using md_keys_shape [OF that w(1)] by (simp add: has_prefix_def)
    then obtain t where t: "k = md_name w @ ''/p'' @ t" by (metis append.assoc append_take_drop_id)
    moreover have "copy_key_for w n = md_name w @ ''/copy/dst-'' @ append_key_padded [] n 12"
      unfolding copy_key_for_def w(2) by (subst append_key_padded_split) simp
    ultimately show ?thesis by (simp add: has_prefix_def)
  qed
  with len dist show ?thesis by blast
qed

definition md_entry :: workload_entry where
  "md_entry = \<lparr>we_name = ''m'', we_type = ''metadata'', we_weight = 1, we_object_size = 1, we_threads = 0,
     we_duration = 0, we_params = [(''prefix_fanout'', Y_int 101), (''prefix_depth'', Y_int 1),
       (''objects_per_prefix'', Y_int 2)]\<rparr>"

definition md_sample :: metadata_wl where
  "md_sample = \<lparr>md_name = ''m'', md_copy_prefix = ''m/copy/dst-'', md_fanout = 101, md_depth = 1,
     md_per_prefix = 2, md_size = 1, md_base_keys = [], md_copies = 0\<rparr>"

lemma md_sample_built: "md_factory md_entry = Ok md_sample"
  by (simp add: md_factory_def md_entry_def md_sample_def int_param_def Let_def)

theorem md_layout_witness:
  "length (md_keys md_sample) = 202 \<and> distinct (md_keys md_sample)"
  using md_layout [OF md_sample_built] by (simp add: md_sample_def)


subsection \<open>Walking a listing\<close>

text \<open>Pages of up to 100 keys; an empty listing still takes one request.\<close>

definition pages :: "nat \<Rightarrow> nat" where
  "pages n = max 1 ((n + 99) div 100)"

lemma pages_small: "n \<le> 100 \<Longrightarrow> pages n = 1"
  by (simp add: pages_def)

lemma pages_more: "100 < n \<Longrightarrow> pages n = Suc (pages (n - 100))"
proof -
  assume "100 < n"
  then obtain k where "n = k + 101" by (metis add.commute less_imp_Suc_add add_Suc_right numeral_eq_Suc pred_numeral_simps(3) Suc_eq_plus1 add.assoc)
  then show ?thesis by (simp add: pages_def)
qed

context reliable_store
begin

text \<open>One turn of the loop, on a store that nobody else changes meanwhile.\<close>

lemma list_turn_page:
  assumes calm: "calm (wd_store wd)" and rec: "en_recorder env = Rec_collector"
    and K: "K = {k \<in> dom (view (wd_store wd)). has_prefix k (addr (md_name w @ ''/'')) \<and> after tok k}"
  obtains pc wd1 e where "list_turn cl env r latency w '''' tok wd = Ok (pc, wd1)"
    "calm (wd_store wd1)" "view (wd_store wd1) = view (wd_store wd)"
    "recorded (wd_calls wd1) = recorded (wd_calls wd) @ [e]" "ev_op e = OpList" "ev_err e = None"
    "if card K \<le> 100 then pc = Md_loop \<and> ev_bytes e = int (card K)
     else ev_bytes e = 100 \<and> (\<exists>tok'. pc = Md_list '''' tok' \<and>
       card {k \<in> dom (view (wd_store wd)). has_prefix k (addr (md_name w @ ''/'')) \<and> after tok' k} = card K - 100)"
proof -
  let ?call = "cl_list cl (md_name w @ ''/'') '''' tok 100 (wd_store wd)"
  obtain res rest where page: "fst ?call = Ok res" "sorted_list_of_set K = lr_keys res @ rest"
    "length (lr_keys res) = min (nat 100) (length (lr_keys res @ rest))" "lr_truncated res \<longleftrightarrow> rest \<noteq> []"
    using list_page [OF calm, of 100 "md_name w @ ''/''" tok] unfolding K by auto
  have fin: "finite K" using finite_view [OF calm] unfolding K by simp
  have card: "card K = length (lr_keys res) + length rest"
    using length_sorted_list_of_set [of K] page(2) by simp
  have keys_len: "length (lr_keys res) = min 100 (card K)" unfolding card using page(3) by simp
  have sub: "set (lr_keys res) \<subseteq> K" "distinct (lr_keys res)"
    using set_sorted_list_of_set [OF fin] distinct_sorted_list_of_set [of K] page(2) by auto
  have "lr_common_prefixes res = []" using list_flat [OF calm _ _ page(1)] by simp
  then have count: "list_count (fst ?call) = int (length (lr_keys res))" by (simp add: list_count_def page(1))
  have "fst ?call \<noteq> Panic" using page(1) by simp
  then obtain wd1 where wd1: "record_call env r (md_name w) OpList latency (list_count (fst ?call)) ?call wd = Ok wd1"
    using record_call_Ok [of ?call env r "md_name w" OpList latency "list_count (fst ?call)" wd] rec by auto
  have store: "wd_store wd1 = snd ?call" by (rule record_call_store [OF wd1])
  have turn: "list_turn cl env r latency w '''' tok wd = Ok (list_next_pc '''' (fst ?call), wd1)"
    using wd1 by (simp add: list_turn_def Let_def)
  have more: "if card K \<le> 100 then list_next_pc '''' (fst ?call) = Md_loop \<and> list_count (fst ?call) = int (card K)
     else list_count (fst ?call) = 100 \<and> (\<exists>tok'. list_next_pc '''' (fst ?call) = Md_list '''' tok' \<and>
       card {k \<in> dom (view (wd_store wd)). has_prefix k (addr (md_name w @ ''/'')) \<and> after tok' k} = card K - 100)"
  proof (cases "card K \<le> 100")
    case True
    then have "length rest = 0" using keys_len card by linarith
    then have "rest = []" by simp
    then show ?thesis using True page(1,4) card count by (simp add: list_next_pc_def)
  next
    case False
    then have len: "length (lr_keys res) = 100" "length rest \<noteq> 0" using keys_len card by linarith+
    then have "rest \<noteq> []" by (metis list.size(3))
    then have "lr_truncated res" using page(4) by blast
    from list_next [OF calm _ _ page(1) this]
    have "card {k \<in> dom (view (wd_store wd)). has_prefix k (addr (md_name w @ ''/'')) \<and> after (lr_next res) k} =
        card (K - set (lr_keys res))" by (simp add: K)
    also have "\<dots> = card K - 100"
      using sub len(1) by (simp add: card_Diff_subset distinct_card)
    finally show ?thesis using False page(1) \<open>lr_truncated res\<close> count len(1) by (simp add: list_next_pc_def)
  qed
  show thesis
  proof (rule that [OF turn, of "client_event (md_name w) OpList latency (list_count (fst ?call)) None"])
    show "recorded (wd_calls wd1) =
        recorded (wd_calls wd) @ [client_event (md_name w) OpList latency (list_count (fst ?call)) None]"
      unfolding record_call_calls [OF wd1 rec] by (simp add: recorded_append page(1))
  qed (use more store list_calm [OF calm, of "md_name w @ ''/''" "''''" tok 100]
      list_frame [of "md_name w @ ''/''" "''''" tok 100 "wd_store wd"] in \<open>simp_all add: client_event_def\<close>)
qed

lemma list_walk:
  assumes "calm (wd_store (cw_world st))" "en_recorder env = Rec_collector" "i < length (cw_workers st)"
    and "mw_pc (cw_workers st ! i) = Md_list '''' tok"
    and "length lats = pages (card {k \<in> dom (view (wd_store (cw_world st))).
      has_prefix k (addr (md_name (cw_wl st) @ ''/'')) \<and> after tok k})"
  shows "\<exists>st' es. crew_exec (md_act cl env) (map (Pair i) lats) st = Ok st' \<and>
    cw_wl st' = cw_wl st \<and> cw_workers st' = (cw_workers st)[i := (cw_workers st ! i)\<lparr>mw_pc := Md_loop\<rparr>] \<and>
    view (wd_store (cw_world st')) = view (wd_store (cw_world st)) \<and>
    recorded (wd_calls (cw_world st')) = recorded (wd_calls (cw_world st)) @ es \<and> length es = length lats \<and>
    (\<forall>e \<in> set es. ev_op e = OpList \<and> ev_err e = None) \<and>
    (\<Sum>e\<leftarrow>es. ev_bytes e) = int (card {k \<in> dom (view (wd_store (cw_world st))).
      has_prefix k (addr (md_name (cw_wl st) @ ''/'')) \<and> after tok k})"
  using assms
proof (induction lats arbitrary: st tok)
  case Nil
  then show ?case by (simp add: pages_def)
next
  case (Cons l lats)
  let ?w = "cw_wl st" and ?wd = "cw_world st" and ?k = "cw_workers st ! i"
  define K where "K t = {k \<in> dom (view (wd_store ?wd)). has_prefix k (addr (md_name ?w @ ''/'')) \<and> after t k}" for t
  obtain pc wd1 e where turn: "list_turn cl env (Some (int i)) l ?w '''' tok ?wd = Ok (pc, wd1)"
    "calm (wd_store wd1)" "view (wd_store wd1) = view (wd_store ?wd)"
    "recorded (wd_calls wd1) = recorded (wd_calls ?wd) @ [e]" "ev_op e = OpList" "ev_err e = None"
    "if card (K tok) \<le> 100 then pc = Md_loop \<and> ev_bytes e = int (card (K tok))
     else ev_bytes e = 100 \<and> (\<exists>tok'. pc = Md_list '''' tok' \<and> card (K tok') = card (K tok) - 100)"
    unfolding K_def
    by (rule list_turn_page [OF Cons.prems(1,2) refl, where r = "Some (int i)" and latency = l and tok = tok and w = ?w])
  let ?st1 = "\<lparr>cw_wl = ?w, cw_world = wd1, cw_workers = (cw_workers st)[i := ?k\<lparr>mw_pc := pc\<rparr>]\<rparr>"
  have step: "crew_step (md_act cl env) (i, l) st = Ok ?st1"
    using turn(1) Cons.prems(3,4) by (simp add: crew_step_def md_act_def Let_def)
  have len: "Suc (length lats) = pages (card (K tok))" using Cons.prems(5) by (simp add: K_def)
  show ?case
  proof (cases "card (K tok) \<le> 100")
    case True
    then have "lats = []" using len pages_small by simp
    then show ?thesis
      using step turn True by (intro exI [of _ ?st1] exI [of _ "[e]"]) (simp add: K_def)
  next
    case False
    then obtain tok' where tok': "pc = Md_list '''' tok'" "card (K tok') = card (K tok) - 100" "ev_bytes e = 100"
      using turn(7) by auto
    have "length lats = pages (card (K tok'))" using len False tok'(2) pages_more [of "card (K tok)"] by simp
    then obtain st' es where IH: "crew_exec (md_act cl env) (map (Pair i) lats) ?st1 = Ok st'"
      "cw_wl st' = ?w" "cw_workers st' = (cw_workers st)[i := ?k\<lparr>mw_pc := Md_loop\<rparr>]"
      "view (wd_store (cw_world st')) = view (wd_store ?wd)"
      "recorded (wd_calls (cw_world st')) = recorded (wd_calls wd1) @ es" "length es = length lats"
      "\<forall>e \<in> set es. ev_op e = OpList \<and> ev_err e = None" "(\<Sum>e\<leftarrow>es. ev_bytes e) = int (card (K tok'))"
      using Cons.IH [of ?st1 tok'] turn(2,3) Cons.prems(2,3) tok'(1) by (auto simp: K_def)
    have "(\<Sum>e\<leftarrow>e # es. ev_bytes e) = int (card (K tok))" using IH(8) tok'(2,3) False by simp
    then show ?thesis
      using step IH turn(4-6) by (intro exI [of _ st'] exI [of _ "e # es"]) (simp add: K_def)
  qed
qed

end



definition list_sample :: "(metadata_wl, md_worker, fake_state) crew" where
  "list_sample = \<lparr>cw_wl = md_sample,
     cw_world = \<lparr>wd_store = fake_new\<lparr>fs_objects := [(''m/a'', []), (''x'', [])]\<rparr>, wd_calls = []\<rparr>,
     cw_workers = [\<lparr>mw_pc = Md_list '''' '''', mw_rng = sconst 0\<rparr>]\<rparr>"


subsection \<open>A run on a store that works\<close>

definition md_worker_ok :: "metadata_wl \<Rightarrow> md_worker \<Rightarrow> bool" where
  "md_worker_ok w k \<longleftrightarrow>
     (case mw_pc k of
        Md_copy src dst \<Rightarrow> (\<exists>j. 0 \<le> j \<and> j < md_copies w \<and> dst = copy_key_for w j)
      | _ \<Rightarrow> True)"

definition md_inv ::
  "('s \<Rightarrow> string \<Rightarrow> bytes option) \<Rightarrow> (string \<Rightarrow> string) \<Rightarrow> ('s \<Rightarrow> bool) \<Rightarrow> metadata_wl
     \<Rightarrow> (string \<Rightarrow> bytes option) \<Rightarrow> nat \<Rightarrow> metadata_wl \<Rightarrow> md_worker list \<Rightarrow> 's world \<Rightarrow> bool" where
  "md_inv view addr calm w1 v m w ks wd \<longleftrightarrow>
     w = w1\<lparr>md_copies := md_copies w\<rparr> \<and> md_copies w1 \<le> md_copies w \<and> md_copies w \<le> md_copies w1 + int m \<and>
     calm (wd_store wd) \<and> (\<forall>k \<in> set ks. md_worker_ok w k) \<and>
     (\<forall>x. view (wd_store wd) x \<noteq> v x \<longrightarrow> (\<exists>j. 0 \<le> j \<and> j < md_copies w \<and> x = addr (copy_key_for w1 j)))"

lemma copy_key_for_copies [simp]: "copy_key_for (w\<lparr>md_copies := n\<rparr>) j = copy_key_for w j"
  by (simp add: copy_key_for_def)

lemma md_worker_ok_mono:
  "md_worker_ok w k \<Longrightarrow> md_copies w \<le> n \<Longrightarrow> md_worker_ok (w\<lparr>md_copies := n\<rparr>) k"
  by (auto simp: md_worker_ok_def split: md_pc.splits)

lemma one_op_ok:
  assumes "md_base_keys w \<noteq> []" "0 \<le> md_copies w" "md_copies w + 1 < 2 ^ 63"
  obtains n k' where "one_op w k = Ok (w\<lparr>md_copies := n\<rparr>, k')" "md_copies w \<le> n" "n \<le> md_copies w + 1"
    "md_worker_ok (w\<lparr>md_copies := n\<rparr>) k'"
proof -
  obtain j r1 where j: "int63n (int (length (md_base_keys w))) (mw_rng k) = (Ok j, r1)"
    using assms(1) by (simp add: int63n_def)
  obtain verb r2 where verb: "int63n 6 r1 = (Ok verb, r2)" by (simp add: int63n_def)
  have wrap: "wrap64 (md_copies w + 1) = md_copies w + 1" "wrap64 (md_copies w) = md_copies w"
    using assms(2,3) by (simp_all add: in_int64_iff)
  let ?key = "md_base_keys w ! nat j"
  show thesis
  proof (cases "verb = 3")
    case True
    then have op: "one_op w k = Ok (w\<lparr>md_copies := md_copies w + 1\<rparr>,
        \<lparr>mw_pc = Md_copy ?key (copy_key_for w (md_copies w)), mw_rng = r2\<rparr>)"
      using j verb wrap by (simp add: one_op_def Let_def)
    show thesis using assms(2) by (intro that [OF op]) (auto simp: md_worker_ok_def)
  next
    case False
    have same: "w\<lparr>md_copies := md_copies w\<rparr> = w" by simp
    define pc where "pc = (if verb = 0 then Md_head ?key else if verb = 1 then Md_list '''' ''''
      else if verb = 2 then Md_list ''/'' '''' else if verb = 4 then Md_put_tags ?key else Md_get_tags ?key)"
    have pc: "one_op w k = Ok (w, \<lparr>mw_pc = pc, mw_rng = r2\<rparr>)" "\<forall>src dst. pc \<noteq> Md_copy src dst"
      using False j verb by (simp_all add: one_op_def Let_def pc_def)
    then have "md_worker_ok w \<lparr>mw_pc = pc, mw_rng = r2\<rparr>"
      by (cases pc) (auto simp: md_worker_ok_def)
    then show thesis using that [of "md_copies w"] pc(1) same by simp
  qed
qed


lemma md_inv_call:
  assumes inv: "md_inv view addr calm w1 v m w ks wd" and rec: "en_recorder env = Rec_collector"
    and call: "fst call \<noteq> Panic" "calm (snd call)" and k: "md_worker_ok w k"
    and frame: "\<And>x. view (snd call) x \<noteq> view (wd_store wd) x \<Longrightarrow>
      \<exists>j. 0 \<le> j \<and> j < md_copies w \<and> x = addr (copy_key_for w1 j)"
  shows "\<exists>wd'. record_call env r name op latency n call wd = Ok wd' \<and>
    md_inv view addr calm w1 v (Suc m) w (ks[i := k]) wd'"
proof -
  obtain wd' where wd': "record_call env r name op latency n call wd = Ok wd'"
    using record_call_Ok [of call env r name op latency n wd] call(1) rec by auto
  have store: "wd_store wd' = snd call" by (rule record_call_store [OF wd'])
  have "\<exists>j. 0 \<le> j \<and> j < md_copies w \<and> x = addr (copy_key_for w1 j)" if "view (wd_store wd') x \<noteq> v x" for x
    using frame [of x] inv that unfolding md_inv_def store by (cases "view (snd call) x = view (wd_store wd) x") auto
  moreover have "\<forall>k' \<in> set (ks[i := k]). md_worker_ok w k'"
    using inv k set_update_subset_insert [of ks i k] by (auto simp: md_inv_def)
  ultimately have "md_inv view addr calm w1 v (Suc m) w (ks[i := k]) wd'"
    using inv call(2) unfolding md_inv_def store by simp
  with wd' show ?thesis by blast
qed

lemma md_worker_ok_pc: "\<forall>src dst. pc \<noteq> Md_copy src dst \<Longrightarrow> md_worker_ok w (k\<lparr>mw_pc := pc\<rparr>)"
  by (cases pc) (auto simp: md_worker_ok_def)

lemma list_next_pc_not_copy: "\<forall>src dst. list_next_pc d out \<noteq> Md_copy src dst"
  by (auto simp: list_next_pc_def split: res.splits)

context reliable_store
begin

lemma md_act_inv:
  assumes inv: "md_inv view addr calm w1 v m w ks wd" and rec: "en_recorder env = Rec_collector"
    and w1: "md_base_keys w1 \<noteq> []" "0 \<le> md_copies w1" "md_copies w1 + int m + 1 < 2 ^ 63" and i: "i < length ks"
  shows "\<exists>w' k wd'. md_act cl env i latency w (ks ! i) wd = Ok (w', k, wd') \<and>
    md_inv view addr calm w1 v (Suc m) w' (ks[i := k]) wd'"
proof -
  have D: "w = w1\<lparr>md_copies := md_copies w\<rparr>" "md_copies w1 \<le> md_copies w" "md_copies w \<le> md_copies w1 + int m"
    "calm (wd_store wd)" "\<forall>k \<in> set ks. md_worker_ok w k"
    using inv by (auto simp: md_inv_def)
  let ?k = "ks ! i"
  have k: "md_worker_ok w ?k" using D(5) i by simp
  have idle: "md_worker_ok w (?k\<lparr>mw_pc := Md_loop\<rparr>)" by (simp add: md_worker_ok_pc)
  note call = md_inv_call [OF inv rec _ _ idle]
  show ?thesis
  proof (cases "mw_pc ?k")
    case Md_loop
    have base: "md_base_keys w \<noteq> []" using w1(1) by (subst D(1)) simp
    have "0 \<le> md_copies w" "md_copies w + 1 < 2 ^ 63" using w1(2,3) D(2,3) by linarith+
    then obtain n k' where op: "one_op w ?k = Ok (w\<lparr>md_copies := n\<rparr>, k')" "md_copies w \<le> n" "n \<le> md_copies w + 1"
      "md_worker_ok (w\<lparr>md_copies := n\<rparr>) k'"
      by (rule one_op_ok [OF base])
    have "\<forall>j \<in> set (ks[i := k']). md_worker_ok (w\<lparr>md_copies := n\<rparr>) j"
      using D(5) op(2,4) md_worker_ok_mono set_update_subset_insert [of ks i k'] by fastforce
    moreover have "w\<lparr>md_copies := n\<rparr> = w1\<lparr>md_copies := n\<rparr>" by (subst D(1)) simp
    ultimately have "md_inv view addr calm w1 v (Suc m) (w\<lparr>md_copies := n\<rparr>) (ks[i := k']) wd"
      using inv op(2,3) D(2,3) unfolding md_inv_def by (simp, meson less_le_trans)
    then show ?thesis using op(1) Md_loop by (simp add: md_act_def Let_def)
  next
    case (Md_head key)
    have "\<exists>wd'. md_head cl env (Some (int i)) latency w key wd = Ok wd' \<and>
        md_inv view addr calm w1 v (Suc m) w (ks[i := ?k\<lparr>mw_pc := Md_loop\<rparr>]) wd'"
      unfolding md_head_def by (rule call) (use D(4) in \<open>simp_all add: head_returns head_calm head_frame\<close>)
    then show ?thesis using Md_head by (auto simp: md_act_def Let_def)
  next
    case (Md_list d tok)
    let ?call = "cl_list cl (md_name w @ ''/'') d tok 100 (wd_store wd)"
    let ?k' = "?k\<lparr>mw_pc := list_next_pc d (fst ?call)\<rparr>"
    have "md_worker_ok w ?k'" by (rule md_worker_ok_pc [OF list_next_pc_not_copy])
    then have "\<exists>wd'. record_call env (Some (int i)) (md_name w) OpList latency (list_count (fst ?call)) ?call wd = Ok wd' \<and>
        md_inv view addr calm w1 v (Suc m) w (ks[i := ?k']) wd'"
      by (intro md_inv_call [OF inv rec]) (use D(4) in \<open>simp_all add: list_returns list_calm list_frame\<close>)
    then obtain wd' where "list_turn cl env (Some (int i)) latency w d tok wd = Ok (list_next_pc d (fst ?call), wd')"
      "md_inv view addr calm w1 v (Suc m) w (ks[i := ?k']) wd'"
      by (auto simp: list_turn_def Let_def)
    then show ?thesis using Md_list by (simp add: md_act_def Let_def)
  next
    case (Md_copy src dst)
    have dst: "\<exists>j. 0 \<le> j \<and> j < md_copies w \<and> dst = copy_key_for w j"
      using k Md_copy by (simp add: md_worker_ok_def)
    then have "\<exists>j. 0 \<le> j \<and> j < md_copies w \<and> dst = copy_key_for w1 j"
      by (subst (asm) (2) D(1)) simp
    then have "\<exists>wd'. md_copy cl env (Some (int i)) latency w src dst wd = Ok wd' \<and>
        md_inv view addr calm w1 v (Suc m) w (ks[i := ?k\<lparr>mw_pc := Md_loop\<rparr>]) wd'"
      unfolding md_copy_def
      by (intro call) (use D(4) copy_frame [of _ dst src "wd_store wd"] in \<open>auto simp: copy_returns copy_calm\<close>)
    then show ?thesis using Md_copy by (auto simp: md_act_def Let_def)
  next
    case (Md_put_tags key)
    have "\<exists>wd'. md_put_tags cl env (Some (int i)) latency w key wd = Ok wd' \<and>
        md_inv view addr calm w1 v (Suc m) w (ks[i := ?k\<lparr>mw_pc := Md_loop\<rparr>]) wd'"
      unfolding md_put_tags_def
      by (rule call) (use D(4) in \<open>simp_all add: put_tags_returns put_tags_calm put_tags_frame\<close>)
    then show ?thesis using Md_put_tags by (auto simp: md_act_def Let_def)
  next
    case (Md_get_tags key)
    have "\<exists>wd'. md_get_tags cl env (Some (int i)) latency w key wd = Ok wd' \<and>
        md_inv view addr calm w1 v (Suc m) w (ks[i := ?k\<lparr>mw_pc := Md_loop\<rparr>]) wd'"
      unfolding md_get_tags_def
      by (rule call) (use D(4) in \<open>simp_all add: get_tags_returns get_tags_calm get_tags_frame\<close>)
    then show ?thesis using Md_get_tags by (auto simp: md_act_def Let_def)
  qed
qed

end


context reliable_store
begin

lemma md_fill_ok:
  assumes "calm s" "0 \<le> n"
  shows "\<exists>s'. md_fill entropy cl n ks s = (Ok (), ks, s') \<and> calm s' \<and>
    (\<forall>x. x \<notin> addr ` set ks \<longrightarrow> view s' x = view s x)"
  using assms
proof (induction ks arbitrary: s)
  case (Cons k ks)
  let ?b = "body entropy n"
  have len: "n = int (length ?b)" using Cons.prems(2) by simp
  obtain s1 where put: "cl_put cl k ?b n s = (Ok (), s1)"
    using put_ok [OF Cons.prems(1) len] by (metis prod.collapse)
  have s1: "calm s1" "view s1 = (view s)(addr k \<mapsto> ?b)"
    using put_calm [OF Cons.prems(1), of k ?b n] put_view [OF Cons.prems(1) len, of k] put by simp_all
  obtain s' where "md_fill entropy cl n ks s1 = (Ok (), ks, s')" "calm s'"
    "\<forall>x. x \<notin> addr ` set ks \<longrightarrow> view s' x = view s1 x"
    using Cons.IH [OF s1(1) Cons.prems(2)] by blast
  then show ?case using put s1(2) by (intro exI [of _ s']) simp
qed simp

end

lemma md_start_ok:
  assumes "md_start source env w wd = Ok st"
  shows "cw_wl st = w \<and> wd_store (cw_world st) = wd_store wd \<and> md_base_keys w \<noteq> [] \<and>
    (\<forall>k \<in> set (cw_workers st). md_worker_ok w k)"
proof -
  obtain wd1 where wd1: "shard_all env [0..<nat (en_threads env)] wd = Ok wd1"
    and st: "st = \<lparr>cw_wl = w, cw_world = wd1,
      cw_workers = map (\<lambda>i. \<lparr>mw_pc = Md_loop, mw_rng = worker_rand source (Some env) (int i)\<rparr>) [0..<nat (en_threads env)]\<rparr>"
    and keys: "md_base_keys w \<noteq> []"
    using assms by (auto simp: md_start_def Let_def split: if_splits res.splits)
  then show ?thesis using shard_all_store [OF wd1] by (auto simp: md_worker_ok_def)
qed

lemma md_factory_ok:
  "md_factory e = Ok w \<Longrightarrow> 0 < md_size w \<and> md_base_keys w = [] \<and> md_copies w = 0"
  by (auto simp: md_factory_def Let_def split: if_splits)

text \<open>C12. A metadata workload leaves no trace: on a store that works its prepopulation succeeds, every
  schedule of its workers runs to its end without a panic, and \<open>Cleanup\<close> then succeeds and
  restores the bucket to what it was before, the destinations of all copies included.\<close>

theorem md_lifecycle:
  assumes "reliable_store cl view addr calm after" and "calm (wd_store wd0)"
    and "md_factory e = Ok w0" and "md_prepopulate entropy cl w0 wd0 = (out, w, wd)"
    and "\<And>k. k \<in> set (md_keys w0) \<or> (\<exists>n \<ge> 0. k = copy_key_for w0 n) \<Longrightarrow> view (wd_store wd0) (addr k) = None"
    and "en_recorder env = Rec_collector" and "md_start source env w wd = Ok st" and "int (length ls) < 2 ^ 63"
  shows "out = Ok () \<and> (\<exists>st' wd'. crew_exec (md_act cl env) ls st = Ok st' \<and>
    md_cleanup cl (cw_wl st') (cw_world st') = (Ok (), wd') \<and> view (wd_store wd') = view (wd_store wd0))"
proof -
  have fac: "0 < md_size w0" "md_base_keys w0 = []" "md_copies w0 = 0" using md_factory_ok [OF assms(3)] by simp_all
  obtain s0 where s0: "md_fill entropy cl (md_size w0) (md_keys w0) (wd_store wd0) = (Ok (), md_keys w0, s0)" "calm s0"
    "\<forall>x. x \<notin> addr ` set (md_keys w0) \<longrightarrow> view s0 x = view (wd_store wd0) x"
    using reliable_store.md_fill_ok [OF assms(1,2), of "md_size w0"] fac(1) by force
  have pre: "out = Ok ()" "w = w0\<lparr>md_base_keys := md_keys w0\<rparr>" "wd = wd0\<lparr>wd_store := s0\<rparr>"
    using assms(4) s0(1) fac(2) by (simp_all add: md_prepopulate_def)
  have w: "md_copies w = 0" "copy_key_for w j = copy_key_for w0 j" "md_base_keys w = md_keys w0" for j
    by (simp_all add: pre(2) fac(3) copy_key_for_def)
  note start = md_start_ok [OF assms(7)]
  let ?I = "md_inv view addr calm w (view (wd_store wd))"
  have init: "?I 0 (cw_wl st) (cw_workers st) (cw_world st)"
    using start s0(2) pre(3) by (simp add: md_inv_def)
  have "\<exists>st'. crew_exec (md_act cl env) ls st = Ok st' \<and> ?I (0 + length ls) (cw_wl st') (cw_workers st') (cw_world st')"
  proof (rule crew_exec_ok [where I = ?I, OF init])
    show "?I (Suc m) v ks wd" if "?I m v ks wd" for m v ks wd
      using that by (auto simp: md_inv_def)
    fix m i latency v ks wd assume "?I m v ks wd" "m < 0 + length ls" "i < length ks"
    then show "\<exists>w' k wd'. md_act cl env i latency v (ks ! i) wd = Ok (w', k, wd') \<and> ?I (Suc m) w' (ks[i := k]) wd'"
      using start w(1) assms(8) by (intro reliable_store.md_act_inv [OF assms(1) _ assms(6)]) simp_all
  qed
  then obtain st' where st': "crew_exec (md_act cl env) ls st = Ok st'"
    "?I (length ls) (cw_wl st') (cw_workers st') (cw_world st')" by auto
  define n where "n = md_copies (cw_wl st')"
  have D: "cw_wl st' = w\<lparr>md_copies := n\<rparr>" "calm (wd_store (cw_world st'))"
    "\<And>x. view (wd_store (cw_world st')) x \<noteq> view (wd_store wd) x \<Longrightarrow> \<exists>j. 0 \<le> j \<and> j < n \<and> x = addr (copy_key_for w j)"
    using st'(2) unfolding md_inv_def n_def by blast+
  let ?copies = "map (\<lambda>i. copy_key_for w (int i)) [0..<nat n]"
  obtain s1 where s1: "delete_keys cl (md_keys w0) (wd_store (cw_world st')) = (Ok (), s1)" "calm s1"
    "view s1 = (\<lambda>x. if x \<in> addr ` set (md_keys w0) then None else view (wd_store (cw_world st')) x)"
    using reliable_store.delete_keys_calm [OF assms(1) D(2)] by blast
  obtain s2 where s2: "delete_keys cl ?copies s1 = (Ok (), s2)"
    "view s2 = (\<lambda>x. if x \<in> addr ` set ?copies then None else view s1 x)"
    using reliable_store.delete_keys_calm [OF assms(1) s1(2)] by blast
  have clean: "md_cleanup cl (cw_wl st') (cw_world st') = (Ok (), (cw_world st')\<lparr>wd_store := s2\<rparr>)"
    using s1(1) s2(1) by (simp add: md_cleanup_def D(1) w(3))
  have "view s2 x = view (wd_store wd0) x" for x
  proof (cases "x \<in> addr ` set ?copies \<or> x \<in> addr ` set (md_keys w0)")
    case True
    have gone: "view (wd_store wd0) (addr (copy_key_for w (int i))) = None" for i
      unfolding w(2) by (rule assms(5)) (intro disjI2 exI [of _ "int i"] conjI refl, simp)
    have "view (wd_store wd0) x = None"
      using True gone assms(5) by auto
    then show ?thesis using True s2(2) s1(3) by auto
  next
    case False
    have "\<nexists>j. 0 \<le> j \<and> j < n \<and> x = addr (copy_key_for w j)"
    proof
      assume "\<exists>j. 0 \<le> j \<and> j < n \<and> x = addr (copy_key_for w j)"
      then obtain j where "0 \<le> j" "j < n" "x = addr (copy_key_for w (int (nat j)))" by auto
      then have "x \<in> addr ` set ?copies" by (auto intro!: image_eqI [of _ _ "nat j"])
      with False show False by blast
    qed
    then have "view (wd_store (cw_world st')) x = view (wd_store wd) x" using D(3) [of x] by blast
    also have "\<dots> = view (wd_store wd0) x" using s0(3) False by (simp add: pre(3))
    finally show ?thesis unfolding s2(2) s1(3) using False by simp
  qed
  then have "view (wd_store ((cw_world st')\<lparr>wd_store := s2\<rparr>)) = view (wd_store wd0)" by (simp add: fun_eq_iff)
  with pre(1) st'(1) clean show ?thesis by blast
qed

theorem md_lifecycle_witness:
  "\<exists>w wd st st' wd'. md_prepopulate (fill_entropy []) fake_client md_sample race_world = (Ok (), w, wd) \<and>
     md_start race_source race_env w wd = Ok st \<and>
     crew_exec (md_act fake_client race_env) [(0, 5), (1, 5), (1, 6), (0, 7)] st = Ok st' \<and>
     md_cleanup fake_client (cw_wl st') (cw_world st') = (Ok (), wd') \<and>
     fake_view (wd_store wd') = fake_view (wd_store race_world)"
proof -
  obtain out w wd where pre: "md_prepopulate (fill_entropy []) fake_client md_sample race_world = (out, w, wd)"
    by (metis prod_cases3)
  obtain s where "md_fill (fill_entropy []) fake_client 1 (md_keys md_sample) (wd_store race_world) = (Ok (), md_keys md_sample, s)"
    using fake.md_fill_ok [OF race_world_calm(1), of 1 "fill_entropy []" "md_keys md_sample"] by auto
  moreover have "md_size md_sample = 1" "md_base_keys md_sample = []" by (simp_all add: md_sample_def)
  ultimately have "md_base_keys w = md_keys md_sample" using pre by (auto simp: md_prepopulate_def)
  moreover have "length (md_keys md_sample) = 202"
    unfolding md_keys_def by (subst length_concat_const [where c = 2]) (simp_all add: length_build_prefixes md_sample_def)
  ultimately have keys: "md_base_keys w \<noteq> []" by auto
  have run: "en_recorder race_env = Rec_collector" "en_threads race_env = 2" by (simp_all add: race_env_def)
  obtain wd1 where "shard_all race_env [0..<nat (en_threads race_env)] wd = Ok wd1"
    using shard_all_ok [of race_env "[0..<nat (en_threads race_env)]" wd] run by auto
  then obtain st where st: "md_start race_source race_env w wd = Ok st"
    using keys run(2) by (simp add: md_start_def Let_def)
  have "int (length [(0 :: nat, 5 :: int), (1, 5), (1, 6), (0, 7)]) < 2 ^ 63" by simp
  from md_lifecycle [OF fake.reliable_store_axioms race_world_calm(1) md_sample_built pre race_world_calm(2) run(1) st this]
  show ?thesis using pre st by blast
qed

end
