(* ===== verification/Lancedb.thy ===== *)
theory Lancedb
  imports Object_Workloads
begin

section \<open>Columnar storage (\<open>internal/workload/lancedb/lancedb.go\<close>)\<close>

text \<open>
  Data fragments and manifests are uploaded first; the workers then mix ranged reads of fragments,
  listings of the manifests, and uploads of new manifests, whose numbers come from a shared
  counter. A worker's steps are its draws with the access to the counter, and each client call with
  the local computation that follows it.
\<close>

record lancedb =
  lc_name :: string
  lc_data_prefix :: string
  lc_manifest_prefix :: string
  lc_fragments :: int
  lc_fragment_size :: int
  lc_manifests :: int
  lc_manifest_min :: int
  lc_manifest_max :: int
  lc_read_ratio :: real
  lc_range_mean :: real
  lc_range_sigma :: real
  lc_range_min :: int
  lc_range_max :: int
  lc_fragment_count :: int
  lc_manifest_count :: int
  lc_written :: int

definition lc_factory :: "(string \<Rightarrow> real option) \<Rightarrow> lancedb factory" where
  "lc_factory parse_float w =
     (let p = we_params w;
          fragments = int_param p ''fragments'' 100;
          manifests = int_param p ''manifest_count'' 50
      in if fragments \<le> 0 \<or> manifests \<le> 0
         then Err (Plain_error (''lancedb '' @ we_name w @ '': fragments and manifest_count must be >0''))
         else Ok \<lparr>lc_name = we_name w, lc_data_prefix = we_name w @ ''/data/frag-'',
                  lc_manifest_prefix = we_name w @ ''/_versions/ver-'', lc_fragments = fragments,
                  lc_fragment_size = size_param p ''fragment_size'' 134217728, lc_manifests = manifests,
                  lc_manifest_min = size_param p ''manifest_min_size'' 1024,
                  lc_manifest_max = size_param p ''manifest_max_size'' 65536,
                  lc_read_ratio = float_param parse_float p ''read_ratio'' (8 / 10),
                  lc_range_mean = of_int (size_param p ''range_mean'' 65536),
                  lc_range_sigma = float_param parse_float p ''range_sigma'' (3 / 2),
                  lc_range_min = size_param p ''range_min'' 4096,
                  lc_range_max = size_param p ''range_max'' 4194304,
                  lc_fragment_count = 0, lc_manifest_count = 0, lc_written = 0\<rparr>)"

definition data_key :: "lancedb \<Rightarrow> int \<Rightarrow> string" where
  "data_key w i = append_key_padded (lc_data_prefix w) i 6"

definition manifest_key :: "lancedb \<Rightarrow> int \<Rightarrow> string" where
  "manifest_key w i = append_key_padded (lc_manifest_prefix w) i 8 @ ''.manifest''"

subsection \<open>Prepopulation\<close>

text \<open>The two upload loops return how many objects they stored.\<close>

fun upload_fragments :: "bytes \<Rightarrow> 's client \<Rightarrow> lancedb \<Rightarrow> nat list \<Rightarrow> 's \<Rightarrow> unit res \<times> int \<times> 's" where
  "upload_fragments entropy cl w [] s = (Ok (), 0, s)"
| "upload_fragments entropy cl w (i # is) s =
     (case cl_multipart cl (data_key w (int i)) (body entropy (lc_fragment_size w)) (lc_fragment_size w) s of
        (Ok _, s1) \<Rightarrow> (case upload_fragments entropy cl w is s1 of (out, n, s2) \<Rightarrow> (out, n + 1, s2))
      | (Err e, s1) \<Rightarrow> (Err e, 0, s1)
      | (Panic, s1) \<Rightarrow> (Panic, 0, s1))"

text \<open>The size of a manifest: \<open>Int63n\<close> panics on a nil generator and on an overflowing range.\<close>

definition manifest_size :: "lancedb \<Rightarrow> rng option \<Rightarrow> int res \<times> rng option" where
  "manifest_size w ro =
     (if lc_manifest_max w > lc_manifest_min w then
        (case ro of
           None \<Rightarrow> (Panic, None)
         | Some r \<Rightarrow>
             (case int63n (wrap64 (lc_manifest_max w - lc_manifest_min w + 1)) r of
                (Ok n, r1) \<Rightarrow> (Ok (wrap64 (lc_manifest_min w + n)), Some r1)
              | (Err e, r1) \<Rightarrow> (Err e, Some r1)
              | (Panic, r1) \<Rightarrow> (Panic, Some r1)))
      else (Ok (lc_manifest_min w), ro))"

fun upload_manifests ::
  "bytes \<Rightarrow> 's client \<Rightarrow> lancedb \<Rightarrow> nat list \<Rightarrow> rng option \<Rightarrow> 's \<Rightarrow> unit res \<times> int \<times> rng option \<times> 's" where
  "upload_manifests entropy cl w [] ro s = (Ok (), 0, ro, s)"
| "upload_manifests entropy cl w (i # is) ro s =
     (case manifest_size w ro of
        (Ok n, ro1) \<Rightarrow>
          (case cl_put cl (manifest_key w (int i)) (body entropy n) n s of
             (Ok _, s1) \<Rightarrow>
               (case upload_manifests entropy cl w is ro1 s1 of (out, c, ro2, s2) \<Rightarrow> (out, c + 1, ro2, s2))
           | (Err e, s1) \<Rightarrow> (Err e, 0, ro1, s1)
           | (Panic, s1) \<Rightarrow> (Panic, 0, ro1, s1))
      | (Err e, ro1) \<Rightarrow> (Err e, 0, ro1, s)
      | (Panic, ro1) \<Rightarrow> (Panic, 0, ro1, s))"

text \<open>The counters keep their old value where a loop stored nothing.\<close>

definition lc_prepopulate ::
  "bytes \<Rightarrow> 's client \<Rightarrow> env \<Rightarrow> lancedb \<Rightarrow> 's world \<Rightarrow> unit res \<times> lancedb \<times> env \<times> 's world" where
  "lc_prepopulate entropy cl env w wd =
     (case upload_fragments entropy cl w [0..<nat (lc_fragments w)] (wd_store wd) of
        (out, n, s1) \<Rightarrow>
          (let w1 = (if n = 0 then w else w\<lparr>lc_fragment_count := n\<rparr>) in
           if out \<noteq> Ok () then (out, w1, env, wd\<lparr>wd_store := s1\<rparr>)
           else case upload_manifests entropy cl w1 [0..<nat (lc_manifests w)] (en_rand env) s1 of
                  (out2, c, ro, s2) \<Rightarrow>
                    (out2, if c = 0 then w1 else w1\<lparr>lc_manifest_count := c\<rparr>,
                     env\<lparr>en_rand := ro\<rparr>, wd\<lparr>wd_store := s2\<rparr>)))"

subsection \<open>Workers\<close>

datatype lc_pc =
    Lc_loop
  | Lc_head string
  | Lc_range string int int    \<comment> \<open>key, offset and length\<close>
  | Lc_list string             \<comment> \<open>delimiter\<close>
  | Lc_write string int        \<comment> \<open>key and size\<close>

record lc_worker =
  lw_pc :: lc_pc
  lw_rng :: rng
  lw_sampler :: lognormal

definition do_read :: "lancedb \<Rightarrow> lc_worker \<Rightarrow> lc_worker res" where
  "do_read w k =
     (case int63n 3 (lw_rng k) of
        (Ok kind, r1) \<Rightarrow>
          (if kind = 0 then
             (if lc_fragment_count w = 0 then Ok (k\<lparr>lw_rng := r1\<rparr>)
              else case int63n (lc_fragment_count w) r1 of
                     (Ok i, r2) \<Rightarrow> Ok (k\<lparr>lw_rng := r2, lw_pc := Lc_head (data_key w i)\<rparr>)
                   | (Err e, r2) \<Rightarrow> Err e
                   | (Panic, r2) \<Rightarrow> Panic)
           else if kind = 1 then Ok (k\<lparr>lw_rng := r1, lw_pc := Lc_list ''/''\<rparr>)
           else Ok (k\<lparr>lw_rng := r1, lw_pc := Lc_list ''''\<rparr>))
      | (Err e, r1) \<Rightarrow> Err e
      | (Panic, r1) \<Rightarrow> Panic)"

text \<open>A writer claims the next number behind the prepopulated manifests, then draws a size.\<close>

definition do_write :: "lancedb \<Rightarrow> lc_worker \<Rightarrow> (lancedb \<times> lc_worker) res" where
  "do_write w k =
     (let n = wrap64 (lc_written w + 1);
          key = manifest_key w (wrap64 (lc_manifest_count w + wrap64 (n - 1)))
      in case manifest_size w (Some (lw_rng k)) of
           (Ok sz, ro) \<Rightarrow>
             Ok (w\<lparr>lc_written := n\<rparr>,
                 k\<lparr>lw_pc := Lc_write key sz, lw_rng := (case ro of Some r \<Rightarrow> r | None \<Rightarrow> lw_rng k)\<rparr>)
         | (Err e, ro) \<Rightarrow> Err e
         | (Panic, ro) \<Rightarrow> Panic)"

text \<open>The range of \<open>headThenRange\<close> for an object of the given size.\<close>

definition plan_range :: "(int \<Rightarrow> real) \<Rightarrow> int \<Rightarrow> lognormal \<Rightarrow> rng \<Rightarrow> (int \<times> int \<times> lognormal \<times> rng) res" where
  "plan_range gauss sz l r =
     (let (n, l1) = lognormal_sample gauss l;
          rs = (if n > sz then sz else n)
      in if wrap64 (sz - rs) > 0 then
           (case int63n (wrap64 (wrap64 (sz - rs) + 1)) r of
              (Ok off, r1) \<Rightarrow> Ok (off, rs, l1, r1)
            | (Err e, r1) \<Rightarrow> Err e
            | (Panic, r1) \<Rightarrow> Panic)
         else Ok (0, rs, l1, r))"

definition head_turn ::
  "(int \<Rightarrow> real) \<Rightarrow> 's client \<Rightarrow> env \<Rightarrow> recorder \<Rightarrow> int \<Rightarrow> lancedb \<Rightarrow> lc_worker \<Rightarrow> string \<Rightarrow> 's world
     \<Rightarrow> (lc_worker \<times> 's world) res" where
  "head_turn gauss cl env r latency w k key wd =
     (let call = cl_head cl key (wd_store wd) in
      case record_call env r (lc_name w) OpHead latency 0 call wd of
        Ok wd1 \<Rightarrow>
          (case fst call of
             Ok sz \<Rightarrow>
               (case plan_range gauss sz (lw_sampler k) (lw_rng k) of
                  Ok (off, rs, l, r1) \<Rightarrow>
                    Ok (\<lparr>lw_pc = Lc_range key off rs, lw_rng = r1, lw_sampler = l\<rparr>, wd1)
                | Err e \<Rightarrow> Err e
                | Panic \<Rightarrow> Panic)
           | _ \<Rightarrow> Ok (k\<lparr>lw_pc := Lc_loop\<rparr>, wd1))
      | Err e \<Rightarrow> Err e
      | Panic \<Rightarrow> Panic)"

definition range_turn ::
  "'s client \<Rightarrow> env \<Rightarrow> recorder \<Rightarrow> int \<Rightarrow> lancedb \<Rightarrow> string \<Rightarrow> int \<Rightarrow> int \<Rightarrow> 's world \<Rightarrow> 's world res" where
  "range_turn cl env r latency w key off rs wd =
     (let call = cl_range_get cl key off rs (wd_store wd) in
      record_call env r (lc_name w) OpRangeGet latency (read_bytes (fst call)) call wd)"

definition list_manifest ::
  "'s client \<Rightarrow> env \<Rightarrow> recorder \<Rightarrow> int \<Rightarrow> lancedb \<Rightarrow> string \<Rightarrow> 's world \<Rightarrow> 's world res" where
  "list_manifest cl env r latency w d wd =
     record_call env r (lc_name w) OpList latency 0
       (cl_list cl (lc_name w @ ''/_versions/'') d '''' 100 (wd_store wd)) wd"

definition write_turn ::
  "bytes \<Rightarrow> 's client \<Rightarrow> env \<Rightarrow> recorder \<Rightarrow> int \<Rightarrow> lancedb \<Rightarrow> string \<Rightarrow> int \<Rightarrow> 's world \<Rightarrow> 's world res" where
  "write_turn entropy cl env r latency w key n wd =
     record_call env r (lc_name w) OpManifestPut latency n
       (cl_put cl key (body entropy n) n (wd_store wd)) wd"

definition lc_act ::
  "bytes \<Rightarrow> (int \<Rightarrow> real) \<Rightarrow> 's client \<Rightarrow> env \<Rightarrow> (lancedb, lc_worker, 's) act" where
  "lc_act entropy gauss cl env i latency w k wd =
     (let r = Some (int i); idle = k\<lparr>lw_pc := Lc_loop\<rparr> in
      case lw_pc k of
        Lc_loop \<Rightarrow>
          (let (f, r1) = float64 (lw_rng k); k1 = k\<lparr>lw_rng := r1\<rparr> in
           if f < lc_read_ratio w
           then (case do_read w k1 of Ok k2 \<Rightarrow> Ok (w, k2, wd) | Err e \<Rightarrow> Err e | Panic \<Rightarrow> Panic)
           else (case do_write w k1 of Ok (w1, k2) \<Rightarrow> Ok (w1, k2, wd) | Err e \<Rightarrow> Err e | Panic \<Rightarrow> Panic))
      | Lc_head key \<Rightarrow>
          (case head_turn gauss cl env r latency w k key wd of
             Ok (k1, wd1) \<Rightarrow> Ok (w, k1, wd1) | Err e \<Rightarrow> Err e | Panic \<Rightarrow> Panic)
      | Lc_range key off rs \<Rightarrow> after_call w idle (range_turn cl env r latency w key off rs wd)
      | Lc_list d \<Rightarrow> after_call w idle (list_manifest cl env r latency w d wd)
      | Lc_write key n \<Rightarrow> after_call w idle (write_turn entropy cl env r latency w key n wd))"

definition lc_start ::
  "(int \<Rightarrow> rng) \<Rightarrow> env \<Rightarrow> lancedb \<Rightarrow> 's world \<Rightarrow> (lancedb, lc_worker, 's) crew res" where
  "lc_start source env w wd =
     (if en_threads env \<le> 0
      then Err (Plain_error (''lancedb '' @ lc_name w @ '': threads must be >0''))
      else case new_lognormal (lc_range_mean w) (lc_range_sigma w) (lc_range_min w) (lc_range_max w) (sconst 0) of
             Err e \<Rightarrow> Err e
           | Panic \<Rightarrow> Panic
           | Ok l \<Rightarrow>
               (let ids = [0..<nat (en_threads env)] in
                case shard_all env ids wd of
                  Ok wd1 \<Rightarrow> Ok \<lparr>cw_wl = w, cw_world = wd1,
                    cw_workers = map (\<lambda>i. \<lparr>lw_pc = Lc_loop, lw_rng = worker_rand source (Some env) (int i),
                      lw_sampler = lognormal_for_worker source (int i) l\<rparr>) ids\<rparr>
                | Err e \<Rightarrow> Err e
                | Panic \<Rightarrow> Panic))"

definition lc_cleanup :: "'s client \<Rightarrow> lancedb \<Rightarrow> 's world \<Rightarrow> unit res \<times> 's world" where
  "lc_cleanup cl w wd =
     (case delete_keys cl (map (\<lambda>i. data_key w (int i)) [0..<nat (lc_fragment_count w)]) (wd_store wd) of
        (Ok _, s1) \<Rightarrow>
          (let total = wrap64 (lc_manifest_count w + lc_written w) in
           case delete_keys cl (map (\<lambda>i. manifest_key w (int i)) [0..<nat total]) s1 of
             (out, s2) \<Rightarrow> (out, wd\<lparr>wd_store := s2\<rparr>))
      | (Err e, s1) \<Rightarrow> (Err e, wd\<lparr>wd_store := s1\<rparr>)
      | (Panic, s1) \<Rightarrow> (Panic, wd\<lparr>wd_store := s1\<rparr>))"


subsection \<open>Ranges and sizes\<close>

lemma plan_range_ok:
  assumes "0 \<le> sz" "sz < 2 ^ 63 - 1" "0 \<le> lg_min l" "lg_min l \<le> lg_max l"
  obtains off rs l' r' where "plan_range gauss sz l r = Ok (off, rs, l', r')" "0 \<le> off" "off + rs \<le> sz"
    "min sz (lg_min l) \<le> rs" "lg_max l \<noteq> 0 \<longrightarrow> rs \<le> lg_max l" "lg_min l' = lg_min l" "lg_max l' = lg_max l"
proof -
  obtain n l1 where n: "lognormal_sample gauss l = (n, l1)" by fastforce
  have l1: "lg_min l1 = lg_min l" "lg_max l1 = lg_max l" "lg_min l \<le> n" "lg_max l \<noteq> 0 \<longrightarrow> n \<le> lg_max l"
    using lognormal_sample_bounds_keep [of gauss l] lognormal_sample_bounds [OF assms(4), of gauss] assms(3) n
    by simp_all
  define rs where "rs = (if n > sz then sz else n)"
  have rs: "0 \<le> rs" "rs \<le> sz" "min sz (lg_min l) \<le> rs" "lg_max l \<noteq> 0 \<longrightarrow> rs \<le> lg_max l"
    using assms l1 by (auto simp: rs_def)
  have wrap: "wrap64 (sz - rs) = sz - rs" "wrap64 (sz - rs + 1) = sz - rs + 1"
    using rs assms by (auto simp: in_int64_iff)
  show thesis
  proof (cases "0 < sz - rs")
    case True
    let ?off = "shd r mod (sz - rs + 1)"
    have off: "0 \<le> ?off" "?off < sz - rs + 1" using True by (intro pos_mod_sign pos_mod_bound; linarith)+
    have "plan_range gauss sz l r = Ok (?off, rs, l1, stl r)"
      using True n by (simp add: plan_range_def rs_def [symmetric] wrap int63n_def)
    then show thesis by (rule that) (use off rs l1 in simp_all)
  next
    case False
    then have "plan_range gauss sz l r = Ok (0, rs, l1, r)"
      using n by (simp add: plan_range_def rs_def [symmetric] wrap)
    then show thesis by (rule that) (use False rs l1 in simp_all)
  qed
qed

text \<open>C30. A ranged read stays inside its object: whatever the draws, for the worker clones of an
  accepted sampler and any object size below the largest one, the chosen offset and length are
  non-negative, end at or before the end of the object, and ask for no more than \<open>range_max\<close> and no
  less than \<open>range_min\<close> where the object has that many bytes.\<close>

theorem range_in_bounds:
  assumes "new_lognormal mean sigma mn mx r0 = Ok l" and "0 \<le> sz" and "sz < 2 ^ 63 - 1"
  shows "\<exists>off rs l' r'. plan_range gauss sz (lognormal_for_worker source i l) r = Ok (off, rs, l', r') \<and>
    0 \<le> off \<and> 0 \<le> rs \<and> off + rs \<le> sz \<and> min sz mn \<le> rs \<and> (mx \<noteq> 0 \<longrightarrow> rs \<le> mx)"
proof -
  note new = new_lognormal_Ok [OF assms(1)]
  have l: "lg_min (lognormal_for_worker source i l) = mn" "lg_max (lognormal_for_worker source i l) = mx"
    using new by (simp_all add: lognormal_for_worker_def)
  obtain off rs l' r' where "plan_range gauss sz (lognormal_for_worker source i l) r = Ok (off, rs, l', r')"
    "0 \<le> off" "off + rs \<le> sz" "min sz mn \<le> rs" "mx \<noteq> 0 \<longrightarrow> rs \<le> mx"
    using plan_range_ok [OF assms(2,3), of "lognormal_for_worker source i l" gauss r] new(3,4) unfolding l by metis
  moreover from this have "0 \<le> rs" using assms(2) new(3) by linarith
  ultimately show ?thesis by blast
qed

theorem range_in_bounds_witness:
  "\<exists>l off rs l' r'. new_lognormal 4096 1 512 8192 (sconst 0) = Ok l \<and>
     plan_range (\<lambda>_. 9) 600 (lognormal_for_worker sconst 1 l) (sconst 1) = Ok (off, rs, l', r') \<and> off + rs \<le> 600"
proof -
  obtain l where l: "new_lognormal 4096 1 512 8192 (sconst 0) = Ok l" by (simp add: new_lognormal_def)
  then show ?thesis using range_in_bounds [OF l, of 600 "\<lambda>_. 9" sconst 1 "sconst 1"] by auto
qed

text \<open>Manifest bounds with which no draw can go wrong.\<close>

definition lc_valid :: "lancedb \<Rightarrow> bool" where
  "lc_valid w \<longleftrightarrow> 0 \<le> lc_manifest_min w \<and> lc_manifest_max w < 2 ^ 63 - 1 \<and> lc_manifest_min w < 2 ^ 63"

lemma manifest_size_ok:
  assumes "lc_valid w"
  shows "\<exists>n r'. manifest_size w (Some r) = (Ok n, Some r') \<and> 0 \<le> n"
proof (cases "lc_manifest_max w > lc_manifest_min w")
  case True
  have valid: "0 \<le> lc_manifest_min w" "lc_manifest_max w < 2 ^ 63 - 1" using assms by (simp_all add: lc_valid_def)
  define d where "d = lc_manifest_max w - lc_manifest_min w + 1"
  have d: "wrap64 d = d" "0 < d" using True valid by (auto simp: in_int64_iff d_def)
  have r: "0 \<le> shd r mod d" "shd r mod d < d" using d by simp_all
  then have "wrap64 (lc_manifest_min w + shd r mod d) = lc_manifest_min w + shd r mod d"
    using valid by (intro wrap64_id) (simp add: in_int64_iff d_def)
  then have "manifest_size w (Some r) = (Ok (lc_manifest_min w + shd r mod d), Some (stl r))"
    using True d by (simp add: manifest_size_def int63n_def d_def [symmetric])
  then show ?thesis using r valid by simp
next
  case False
  then show ?thesis using assms by (simp add: manifest_size_def lc_valid_def)
qed

lemma manifest_size_nonneg:
  assumes "lc_valid w" "manifest_size w ro = (Ok n, ro')"
  shows "0 \<le> n"
proof (cases ro)
  case None
  then show ?thesis using assms by (auto simp: manifest_size_def lc_valid_def split: if_splits)
next
  case (Some r)
  then show ?thesis using manifest_size_ok [OF assms(1), of r] assms(2) by auto
qed

subsection \<open>Prepopulation on a store that works\<close>

context reliable_store
begin

lemma upload_fragments_ok:
  assumes "calm s" "0 \<le> lc_fragment_size w"
  shows "\<exists>s'. upload_fragments entropy cl w is s = (Ok (), int (length is), s') \<and> calm s' \<and>
    (\<forall>x. x \<notin> addr ` data_key w ` int ` set is \<longrightarrow> view s' x = view s x) \<and>
    (\<forall>i \<in> set is. view s' (addr (data_key w (int i))) = Some (body entropy (lc_fragment_size w)))"
  using assms
proof (induction "is" arbitrary: s)
  case (Cons i "is")
  let ?k = "data_key w (int i)" and ?b = "body entropy (lc_fragment_size w)"
  obtain s1 where up: "cl_multipart cl ?k ?b (lc_fragment_size w) s = (Ok (), s1)"
    using multipart_ok [OF Cons.prems(1)] by (metis prod.collapse)
  have s1: "calm s1" "view s1 = (view s)(addr ?k \<mapsto> ?b)"
    using multipart_calm [OF Cons.prems(1), of ?k ?b "lc_fragment_size w"]
      multipart_view [OF Cons.prems(1), of ?k ?b "lc_fragment_size w"] up by simp_all
  obtain s' where IH: "upload_fragments entropy cl w is s1 = (Ok (), int (length is), s')" "calm s'"
    "\<forall>x. x \<notin> addr ` data_key w ` int ` set is \<longrightarrow> view s' x = view s1 x"
    "\<forall>i \<in> set is. view s' (addr (data_key w (int i))) = Some ?b"
    using Cons.IH [OF s1(1) Cons.prems(2)] by blast
  have "view s' (addr ?k) = Some ?b"
  proof (cases "addr ?k \<in> addr ` data_key w ` int ` set is")
    case True
    then obtain j where "j \<in> set is" "addr ?k = addr (data_key w (int j))" by blast
    then show ?thesis using IH(4) by metis
  qed (use IH(3) s1(2) in simp)
  then show ?case using up IH s1(2) by (intro exI [of _ s']) simp
qed simp

lemma upload_manifests_ok:
  assumes "upload_manifests entropy cl w is ro s = (Ok (), c, ro', s')" "calm s" "lc_valid w"
  shows "c = int (length is) \<and> calm s' \<and>
    (\<forall>x. x \<notin> addr ` manifest_key w ` int ` set is \<longrightarrow> view s' x = view s x)"
  using assms(1,2)
proof (induction "is" arbitrary: ro s c)
  case (Cons i "is")
  let ?k = "manifest_key w (int i)"
  obtain n ro1 where n: "manifest_size w ro = (Ok n, ro1)"
    using Cons.prems(1) by (cases "manifest_size w ro"; cases "fst (manifest_size w ro)") auto
  have len: "n = int (length (body entropy n))" using manifest_size_nonneg [OF assms(3) n] by simp
  obtain s1 where put: "cl_put cl ?k (body entropy n) n s = (Ok (), s1)"
    using put_ok [OF Cons.prems(2) len] by (metis prod.collapse)
  have s1: "calm s1" "view s1 = (view s)(addr ?k \<mapsto> body entropy n)"
    using put_calm [OF Cons.prems(2), of ?k "body entropy n" n] put_view [OF Cons.prems(2) len, of ?k] put by simp_all
  obtain c' where rest: "upload_manifests entropy cl w is ro1 s1 = (Ok (), c', ro', s')" "c = c' + 1"
    using Cons.prems(1) n put by (auto split: prod.splits)
  show ?case using Cons.IH [OF rest(1) s1(1)] rest(2) s1(2) by simp
qed simp

lemma lc_prepopulate_ok:
  assumes "calm (wd_store wd)" "lc_valid w" "0 \<le> lc_fragment_size w" "0 < lc_fragments w" "0 < lc_manifests w"
    and pre: "lc_prepopulate entropy cl env w wd = (Ok (), w', env', wd')"
  shows "w' = w\<lparr>lc_fragment_count := lc_fragments w, lc_manifest_count := lc_manifests w\<rparr> \<and>
    calm (wd_store wd') \<and> wd_calls wd' = wd_calls wd \<and>
    ((\<forall>i j. 0 \<le> i \<longrightarrow> 0 \<le> j \<longrightarrow> addr (data_key w i) \<noteq> addr (manifest_key w j)) \<longrightarrow>
      (\<forall>i. 0 \<le> i \<and> i < lc_fragments w \<longrightarrow>
      view (wd_store wd') (addr (data_key w i)) = Some (body entropy (lc_fragment_size w)))) \<and>
    (\<forall>x. view (wd_store wd') x \<noteq> view (wd_store wd) x \<longrightarrow>
      (\<exists>i. 0 \<le> i \<and> i < lc_fragments w \<and> x = addr (data_key w i)) \<or>
      (\<exists>j. 0 \<le> j \<and> j < lc_manifests w \<and> x = addr (manifest_key w j)))"
proof -
  let ?f = "[0..<nat (lc_fragments w)]" and ?m = "[0..<nat (lc_manifests w)]"
  obtain s1 where s1: "upload_fragments entropy cl w ?f (wd_store wd) = (Ok (), int (length ?f), s1)" "calm s1"
    "\<forall>x. x \<notin> addr ` data_key w ` int ` set ?f \<longrightarrow> view s1 x = view (wd_store wd) x"
    "\<forall>i \<in> set ?f. view s1 (addr (data_key w (int i))) = Some (body entropy (lc_fragment_size w))"
    using upload_fragments_ok [OF assms(1,3), of entropy ?f] by blast
  let ?w1 = "w\<lparr>lc_fragment_count := lc_fragments w\<rparr>"
  obtain out c ro s2 where up: "upload_manifests entropy cl ?w1 ?m (en_rand env) s1 = (out, c, ro, s2)"
    by (metis prod_cases4)
  have out: "out = Ok ()" "w' = (if c = 0 then ?w1 else ?w1\<lparr>lc_manifest_count := c\<rparr>)" "wd' = wd\<lparr>wd_store := s2\<rparr>"
    using pre s1(1) up assms(4) by (auto simp: lc_prepopulate_def Let_def)
  have "lc_valid ?w1" using assms(2) by (simp add: lc_valid_def)
  moreover have key: "manifest_key ?w1 = manifest_key w" by (simp add: fun_eq_iff manifest_key_def)
  ultimately have m: "c = int (length ?m)" "calm s2"
    "\<forall>x. x \<notin> addr ` manifest_key w ` int ` set ?m \<longrightarrow> view s2 x = view s1 x"
    using upload_manifests_ok [OF up [unfolded out(1)] s1(2)] by simp_all
  have data: "view s2 (addr (data_key w i)) = Some (body entropy (lc_fragment_size w))"
    if disj: "\<forall>i j. 0 \<le> i \<longrightarrow> 0 \<le> j \<longrightarrow> addr (data_key w i) \<noteq> addr (manifest_key w j)"
      and i: "0 \<le> i" "i < lc_fragments w" for i
  proof -
    have "addr (data_key w i) \<notin> addr ` manifest_key w ` int ` set ?m"
    proof
      assume "addr (data_key w i) \<in> addr ` manifest_key w ` int ` set ?m"
      then obtain j where "addr (data_key w i) = addr (manifest_key w (int j))" by blast
      then show False using disj i(1) by simp
    qed
    then have "view s2 (addr (data_key w i)) = view s1 (addr (data_key w (int (nat i))))" using m(3) i(1) by simp
    also have "nat i \<in> set ?f" using i by simp
    then have "view s1 (addr (data_key w (int (nat i)))) = Some (body entropy (lc_fragment_size w))" using s1(4) by blast
    finally show ?thesis .
  qed
  have frame: "(\<exists>i. 0 \<le> i \<and> i < lc_fragments w \<and> x = addr (data_key w i)) \<or>
      (\<exists>j. 0 \<le> j \<and> j < lc_manifests w \<and> x = addr (manifest_key w j))"
    if "view s2 x \<noteq> view (wd_store wd) x" for x
  proof -
    have "x \<in> addr ` manifest_key w ` int ` set ?m \<or> x \<in> addr ` data_key w ` int ` set ?f"
      using that spec [OF m(3), of x] spec [OF s1(3), of x] by (cases "view s2 x = view s1 x") simp_all
    then consider "x \<in> addr ` manifest_key w ` int ` set ?m" | "x \<in> addr ` data_key w ` int ` set ?f" by blast
    then show ?thesis
    proof cases
      case 1
      then obtain j where "j < nat (lc_manifests w)" "x = addr (manifest_key w (int j))" by auto
      then show ?thesis by (intro disjI2 exI [of _ "int j"]) auto
    next
      case 2
      then obtain i where "i < nat (lc_fragments w)" "x = addr (data_key w (int i))" by auto
      then show ?thesis by (intro disjI1 exI [of _ "int i"]) auto
    qed
  qed
  have "w' = w\<lparr>lc_fragment_count := lc_fragments w, lc_manifest_count := lc_manifests w\<rparr>"
    using out(2) m(1) assms(5) by simp
  then show ?thesis using out(3) m(2) data frame by simp
qed

end


subsection \<open>A run on a store that works\<close>

definition lc_worker_ok :: "lancedb \<Rightarrow> int \<Rightarrow> lc_worker \<Rightarrow> bool" where
  "lc_worker_ok w n k \<longleftrightarrow>
     0 < lg_min (lw_sampler k) \<and> lg_min (lw_sampler k) \<le> lg_max (lw_sampler k) \<and>
     (case lw_pc k of
        Lc_head key \<Rightarrow> (\<exists>i. 0 \<le> i \<and> i < lc_fragment_count w \<and> key = data_key w i)
      | Lc_range key off rs \<Rightarrow>
          (\<exists>i. 0 \<le> i \<and> i < lc_fragment_count w \<and> key = data_key w i) \<and>
          0 \<le> off \<and> 0 < rs \<and> off + rs \<le> lc_fragment_size w
      | Lc_write key sz \<Rightarrow>
          0 \<le> sz \<and> (\<exists>j. lc_manifest_count w \<le> j \<and> j < lc_manifest_count w + n \<and> key = manifest_key w j)
      | _ \<Rightarrow> True)"

lemma lc_worker_ok_mono: "lc_worker_ok w n k \<Longrightarrow> n \<le> n' \<Longrightarrow> lc_worker_ok w n' k"
  by (auto simp: lc_worker_ok_def split: lc_pc.splits)

lemma lc_worker_ok_loop: "lc_worker_ok w n k \<Longrightarrow> lc_worker_ok w n (k\<lparr>lw_pc := Lc_loop\<rparr>)"
  by (simp add: lc_worker_ok_def)

lemma lc_worker_ok_rng: "lc_worker_ok w n k \<Longrightarrow> lc_worker_ok w n (k\<lparr>lw_rng := r\<rparr>)"
  by (simp add: lc_worker_ok_def)

lemma lc_keys_written [simp]:
  "data_key (w\<lparr>lc_written := n\<rparr>) i = data_key w i" "manifest_key (w\<lparr>lc_written := n\<rparr>) i = manifest_key w i"
  by (simp_all add: data_key_def manifest_key_def)

text \<open>The calls that read data or write manifests, none of which may fail.\<close>

definition lc_hit :: "event \<Rightarrow> bool" where
  "lc_hit e \<longleftrightarrow> (ev_op e = OpList \<or> ev_err e = None)"

definition lc_inv ::
  "('s \<Rightarrow> string \<Rightarrow> bytes option) \<Rightarrow> (string \<Rightarrow> string) \<Rightarrow> ('s \<Rightarrow> bool) \<Rightarrow> lancedb
     \<Rightarrow> (string \<Rightarrow> bytes option) \<Rightarrow> event list \<Rightarrow> nat \<Rightarrow> lancedb \<Rightarrow> lc_worker list \<Rightarrow> 's world \<Rightarrow> bool" where
  "lc_inv view addr calm w1 v es0 m w ks wd \<longleftrightarrow>
     w = w1\<lparr>lc_written := lc_written w\<rparr> \<and> 0 \<le> lc_written w \<and> lc_written w \<le> int m \<and>
     calm (wd_store wd) \<and> (\<forall>k \<in> set ks. lc_worker_ok w1 (lc_written w) k) \<and>
     (\<forall>i. 0 \<le> i \<and> i < lc_fragment_count w1 \<longrightarrow> view (wd_store wd) (addr (data_key w1 i)) = v (addr (data_key w1 i))) \<and>
     (\<forall>x. view (wd_store wd) x \<noteq> v x \<longrightarrow>
       (\<exists>j. lc_manifest_count w1 \<le> j \<and> j < lc_manifest_count w1 + lc_written w \<and> x = addr (manifest_key w1 j))) \<and>
     (\<exists>es. recorded (wd_calls wd) = es0 @ es \<and> (\<forall>e \<in> set es. lc_hit e))"

text \<open>What a call must satisfy to keep the invariant.\<close>

lemma lc_inv_call:
  assumes inv: "lc_inv view addr calm w1 v es0 m w ks wd" and rec: "en_recorder env = Rec_collector"
    and call: "fst call \<noteq> Panic" "calm (snd call)" and k: "lc_worker_ok w1 (lc_written w) k"
    and hit: "op = OpList \<or> res_error (fst call) = None"
    and frame: "\<And>x. view (snd call) x \<noteq> view (wd_store wd) x \<Longrightarrow>
      \<exists>j. lc_manifest_count w1 \<le> j \<and> j < lc_manifest_count w1 + lc_written w \<and> x = addr (manifest_key w1 j)"
    and disj: "\<And>i j. 0 \<le> i \<Longrightarrow> 0 \<le> j \<Longrightarrow> addr (data_key w1 i) \<noteq> addr (manifest_key w1 j)" "0 \<le> lc_manifest_count w1"
  shows "\<exists>wd'. record_call env r name op latency n call wd = Ok wd' \<and>
    lc_inv view addr calm w1 v es0 (Suc m) w (ks[i := k]) wd'"
proof -
  obtain wd' where wd': "record_call env r name op latency n call wd = Ok wd'"
    using record_call_Ok [of call env r name op latency n wd] call(1) rec by auto
  have store: "wd_store wd' = snd call" by (rule record_call_store [OF wd'])
  have D: "\<forall>i. 0 \<le> i \<and> i < lc_fragment_count w1 \<longrightarrow> view (wd_store wd) (addr (data_key w1 i)) = v (addr (data_key w1 i))"
    "\<forall>x. view (wd_store wd) x \<noteq> v x \<longrightarrow>
       (\<exists>j. lc_manifest_count w1 \<le> j \<and> j < lc_manifest_count w1 + lc_written w \<and> x = addr (manifest_key w1 j))"
    "\<forall>k \<in> set ks. lc_worker_ok w1 (lc_written w) k"
    using inv unfolding lc_inv_def by blast+
  have data: "view (snd call) (addr (data_key w1 i)) = v (addr (data_key w1 i))"
    if "0 \<le> i" "i < lc_fragment_count w1" for i
  proof (rule ccontr)
    assume "view (snd call) (addr (data_key w1 i)) \<noteq> v (addr (data_key w1 i))"
    then have "view (snd call) (addr (data_key w1 i)) \<noteq> view (wd_store wd) (addr (data_key w1 i))"
      using D(1) that by simp
    from frame [OF this] obtain j where "lc_manifest_count w1 \<le> j" "addr (data_key w1 i) = addr (manifest_key w1 j)"
      by blast
    then show False using disj(1) [OF that(1), of j] disj(2) by simp
  qed
  have change: "\<exists>j. lc_manifest_count w1 \<le> j \<and> j < lc_manifest_count w1 + lc_written w \<and> x = addr (manifest_key w1 j)"
    if "view (snd call) x \<noteq> v x" for x
    using frame [of x] spec [OF D(2), of x] that by (cases "view (snd call) x = view (wd_store wd) x") simp_all
  have workers: "\<forall>k' \<in> set (ks[i := k]). lc_worker_ok w1 (lc_written w) k'"
    using D(3) k set_update_subset_insert [of ks i k] by auto
  obtain es where es: "recorded (wd_calls wd) = es0 @ es" "\<forall>e \<in> set es. lc_hit e"
    using inv unfolding lc_inv_def by blast
  let ?e = "client_event name op latency n (res_error (fst call))"
  have "recorded (wd_calls wd') = es0 @ (es @ [?e])"
    unfolding record_call_calls [OF wd' rec] by (simp add: recorded_append es(1))
  moreover have "lc_hit ?e" using hit by (auto simp: lc_hit_def client_event_def)
  ultimately have events: "\<exists>es. recorded (wd_calls wd') = es0 @ es \<and> (\<forall>e \<in> set es. lc_hit e)"
    using es(2) by (intro exI [of _ "es @ [?e]"]) auto
  have "lc_inv view addr calm w1 v es0 (Suc m) w (ks[i := k]) wd'"
    unfolding lc_inv_def store
    using inv call(2) data change workers events unfolding lc_inv_def by simp
  with wd' show ?thesis by blast
qed

text \<open>The loop head: a draw leads back to the loop, to a fragment, to a listing or to a claimed number.\<close>

lemma lc_loop_ok:
  assumes w: "w = w1\<lparr>lc_written := lc_written w\<rparr>" "0 \<le> lc_written w" "lc_written w + 1 < 2 ^ 63"
    "0 \<le> lc_manifest_count w1" "lc_manifest_count w1 + lc_written w < 2 ^ 63" "0 \<le> lc_fragment_count w1" "lc_valid w1"
    and k: "lc_worker_ok w1 (lc_written w) k" "lw_pc k = Lc_loop"
  obtains n k' where "lc_act entropy gauss cl env i latency w k wd = Ok (w\<lparr>lc_written := n\<rparr>, k', wd)"
    "lc_written w \<le> n" "n \<le> lc_written w + 1" "lc_worker_ok w1 n k'"
proof -
  obtain f r1 where f: "float64 (lw_rng k) = (f, r1)" by fastforce
  let ?k1 = "k\<lparr>lw_rng := r1\<rparr>"
  have k1: "lc_worker_ok w1 (lc_written w) ?k1" by (rule lc_worker_ok_rng [OF k(1)])
  have same: "w\<lparr>lc_written := lc_written w\<rparr> = w" by simp
  have keys: "data_key w i = data_key w1 i" "manifest_key w i = manifest_key w1 i"
    "lc_fragment_count w = lc_fragment_count w1" "lc_manifest_count w = lc_manifest_count w1" "lc_valid w = lc_valid w1" for i
    by (subst w(1), simp add: lc_valid_def)+
  show thesis
  proof (cases "f < lc_read_ratio w")
    case True
    obtain kind r2 where kind: "int63n 3 r1 = (Ok kind, r2)" by (simp add: int63n_def)
    have "\<exists>k'. do_read w ?k1 = Ok k' \<and> lc_worker_ok w1 (lc_written w) k'"
    proof (cases "kind = 0 \<and> lc_fragment_count w1 \<noteq> 0")
      case frag: True
      then obtain j r3 where j: "int63n (lc_fragment_count w1) r2 = (Ok j, r3)" using w(6) by (simp add: int63n_def)
      have "0 \<le> j \<and> j < lc_fragment_count w1" by (rule int63n_range [OF j])
      then show ?thesis using frag kind j k1 by (auto simp: do_read_def keys lc_worker_ok_def)
    next
      case False
      then show ?thesis using kind k1 k(2) by (auto simp: do_read_def keys lc_worker_ok_def)
    qed
    then obtain k' where "do_read w ?k1 = Ok k'" "lc_worker_ok w1 (lc_written w) k'" by blast
    then show thesis
      using True f k(2) by (intro that [of "lc_written w" k']) (simp_all add: lc_act_def Let_def)
  next
    case False
    obtain sz r2 where sz: "manifest_size w (Some r1) = (Ok sz, Some r2)" "0 \<le> sz"
      using manifest_size_ok [of w r1] w(7) keys(5) by auto
    have wrap: "wrap64 (lc_written w + 1) = lc_written w + 1" "wrap64 (lc_written w) = lc_written w"
      "wrap64 (lc_manifest_count w1 + lc_written w) = lc_manifest_count w1 + lc_written w"
      using w by (auto simp: in_int64_iff)
    let ?k' = "?k1\<lparr>lw_pc := Lc_write (manifest_key w1 (lc_manifest_count w1 + lc_written w)) sz, lw_rng := r2\<rparr>"
    have "do_write w ?k1 = Ok (w\<lparr>lc_written := lc_written w + 1\<rparr>, ?k')"
      using sz(1) by (simp add: do_write_def keys wrap Let_def)
    moreover have "lc_worker_ok w1 (lc_written w + 1) ?k'"
      unfolding lc_worker_ok_def
      using k1 sz(2) w(2) by (auto simp: lc_worker_ok_def intro!: exI [of _ "lc_manifest_count w1 + lc_written w"])
    ultimately show thesis
      using False f k(2) by (intro that [of "lc_written w + 1" ?k']) (simp_all add: lc_act_def Let_def)
  qed
qed


context reliable_store
begin

lemma lc_act_inv:
  assumes inv: "lc_inv view addr calm w1 v es0 m w ks wd" and rec: "en_recorder env = Rec_collector"
    and i: "i < length ks"
    and w1: "0 \<le> lc_manifest_count w1" "lc_manifest_count w1 + int m + 1 < 2 ^ 63" "0 \<le> lc_fragment_count w1"
      "lc_valid w1" "0 < lc_fragment_size w1" "lc_fragment_size w1 < 2 ^ 63 - 1"
    and disj: "\<And>i j. 0 \<le> i \<Longrightarrow> 0 \<le> j \<Longrightarrow> addr (data_key w1 i) \<noteq> addr (manifest_key w1 j)"
    and data: "\<And>i. 0 \<le> i \<Longrightarrow> i < lc_fragment_count w1 \<Longrightarrow>
      \<exists>b. v (addr (data_key w1 i)) = Some b \<and> int (length b) = lc_fragment_size w1"
  shows "\<exists>w' k wd'. lc_act entropy gauss cl env i latency w (ks ! i) wd = Ok (w', k, wd') \<and>
    lc_inv view addr calm w1 v es0 (Suc m) w' (ks[i := k]) wd'"
proof -
  have D: "w = w1\<lparr>lc_written := lc_written w\<rparr>" "0 \<le> lc_written w" "lc_written w \<le> int m" "calm (wd_store wd)"
    "\<forall>k \<in> set ks. lc_worker_ok w1 (lc_written w) k"
    "\<forall>i. 0 \<le> i \<and> i < lc_fragment_count w1 \<longrightarrow> view (wd_store wd) (addr (data_key w1 i)) = v (addr (data_key w1 i))"
    using inv unfolding lc_inv_def by blast+
  let ?k = "ks ! i" and ?r = "Some (int i)"
  have k: "lc_worker_ok w1 (lc_written w) ?k" using D(5) i by simp
  have stored: "\<exists>b. view (wd_store wd) (addr (data_key w1 j)) = Some b \<and> int (length b) = lc_fragment_size w1"
    if "0 \<le> j" "j < lc_fragment_count w1" for j
    using data [OF that] D(6) that by simp
  note call = lc_inv_call [OF inv rec _ _ _ _ _ disj w1(1)]
  note idle = lc_worker_ok_loop [OF k]
  show ?thesis
  proof (cases "lw_pc ?k")
    case Lc_loop
    have pre: "lc_written w + 1 < 2 ^ 63" "lc_manifest_count w1 + lc_written w < 2 ^ 63"
      using D(2,3) w1(1,2) by linarith+
    obtain n k' where op: "lc_act entropy gauss cl env i latency w ?k wd = Ok (w\<lparr>lc_written := n\<rparr>, k', wd)"
      "lc_written w \<le> n" "n \<le> lc_written w + 1" "lc_worker_ok w1 n k'"
      by (rule lc_loop_ok [OF D(1,2) pre(1) w1(1) pre(2) w1(3,4) k Lc_loop])
    have "\<forall>j \<in> set (ks[i := k']). lc_worker_ok w1 n j"
      using D(5) op(2,4) lc_worker_ok_mono set_update_subset_insert [of ks i k'] by fastforce
    moreover have "w\<lparr>lc_written := n\<rparr> = w1\<lparr>lc_written := n\<rparr>" by (subst D(1)) simp
    ultimately have "lc_inv view addr calm w1 v es0 (Suc m) (w\<lparr>lc_written := n\<rparr>) (ks[i := k']) wd"
      using inv op(2,3) D(2,3) unfolding lc_inv_def by (simp, meson add_left_mono less_le_trans)
    then show ?thesis using op(1) by blast
  next
    case (Lc_head key)
    let ?call = "cl_head cl key (wd_store wd)"
    obtain j where j: "0 \<le> j" "j < lc_fragment_count w1" "key = data_key w1 j"
      using k Lc_head by (auto simp: lc_worker_ok_def)
    then obtain b where "view (wd_store wd) (addr key) = Some b" "int (length b) = lc_fragment_size w1"
      using stored by blast
    then have size: "fst ?call = Ok (lc_fragment_size w1)" using head_some [OF D(4)] by simp
    have l: "0 < lg_min (lw_sampler ?k)" "lg_min (lw_sampler ?k) \<le> lg_max (lw_sampler ?k)"
      using k by (simp_all add: lc_worker_ok_def)
    have sz: "0 \<le> lc_fragment_size w1" "lc_fragment_size w1 < 2 ^ 63 - 1" "0 \<le> lg_min (lw_sampler ?k)"
      using w1(5,6) l by simp_all
    obtain off rs l' r' where range: "plan_range gauss (lc_fragment_size w1) (lw_sampler ?k) (lw_rng ?k) = Ok (off, rs, l', r')"
      "0 \<le> off" "off + rs \<le> lc_fragment_size w1" "min (lc_fragment_size w1) (lg_min (lw_sampler ?k)) \<le> rs"
      "lg_max (lw_sampler ?k) \<noteq> 0 \<longrightarrow> rs \<le> lg_max (lw_sampler ?k)"
      "lg_min l' = lg_min (lw_sampler ?k)" "lg_max l' = lg_max (lw_sampler ?k)"
      by (rule plan_range_ok [OF sz l(2), where gauss = gauss and r = "lw_rng ?k"])
    let ?k' = "\<lparr>lw_pc = Lc_range key off rs, lw_rng = r', lw_sampler = l'\<rparr>"
    have "lc_worker_ok w1 (lc_written w) ?k'"
      using range l j w1(5) by (auto simp: lc_worker_ok_def)
    then have "\<exists>wd'. record_call env ?r (lc_name w) OpHead latency 0 ?call wd = Ok wd' \<and>
        lc_inv view addr calm w1 v es0 (Suc m) w (ks[i := ?k']) wd'"
      by (intro call) (use size head_calm [OF D(4)] in \<open>simp_all add: head_frame\<close>)
    then obtain wd' where "record_call env ?r (lc_name w) OpHead latency 0 ?call wd = Ok wd'"
      "lc_inv view addr calm w1 v es0 (Suc m) w (ks[i := ?k']) wd'" by blast
    then show ?thesis using Lc_head size range(1)
      by (simp add: lc_act_def head_turn_def Let_def)
  next
    case (Lc_range key off rs)
    let ?call = "cl_range_get cl key off rs (wd_store wd)"
    obtain j where j: "0 \<le> j" "j < lc_fragment_count w1" "key = data_key w1 j" "0 \<le> off" "0 < rs" "off + rs \<le> lc_fragment_size w1"
      using k Lc_range by (auto simp: lc_worker_ok_def)
    then obtain b where b: "view (wd_store wd) (addr key) = Some b" "int (length b) = lc_fragment_size w1"
      using stored by blast
    have "fst ?call = Ok (take (nat rs) (drop (nat off) b))"
      by (rule range_some [OF D(4) b(1)]) (use j b(2) w1(6) in linarith)+
    then have "\<exists>wd'. range_turn cl env ?r latency w key off rs wd = Ok wd' \<and>
        lc_inv view addr calm w1 v es0 (Suc m) w (ks[i := ?k\<lparr>lw_pc := Lc_loop\<rparr>]) wd'"
      unfolding range_turn_def Let_def
      by (intro call) (use idle range_calm [OF D(4)] in \<open>simp_all add: range_frame\<close>)
    then show ?thesis using Lc_range by (auto simp: lc_act_def Let_def)
  next
    case (Lc_list d)
    have "\<exists>wd'. list_manifest cl env ?r latency w d wd = Ok wd' \<and>
        lc_inv view addr calm w1 v es0 (Suc m) w (ks[i := ?k\<lparr>lw_pc := Lc_loop\<rparr>]) wd'"
      unfolding list_manifest_def
      by (intro call) (use idle list_calm [OF D(4)] list_returns [OF D(4)] in \<open>simp_all add: list_frame\<close>)
    then show ?thesis using Lc_list by (auto simp: lc_act_def Let_def)
  next
    case (Lc_write key sz)
    let ?call = "cl_put cl key (body entropy sz) sz (wd_store wd)"
    obtain j where j: "0 \<le> sz" "lc_manifest_count w1 \<le> j" "j < lc_manifest_count w1 + lc_written w" "key = manifest_key w1 j"
      using k Lc_write by (auto simp: lc_worker_ok_def)
    have len: "sz = int (length (body entropy sz))" using j(1) by simp
    have "fst ?call = Ok ()" using put_ok [OF D(4) len] by blast
    moreover have "\<exists>j. lc_manifest_count w1 \<le> j \<and> j < lc_manifest_count w1 + lc_written w \<and> x = addr (manifest_key w1 j)"
      if "view (snd ?call) x \<noteq> view (wd_store wd) x" for x
      using that put_frame [of x key] j by blast
    ultimately have "\<exists>wd'. write_turn entropy cl env ?r latency w key sz wd = Ok wd' \<and>
        lc_inv view addr calm w1 v es0 (Suc m) w (ks[i := ?k\<lparr>lw_pc := Lc_loop\<rparr>]) wd'"
      unfolding write_turn_def
      by (intro call) (use idle put_calm [OF D(4)] in simp_all)
    then show ?thesis using Lc_write by (auto simp: lc_act_def Let_def)
  qed
qed

end

lemma lc_start_ok:
  assumes "lc_start source env w wd = Ok st" "0 < lc_range_min w"
  shows "cw_wl st = w \<and> wd_store (cw_world st) = wd_store wd \<and>
    recorded (wd_calls (cw_world st)) = recorded (wd_calls wd) \<and> (\<forall>k \<in> set (cw_workers st). lc_worker_ok w n k)"
proof -
  obtain l wd1 where l: "new_lognormal (lc_range_mean w) (lc_range_sigma w) (lc_range_min w) (lc_range_max w) (sconst 0) = Ok l"
    and wd1: "shard_all env [0..<nat (en_threads env)] wd = Ok wd1"
    and st: "st = \<lparr>cw_wl = w, cw_world = wd1,
      cw_workers = map (\<lambda>i. \<lparr>lw_pc = Lc_loop, lw_rng = worker_rand source (Some env) (int i),
        lw_sampler = lognormal_for_worker source (int i) l\<rparr>) [0..<nat (en_threads env)]\<rparr>"
    using assms(1) by (auto simp: lc_start_def Let_def split: if_splits res.splits)
  note new = new_lognormal_Ok [OF l]
  show ?thesis using shard_all_store [OF wd1] shard_all_recorded [OF wd1] new assms(2)
    by (auto simp: st lc_worker_ok_def lognormal_for_worker_def)
qed

lemma lc_factory_ok:
  "lc_factory parse_float e = Ok w \<Longrightarrow>
    0 < lc_fragments w \<and> 0 < lc_manifests w \<and> lc_written w = 0"
  by (auto simp: lc_factory_def Let_def split: if_splits)

text \<open>C13. A columnar workload reads only what is there and leaves no trace: on a store that works and
  with non-degenerate sizes, after a successful prepopulation every schedule of its workers runs to
  its end without a panic, every recorded \<open>HEAD\<close>, ranged read and manifest write succeeded, no
  fragment is ever overwritten by a manifest, and \<open>Cleanup\<close> then succeeds and restores the bucket to
  what it was before the prepopulation.\<close>

theorem lc_lifecycle:
  assumes "reliable_store cl view addr calm after" and "calm (wd_store wd0)"
    and "lc_factory parse_float e = Ok w0" and "lc_valid w0" and "0 < lc_range_min w0"
    and "0 < lc_fragment_size w0" and "lc_fragment_size w0 < 2 ^ 63 - 1"
    and "\<And>i j. 0 \<le> i \<Longrightarrow> 0 \<le> j \<Longrightarrow> addr (data_key w0 i) \<noteq> addr (manifest_key w0 j)"
    and "\<And>i. 0 \<le> i \<Longrightarrow> view (wd_store wd0) (addr (data_key w0 i)) = None \<and>
      view (wd_store wd0) (addr (manifest_key w0 i)) = None"
    and "lc_prepopulate entropy cl env0 w0 wd0 = (Ok (), w, env1, wd)"
    and "en_recorder env = Rec_collector" and "lc_start source env w wd = Ok st"
    and "lc_manifests w0 + int (length ls) < 2 ^ 63"
  shows "\<exists>st' es wd'. crew_exec (lc_act entropy gauss cl env) ls st = Ok st' \<and>
    recorded (wd_calls (cw_world st')) = recorded (wd_calls wd0) @ es \<and> (\<forall>e \<in> set es. lc_hit e) \<and>
    lc_cleanup cl (cw_wl st') (cw_world st') = (Ok (), wd') \<and> view (wd_store wd') = view (wd_store wd0)"
proof -
  note fac = lc_factory_ok [OF assms(3)]
  have fac2: "0 < lc_fragments w0" "0 < lc_manifests w0" "0 \<le> lc_fragment_size w0" using fac assms(6) by simp_all
  from reliable_store.lc_prepopulate_ok [OF assms(1,2,4) fac2(3,1,2) assms(10)] assms(8)
  have w: "w = w0\<lparr>lc_fragment_count := lc_fragments w0, lc_manifest_count := lc_manifests w0\<rparr>"
    and wd: "calm (wd_store wd)" "wd_calls wd = wd_calls wd0"
    and data: "\<And>i. 0 \<le> i \<Longrightarrow> i < lc_fragments w0 \<Longrightarrow>
        view (wd_store wd) (addr (data_key w0 i)) = Some (body entropy (lc_fragment_size w0))"
    and frame: "\<And>x. view (wd_store wd) x \<noteq> view (wd_store wd0) x \<Longrightarrow>
      (\<exists>i. 0 \<le> i \<and> i < lc_fragments w0 \<and> x = addr (data_key w0 i)) \<or>
      (\<exists>j. 0 \<le> j \<and> j < lc_manifests w0 \<and> x = addr (manifest_key w0 j))"
    by blast+
  have keys: "data_key w i = data_key w0 i" "manifest_key w i = manifest_key w0 i" for i
    by (simp_all add: w data_key_def manifest_key_def)
  have fields: "lc_fragment_count w = lc_fragments w0" "lc_manifest_count w = lc_manifests w0" "lc_written w = 0"
    "lc_valid w" "lc_fragment_size w = lc_fragment_size w0" "0 < lc_range_min w"
    using assms(4,5) fac by (simp_all add: w lc_valid_def)
  note start = lc_start_ok [OF assms(12) fields(6), of 0]
  let ?I = "lc_inv view addr calm w (view (wd_store wd)) (recorded (wd_calls wd0))"
  have init: "?I 0 (cw_wl st) (cw_workers st) (cw_world st)"
    using start wd fields(3) by (simp add: lc_inv_def)
  have "\<exists>st'. crew_exec (lc_act entropy gauss cl env) ls st = Ok st' \<and>
      ?I (0 + length ls) (cw_wl st') (cw_workers st') (cw_world st')"
  proof (rule crew_exec_ok [where I = ?I, OF init])
    show "?I (Suc m) u ks wd" if "?I m u ks wd" for m u ks wd
      using that unfolding lc_inv_def by auto
    fix m i latency u ks wd' assume H: "?I m u ks wd'" "m < 0 + length ls" "i < length ks"
    have "\<exists>b. view (wd_store wd) (addr (data_key w j)) = Some b \<and> int (length b) = lc_fragment_size w"
      if "0 \<le> j" "j < lc_fragment_count w" for j
      using data [of j] that assms(6) by (simp add: keys fields)
    moreover have "lc_manifest_count w + int m + 1 < 2 ^ 63" using H(2) assms(13) fields(2) by simp
    moreover have "0 \<le> lc_manifest_count w" "0 \<le> lc_fragment_count w" using fac2 by (simp_all add: fields)
    ultimately show "\<exists>w' k wd''. lc_act entropy gauss cl env i latency u (ks ! i) wd' = Ok (w', k, wd'') \<and>
        ?I (Suc m) w' (ks[i := k]) wd''"
      using assms(6,7,8) fields(4)
      by (intro reliable_store.lc_act_inv [OF assms(1) H(1) assms(11) H(3)]) (simp_all add: keys fields(5))
  qed
  then obtain st' where st': "crew_exec (lc_act entropy gauss cl env) ls st = Ok st'"
    "?I (length ls) (cw_wl st') (cw_workers st') (cw_world st')" by auto
  define n where "n = lc_written (cw_wl st')"
  obtain es where D: "cw_wl st' = w\<lparr>lc_written := n\<rparr>" "0 \<le> n" "n \<le> int (length ls)" "calm (wd_store (cw_world st'))"
    "\<And>x. view (wd_store (cw_world st')) x \<noteq> view (wd_store wd) x \<Longrightarrow>
       \<exists>j. lc_manifest_count w \<le> j \<and> j < lc_manifest_count w + n \<and> x = addr (manifest_key w j)"
    "recorded (wd_calls (cw_world st')) = recorded (wd_calls wd0) @ es" "\<forall>e \<in> set es. lc_hit e"
    using st'(2) unfolding lc_inv_def n_def by blast
  define total where "total = lc_manifests w0 + n"
  have total: "wrap64 (lc_manifest_count (cw_wl st') + lc_written (cw_wl st')) = total"
    using D(1-3) fac2(2) assms(13) by (simp add: fields total_def in_int64_iff)
  define A where "A = map (\<lambda>i. data_key w0 (int i)) [0..<nat (lc_fragments w0)]"
  define B where "B = map (\<lambda>i. manifest_key w0 (int i)) [0..<nat total]"
  obtain s1 where s1: "delete_keys cl A (wd_store (cw_world st')) = (Ok (), s1)" "calm s1"
    "view s1 = (\<lambda>x. if x \<in> addr ` set A then None else view (wd_store (cw_world st')) x)"
    using reliable_store.delete_keys_calm [OF assms(1) D(4)] by blast
  obtain s2 where s2: "delete_keys cl B s1 = (Ok (), s2)"
    "view s2 = (\<lambda>x. if x \<in> addr ` set B then None else view s1 x)"
    using reliable_store.delete_keys_calm [OF assms(1) s1(2)] by blast
  have clean: "lc_cleanup cl (cw_wl st') (cw_world st') = (Ok (), (cw_world st')\<lparr>wd_store := s2\<rparr>)"
    unfolding lc_cleanup_def total using s1(1) s2(1) by (simp add: D(1) keys fields A_def B_def)
  have inA: "addr (data_key w0 i) \<in> addr ` set A" if "0 \<le> i" "i < lc_fragments w0" for i
    unfolding A_def set_map using that by (intro imageI image_eqI [of _ _ "nat i"]) auto
  have inB: "addr (manifest_key w0 i) \<in> addr ` set B" if "0 \<le> i" "i < total" for i
    unfolding B_def set_map using that by (intro imageI image_eqI [of _ _ "nat i"]) auto
  have "view s2 x = view (wd_store wd0) x" for x
  proof (cases "x \<in> addr ` set B \<or> x \<in> addr ` set A")
    case True
    then have "view (wd_store wd0) x = None"
      using assms(9) [of "int i" for i] unfolding A_def B_def by auto
    then show ?thesis using True s2(2) s1(3) by auto
  next
    case False
    have "\<nexists>j. lc_manifest_count w \<le> j \<and> j < lc_manifest_count w + n \<and> x = addr (manifest_key w j)"
    proof
      assume "\<exists>j. lc_manifest_count w \<le> j \<and> j < lc_manifest_count w + n \<and> x = addr (manifest_key w j)"
      then obtain j where "lc_manifests w0 \<le> j" "j < total" "x = addr (manifest_key w0 j)"
        by (auto simp: fields keys total_def)
      then show False using inB [of j] False fac2(2) by simp
    qed
    then have "view (wd_store (cw_world st')) x = view (wd_store wd) x" using D(5) [of x] by blast
    also have "\<dots> = view (wd_store wd0) x"
    proof (rule ccontr)
      assume "view (wd_store wd) x \<noteq> view (wd_store wd0) x"
      from frame [OF this] show False
        using inA inB False D(2) by (auto simp: total_def)
    qed
    finally show ?thesis unfolding s2(2) s1(3) using False by simp
  qed
  then have "view (wd_store ((cw_world st')\<lparr>wd_store := s2\<rparr>)) = view (wd_store wd0)" by (simp add: fun_eq_iff)
  with st'(1) D(6,7) clean show ?thesis by blast
qed


definition lc_entry :: workload_entry where
  "lc_entry = \<lparr>we_name = ''l'', we_type = ''lancedb'', we_weight = 1, we_object_size = 0, we_threads = 0,
     we_duration = 0, we_params = [(''fragments'', Y_int 1), (''fragment_size'', Y_int 8), (''manifest_count'', Y_int 1),
       (''manifest_min_size'', Y_int 1), (''manifest_max_size'', Y_int 1),
       (''range_min'', Y_int 1), (''range_max'', Y_int 4)]\<rparr>"

theorem lc_lifecycle_witness:
  "\<exists>w0 w env1 wd st st' wd'. lc_factory (\<lambda>_. None) lc_entry = Ok w0 \<and>
     lc_prepopulate (fill_entropy []) fake_client race_env w0 race_world = (Ok (), w, env1, wd) \<and>
     lc_start race_source race_env w wd = Ok st \<and>
     crew_exec (lc_act (fill_entropy []) of_int fake_client race_env) [(0, 5), (1, 5), (1, 6), (0, 7)] st = Ok st' \<and>
     lc_cleanup fake_client (cw_wl st') (cw_world st') = (Ok (), wd') \<and>
     fake_view (wd_store wd') = fake_view (wd_store race_world)"
proof -
  obtain w0 where w0: "lc_factory (\<lambda>_. None) lc_entry = Ok w0" and f: "lc_fragments w0 = 1" "lc_manifests w0 = 1"
    "lc_fragment_size w0 = 8" "lc_manifest_min w0 = 1" "lc_manifest_max w0 = 1" "lc_range_min w0 = 1" "lc_range_max w0 = 4"
    "lc_data_prefix w0 = ''l/data/frag-''" "lc_manifest_prefix w0 = ''l/_versions/ver-''"
    "lc_range_mean w0 = 65536" "lc_range_sigma w0 = 3 / 2" "lc_fragment_count w0 = 0"
    by (simp add: lc_factory_def lc_entry_def int_param_def size_param_def float_param_def Let_def)
  have is0: "[0..<nat 1] = [0]" by simp
  obtain w env1 wd where pre: "lc_prepopulate (fill_entropy []) fake_client race_env w0 race_world = (Ok (), w, env1, wd)"
    "w = w0\<lparr>lc_fragment_count := 1, lc_manifest_count := 1\<rparr>"
    unfolding lc_prepopulate_def f is0
    by (simp add: f manifest_size_def race_world_def fake_multipart_def fake_put_def fake_new_def check_fail_def Let_def)
  have run: "en_recorder race_env = Rec_collector" "en_threads race_env = 2" by (simp_all add: race_env_def)
  obtain wd1 where "shard_all race_env [0..<nat (en_threads race_env)] wd = Ok wd1"
    using shard_all_ok [of race_env "[0..<nat (en_threads race_env)]" wd] run by auto
  then obtain st where st: "lc_start race_source race_env w wd = Ok st"
    using run(2) f by (simp add: lc_start_def pre(2) new_lognormal_def Let_def)
  have disj: "id (data_key w0 i) \<noteq> id (manifest_key w0 j)" for i j
  proof
    assume "id (data_key w0 i) = id (manifest_key w0 j)"
    then have "take 3 (data_key w0 i) = take 3 (manifest_key w0 j)" by simp
    then show False by (simp add: data_key_def manifest_key_def append_key_padded_def f Let_def)
  qed
  have hyps: "lc_valid w0" "0 < lc_range_min w0" "0 < lc_fragment_size w0" "lc_fragment_size w0 < 2 ^ 63 - 1"
    "lc_manifests w0 + int (length [(0 :: nat, 5 :: int), (1, 5), (1, 6), (0, 7)]) < 2 ^ 63"
    by (simp_all add: lc_valid_def f)
  have fresh: "fake_view (wd_store race_world) (id (data_key w0 i)) = None \<and>
      fake_view (wd_store race_world) (id (manifest_key w0 i)) = None" for i
    by (simp add: race_world_calm)
  from lc_lifecycle [OF fake.reliable_store_axioms race_world_calm(1) w0 hyps(1-4) disj fresh pre(1) run(1) st hyps(5)]
  show ?thesis using w0 pre(1) st by blast
qed

end
