(* ===== verification/Mix.thy ===== *)
theory Mix
  imports Checkpoint Dataloader Metadata Lancedb
begin

section \<open>Mixes and the workloads as one type (\<open>internal/workload/mix/mix.go\<close>)\<close>

text \<open>
  The values behind the \<open>Workload\<close> interface as one datatype, the factory of a mix with its nested
  entries, and the three methods by case: prepopulation, cleanup, and \<open>Run\<close> as a tree of running
  workloads over one shared world in which any runnable worker may move next. What the code draws
  from elsewhere is gathered in a record: the entropy block, the normal variate, the generator a
  seed selects, the two parsers, the texts of errors, and the clock, which maps the number of calls
  recorded so far to the latency of the next upload of a prepopulation.
\<close>

record runtime =
  rt_entropy :: bytes
  rt_gauss :: "int \<Rightarrow> real"
  rt_source :: "int \<Rightarrow> rng"
  rt_parse_float :: "string \<Rightarrow> real option"
  rt_parse_duration :: "string \<Rightarrow> int option"
  rt_error_text :: "go_error \<Rightarrow> string"
  rt_clock :: "nat \<Rightarrow> int"

datatype any_workload =
    W_object obj_kind object_wl
  | W_checkpoint checkpoint
  | W_lancedb lancedb
  | W_dataloader dataloader
  | W_metadata metadata_wl
  | W_mix string "any_workload list" "int list"

fun wl_name :: "any_workload \<Rightarrow> string" where
  "wl_name (W_object kind w) = ow_name w"
| "wl_name (W_checkpoint w) = ck_name w"
| "wl_name (W_lancedb w) = lc_name w"
| "wl_name (W_dataloader w) = dl_name w"
| "wl_name (W_metadata w) = md_name w"
| "wl_name (W_mix name cs ws) = name"

text \<open>The constants \<open>TypeName\<close> of the packages.\<close>

fun object_type_name :: "obj_kind \<Rightarrow> string" where
  "object_type_name Small_object = ''smallobject''"
| "object_type_name Large_object = ''largeobject''"

definition checkpoint_type_name :: string where "checkpoint_type_name = ''checkpointing''"
definition lancedb_type_name :: string where "lancedb_type_name = ''lancedb''"
definition dataloader_type_name :: string where "dataloader_type_name = ''training_data''"
definition metadata_type_name :: string where "metadata_type_name = ''metadata''"
definition mix_type_name :: string where "mix_type_name = ''mix''"

lemmas type_names = checkpoint_type_name_def lancedb_type_name_def dataloader_type_name_def
  metadata_type_name_def mix_type_name_def

fun wl_type :: "any_workload \<Rightarrow> string" where
  "wl_type (W_object kind w) = object_type_name kind"
| "wl_type (W_checkpoint w) = checkpoint_type_name"
| "wl_type (W_lancedb w) = lancedb_type_name"
| "wl_type (W_dataloader w) = dataloader_type_name"
| "wl_type (W_metadata w) = metadata_type_name"
| "wl_type (W_mix name cs ws) = mix_type_name"

subsection \<open>The factory\<close>

text \<open>A nested entry is read straight from the decoded map, not through the plan's own decoders:
  a size given as text, for one, is ignored.\<close>

definition parse_nested :: "params \<Rightarrow> (workload_entry \<times> int) res" where
  "parse_nested m =
     (let name = string_param m ''name'' ''''; typ = string_param m ''type'' '''' in
      if name = '''' \<or> typ = '''' then Err (Plain_error ''nested workload requires name and type'')
      else let weight = int_param m ''weight'' 1;
               ps = (case map_of m ''params'' of Some (Y_map p) \<Rightarrow> p | _ \<Rightarrow> [])
           in Ok (\<lparr>we_name = name, we_type = typ, we_weight = 0,
                   we_object_size = int_param m ''object_size'' 0,
                   we_threads = 0, we_duration = 0, we_params = ps\<rparr>,
                  if weight \<le> 0 then 1 else weight))"

fun build_nested ::
  "(workload_entry \<Rightarrow> any_workload res) \<Rightarrow> string \<Rightarrow> nat \<Rightarrow> yval list \<Rightarrow> (any_workload list \<times> int list) res" where
  "build_nested bld name i [] = Ok ([], [])"
| "build_nested bld name i (Y_map m # items) =
     (case parse_nested m of
        Err e \<Rightarrow> Err (Wrap_error (''mix '' @ name @ '' nested '' @ format_int (int i)) e)
      | Panic \<Rightarrow> Panic
      | Ok (entry, weight) \<Rightarrow>
          (case bld entry of
             Err e \<Rightarrow> Err (Wrap_error (''mix '' @ name @ '': child '' @ we_name entry) e)
           | Panic \<Rightarrow> Panic
           | Ok child \<Rightarrow>
               (case build_nested bld name (Suc i) items of
                  Ok (cs, ws) \<Rightarrow> Ok (child # cs, weight # ws)
                | Err e \<Rightarrow> Err e
                | Panic \<Rightarrow> Panic)))"
| "build_nested bld name i (_ # items) =
     Err (Plain_error (''mix '' @ name @ '': nested '' @ format_int (int i) @ '' must be a map''))"

definition mix_factory :: "(workload_entry \<Rightarrow> any_workload res) \<Rightarrow> any_workload factory" where
  "mix_factory bld w =
     (case map_of (we_params w) ''workloads'' of
        None \<Rightarrow> Err (Plain_error (''mix '' @ we_name w @ '': missing nested workloads''))
      | Some (Y_list items) \<Rightarrow>
          (case build_nested bld (we_name w) 0 items of
             Err e \<Rightarrow> Err e
           | Panic \<Rightarrow> Panic
           | Ok (cs, ws) \<Rightarrow>
               if cs = [] then Err (Plain_error (''mix '' @ we_name w @ '': no nested workloads defined''))
               else Ok (W_mix (we_name w) cs ws))
      | Some _ \<Rightarrow> Err (Plain_error (''mix '' @ we_name w @ '': workloads must be a list'')))"

lemma build_nested_cong:
  assumes "\<And>m e wt. Y_map m \<in> set items \<Longrightarrow> parse_nested m = Ok (e, wt) \<Longrightarrow> b e = b' e"
  shows "build_nested b name i items = build_nested b' name i items"
  using assms
proof (induction items arbitrary: i)
  case (Cons item items)
  have IH: "build_nested b name (Suc i) items = build_nested b' name (Suc i) items"
    by (rule Cons.IH) (use Cons.prems in auto)
  show ?case
  proof (cases item)
    case (Y_map m)
    have "b e = b' e" if "parse_nested m = Ok (e, wt)" for e wt
      using Cons.prems that Y_map by auto
    then show ?thesis using IH Y_map by (auto split: res.split)
  qed simp_all
qed simp

lemma mix_factory_cong [fundef_cong]:
  assumes "w = w'"
    and "\<And>items m e wt. map_of (we_params w') ''workloads'' = Some (Y_list items) \<Longrightarrow>
      Y_map m \<in> set items \<Longrightarrow> parse_nested m = Ok (e, wt) \<Longrightarrow> b e = b' e"
  shows "mix_factory b w = mix_factory b' w'"
proof -
  have "build_nested b (we_name w') 0 items = build_nested b' (we_name w') 0 items"
    if "map_of (we_params w') ''workloads'' = Some (Y_list items)" for items
    by (rule build_nested_cong) (rule assms(2) [OF that])
  then show ?thesis using assms(1) by (simp add: mix_factory_def split: option.split yval.split)
qed

definition map_res :: "('a \<Rightarrow> 'b) \<Rightarrow> 'a res \<Rightarrow> 'b res" where
  "map_res f r = (case r of Ok a \<Rightarrow> Ok (f a) | Err e \<Rightarrow> Err e | Panic \<Rightarrow> Panic)"

lemma map_res_Ok [simp]: "map_res f r = Ok b \<longleftrightarrow> (\<exists>a. r = Ok a \<and> b = f a)"
  by (auto simp: map_res_def split: res.splits)

text \<open>The factories of the leaf packages, as their \<open>Register\<close> functions enter them.\<close>

definition leaf_registry :: "runtime \<Rightarrow> any_workload registry" where
  "leaf_registry rt =
     [(object_type_name Small_object, \<lambda>w. map_res (W_object Small_object) (object_factory Small_object w)),
      (object_type_name Large_object, \<lambda>w. map_res (W_object Large_object) (object_factory Large_object w)),
      (checkpoint_type_name, \<lambda>w. map_res W_checkpoint (checkpoint_factory (rt_parse_duration rt) w)),
      (lancedb_type_name, \<lambda>w. map_res W_lancedb (lc_factory (rt_parse_float rt) w)),
      (dataloader_type_name, \<lambda>w. map_res W_dataloader (dl_factory (rt_parse_float rt) w)),
      (metadata_type_name, \<lambda>w. map_res W_metadata (md_factory w))]"

text \<open>\<open>workload.Build\<close> on the registry of the program: the factory of a mix calls it again for every
  nested entry, which is a smaller document.\<close>

function build_any :: "runtime \<Rightarrow> workload_entry \<Rightarrow> any_workload res" where
  "build_any rt w =
     (if we_type w = mix_type_name then mix_factory (build_any rt) w else build (leaf_registry rt) w)"
  by pat_completeness auto

lemma size_list_member: "x \<in> set xs \<Longrightarrow> f x < size_list f xs"
  by (induction xs) auto

lemma parse_nested_smaller:
  assumes "parse_nested m = Ok (e, wt)" "Y_map m \<in> set items" "map_of ps ''workloads'' = Some (Y_list items)"
  shows "size (Y_map (we_params e)) < size (Y_map ps)"
proof -
  have m: "size (Y_map (we_params e)) \<le> size (Y_map m)"
  proof (cases "\<exists>p. map_of m ''params'' = Some (Y_map p)")
    case True
    then obtain p where p: "map_of m ''params'' = Some (Y_map p)" by blast
    then have "(''params'', Y_map p) \<in> set m" by (rule map_of_SomeD)
    then have "size (Y_map p) \<le> size (Y_map m)"
      using size_list_member [of "(''params'', Y_map p)" m "size_prod (\<lambda>_. 0) size"] by auto
    then show ?thesis using assms(1) p by (auto simp: parse_nested_def Let_def split: if_splits)
  next
    case False
    then have "we_params e = []"
      using assms(1) by (auto simp: parse_nested_def Let_def split: if_splits option.splits yval.splits)
    then show ?thesis by simp
  qed
  have "size (Y_map m) < size (Y_list items)"
    using size_list_member [OF assms(2), of size] by simp
  moreover have "(''workloads'', Y_list items) \<in> set ps" using assms(3) by (rule map_of_SomeD)
  then have "size (Y_list items) < size (Y_map ps)"
    using size_list_member [of "(''workloads'', Y_list items)" ps "size_prod (\<lambda>_. 0) size"] by auto
  ultimately show ?thesis using m by linarith
qed

termination build_any
  by (relation "measure (\<lambda>(_, w). size (Y_map (we_params w)))") (use parse_nested_smaller in auto)

declare build_any.simps [simp del]

lemma build_registry:
  "build (leaf_registry rt @ [(mix_type_name, mix_factory (build_any rt))]) w = build_any rt w"
  by (auto simp: build_any.simps [of rt w] build_def leaf_registry_def type_names)

subsection \<open>Well-formed workloads\<close>

text \<open>What the factories guarantee: positive sizes and counts, key prefixes below the name of the
  workload, and for a mix as many weights as children, each at least one.\<close>

fun wl_wf :: "any_workload \<Rightarrow> bool" where
  "wl_wf (W_object kind w) \<longleftrightarrow> 0 < ow_size w \<and> ow_key_prefix w = ow_name w @ key_suffix kind"
| "wl_wf (W_checkpoint w) \<longleftrightarrow> 0 < ck_size w \<and> ck_key_prefix w = ck_name w @ ''/ckpt-''"
| "wl_wf (W_lancedb w) \<longleftrightarrow> 0 < lc_fragments w \<and> 0 < lc_manifests w \<and>
     lc_data_prefix w = lc_name w @ ''/data/frag-'' \<and> lc_manifest_prefix w = lc_name w @ ''/_versions/ver-''"
| "wl_wf (W_dataloader w) \<longleftrightarrow> 0 < dl_count w \<and> dl_key_prefix w = dl_name w @ ''/obj-'' \<and>
     dl_pattern w \<in> {''sequential'', ''shuffled'', ''zipfian''}"
| "wl_wf (W_metadata w) \<longleftrightarrow> 0 < md_fanout w \<and> 0 < md_depth w \<and> 0 < md_per_prefix w \<and> 0 < md_size w \<and>
     md_copy_prefix w = md_name w @ ''/copy/dst-''"
| "wl_wf (W_mix name cs ws) \<longleftrightarrow> cs \<noteq> [] \<and> length ws = length cs \<and> (\<forall>x \<in> set ws. 1 \<le> x) \<and> (\<forall>c \<in> set cs. wl_wf c)"

lemma leaf_built:
  assumes "build (leaf_registry rt) w = Ok x"
  shows "wl_type x = we_type w \<and> wl_name x = we_name w \<and> wl_wf x"
  using assms
  by (auto simp: build_def leaf_registry_def type_names object_factory_def checkpoint_factory_def lc_factory_def
        dl_factory_def md_factory_def Let_def split: if_splits)

lemma build_nested_wf:
  assumes "build_nested bld name i items = Ok (cs, ws)"
    and "\<And>m e wt c. Y_map m \<in> set items \<Longrightarrow> parse_nested m = Ok (e, wt) \<Longrightarrow> bld e = Ok c \<Longrightarrow> wl_wf c"
  shows "length ws = length cs \<and> (\<forall>x \<in> set ws. 1 \<le> x) \<and> (\<forall>c \<in> set cs. wl_wf c)"
  using assms
proof (induction items arbitrary: i cs ws)
  case (Cons item items)
  obtain m e wt c cs' ws' where item: "item = Y_map m" "parse_nested m = Ok (e, wt)" "bld e = Ok c"
    "build_nested bld name (Suc i) items = Ok (cs', ws')" "cs = c # cs'" "ws = wt # ws'"
    using Cons.prems(1) by (cases item) (auto split: res.splits)
  have "length ws' = length cs' \<and> (\<forall>x \<in> set ws'. 1 \<le> x) \<and> (\<forall>c \<in> set cs'. wl_wf c)"
    by (rule Cons.IH [OF item(4)]) (use Cons.prems(2) in auto)
  moreover have "1 \<le> wt" using item(2) by (auto simp: parse_nested_def Let_def split: if_splits)
  moreover have "wl_wf c" using Cons.prems(2) [OF _ item(2,3)] item(1) by simp
  ultimately show ?case using item by simp
qed simp

lemma build_any_wf:
  assumes "build_any rt w = Ok x"
  shows "wl_type x = we_type w \<and> wl_name x = we_name w \<and> wl_wf x"
  using assms
proof (induction rt w arbitrary: x rule: build_any.induct)
  case (1 rt w)
  show ?case
  proof (cases "we_type w = mix_type_name")
    case True
    then obtain items cs ws where it: "map_of (we_params w) ''workloads'' = Some (Y_list items)"
      "build_nested (build_any rt) (we_name w) 0 items = Ok (cs, ws)" "cs \<noteq> []" "x = W_mix (we_name w) cs ws"
      using "1.prems" by (auto simp: build_any.simps [of rt w] mix_factory_def split: option.splits yval.splits res.splits if_splits)
    have "length ws = length cs \<and> (\<forall>x \<in> set ws. 1 \<le> x) \<and> (\<forall>c \<in> set cs. wl_wf c)"
      by (rule build_nested_wf [OF it(2)]) (use "1.IH" True it(1) in blast)
    then show ?thesis using it True by simp
  next
    case False
    then show ?thesis using "1.prems" leaf_built by (simp add: build_any.simps [of rt w])
  qed
qed

text \<open>A mix of two small-object workloads, the second in a mix of its own.\<close>

definition nested_item :: "string \<Rightarrow> int \<Rightarrow> yval" where
  "nested_item name weight = Y_map [(''name'', Y_string name), (''type'', Y_string ''smallobject''),
     (''weight'', Y_float (of_int weight)), (''object_size'', Y_float 4)]"

definition mix_entry :: workload_entry where
  "mix_entry = \<lparr>we_name = ''m'', we_type = ''mix'', we_weight = 1, we_object_size = 0, we_threads = 0,
     we_duration = 0, we_params = [(''workloads'', Y_list [nested_item ''a'' 3,
       Y_map [(''name'', Y_string ''n''), (''type'', Y_string ''mix''),
         (''params'', Y_map [(''workloads'', Y_list [nested_item ''b'' 0])])]])]\<rparr>"

definition small_sample :: "string \<Rightarrow> object_wl" where
  "small_sample name = \<lparr>ow_name = name, ow_key_prefix = name @ ''/k-'', ow_size = 4, ow_ratio = 1 / 2, ow_written = 0\<rparr>"

definition mix_sample :: any_workload where
  "mix_sample = W_mix ''m'' [W_object Small_object (small_sample ''a''),
     W_mix ''n'' [W_object Small_object (small_sample ''b'')] [1]] [3, 1]"

lemma nested_item_built:
  "in_int64 weight \<Longrightarrow> \<exists>e. parse_nested m = Ok (e, if weight \<le> 0 then 1 else weight) \<and>
     build_any rt e = Ok (W_object Small_object (small_sample name))"
  if "nested_item name weight = Y_map m" "name \<noteq> ''''"
  using that float_to_int64_of_int [of 4]
  by (auto simp: nested_item_def parse_nested_def Let_def string_param_def int_param_def float_to_int64_of_int
      build_any.simps build_def leaf_registry_def type_names object_factory_def map_res_def small_sample_def)

lemma mix_sample_built: "build_any rt mix_entry = Ok mix_sample"
proof -
  obtain a b where ab: "nested_item ''a'' 3 = Y_map a" "nested_item ''b'' 0 = Y_map b"
    by (simp add: nested_item_def)
  obtain ea where ea: "parse_nested a = Ok (ea, 3)" "build_any rt ea = Ok (W_object Small_object (small_sample ''a''))"
    using nested_item_built [OF ab(1), of rt] by auto
  obtain eb where eb: "parse_nested b = Ok (eb, 1)" "build_any rt eb = Ok (W_object Small_object (small_sample ''b''))"
    using nested_item_built [OF ab(2), of rt] by auto
  define inner_map where "inner_map = [(''name'', Y_string ''n''), (''type'', Y_string ''mix''),
    (''params'', Y_map [(''workloads'', Y_list [Y_map b])])]"
  define en where "en = \<lparr>we_name = ''n'', we_type = ''mix'', we_weight = 0, we_object_size = 0,
    we_threads = 0, we_duration = 0, we_params = [(''workloads'', Y_list [Y_map b])]\<rparr>"
  have en: "parse_nested inner_map = Ok (en, 1)"
    by (simp add: parse_nested_def inner_map_def en_def string_param_def int_param_def Let_def)
  have inner: "build_any rt en = Ok (W_mix ''n'' [W_object Small_object (small_sample ''b'')] [1])"
    unfolding build_any.simps [of rt en] by (simp add: en_def mix_type_name_def mix_factory_def eb)
  have entry: "mix_entry = \<lparr>we_name = ''m'', we_type = ''mix'', we_weight = 1, we_object_size = 0, we_threads = 0,
     we_duration = 0, we_params = [(''workloads'', Y_list [Y_map a, Y_map inner_map])]\<rparr>"
    by (simp add: mix_entry_def ab inner_map_def)
  show ?thesis
    unfolding build_any.simps [of rt mix_entry] by (simp add: entry mix_type_name_def mix_factory_def ea en inner mix_sample_def)
qed

subsection \<open>Thread shares\<close>

definition total_weight :: "int list \<Rightarrow> int" where
  "total_weight ws = foldl (\<lambda>a w. wrap64 (a + w)) 0 ws"

definition thread_share :: "int \<Rightarrow> int \<Rightarrow> int \<Rightarrow> int" where
  "thread_share threads tot w =
     (let t = go_div (wrap64 (threads * w)) tot in if t < 1 then 1 else t)"

definition thread_shares :: "int \<Rightarrow> int list \<Rightarrow> int list" where
  "thread_shares threads ws = map (thread_share threads (total_weight ws)) ws"

lemma total_weight_sum:
  assumes "\<forall>w \<in> set ws. 0 \<le> w" "sum_list ws < 2 ^ 63"
  shows "total_weight ws = sum_list ws"
proof -
  have "foldl (\<lambda>a w. wrap64 (a + w)) a ws = a + sum_list ws" if "0 \<le> a" "a + sum_list ws < 2 ^ 63" for a
    using assms(1) that
  proof (induction ws arbitrary: a)
    case (Cons w ws)
    have "0 \<le> sum_list ws" using Cons.prems(1) by (intro sum_list_nonneg) auto
    then have "in_int64 (a + w)" using Cons.prems by (simp add: in_int64_iff)
    then show ?case using Cons.IH [of "a + w"] Cons.prems by simp
  qed simp
  from this [of 0] assms(2) show ?thesis by (simp add: total_weight_def)
qed

text \<open>C29. As long as the product of the threads and the total weight fits an \<open>int\<close>, every child of a
  mix gets \<open>max 1 (threads * weight div total)\<close> threads: at least one, never more than one above
  its exact share and less than one below it. Together the children have more than \<open>threads - n\<close> and
  at most \<open>threads + m\<close> threads, where \<open>m\<close> of the \<open>n\<close> children have an exact share below one.\<close>

theorem thread_shares_bounds:
  assumes "1 \<le> threads" and "ws \<noteq> []" and "\<forall>w \<in> set ws. 1 \<le> w" and "threads * sum_list ws < 2 ^ 63"
  shows "thread_shares threads ws = map (\<lambda>w. max 1 (threads * w div sum_list ws)) ws \<and>
    threads < sum_list (thread_shares threads ws) + int (length ws) \<and>
    sum_list (thread_shares threads ws) \<le> threads + int (length (filter (\<lambda>w. threads * w < sum_list ws) ws))"
proof -
  define T where "T = sum_list ws"
  have mem: "w \<le> T" if "w \<in> set ws" for w
    unfolding T_def using that assms(3) by (intro member_le_sum_list) auto
  have T: "1 \<le> T" using mem assms(2,3) by (cases ws) fastforce+
  have "T \<le> threads * T" using assms(1) T by (simp add: mult_le_cancel_right1)
  then have total: "total_weight ws = T"
    unfolding T_def using assms(3,4) T_def by (intro total_weight_sum) fastforce+
  have shares: "thread_shares threads ws = map (\<lambda>w. max 1 (threads * w div T)) ws"
  proof -
    have "thread_share threads T w = max 1 (threads * w div T)" if "w \<in> set ws" for w
    proof -
      have "1 \<le> w" using assms(3) that by blast
      then have "0 \<le> threads * w" using assms(1) by simp
      moreover have "threads * w \<le> threads * T" using assms(1) mem [OF that] by simp
      ultimately have "in_int64 (threads * w)" using assms(4) T_def by (simp add: in_int64_iff)
      then have "go_div (wrap64 (threads * w)) T = threads * w div T"
        using \<open>0 \<le> threads * w\<close> T by (simp add: go_div_nonneg)
      then show ?thesis by (simp add: thread_share_def Let_def max_def)
    qed
    then show ?thesis by (simp add: thread_shares_def total)
  qed
  have pos: "T * (threads * w div T) \<le> threads * w" "threads * w < T * (threads * w div T) + T" for w
    using T mult_div_mod_eq [of T "threads * w"] pos_mod_bound [of T "threads * w"] pos_mod_sign [of T "threads * w"]
    by linarith+
  have low: "threads * sum_list us < T * sum_list (map (\<lambda>w. max 1 (threads * w div T)) us) + T * int (length us) \<or> us = []" for us
  proof (induction us)
    case (Cons u us)
    have "T * (threads * u div T) \<le> T * max 1 (threads * u div T)" using T by simp
    then show ?case using Cons pos(2) [of u] by (auto simp: algebra_simps)
  qed simp
  have high: "T * sum_list (map (\<lambda>w. max 1 (threads * w div T)) us)
      \<le> threads * sum_list us + T * int (length (filter (\<lambda>w. threads * w < T) us))"
    if "\<forall>w \<in> set us. 1 \<le> w" for us
    using that
  proof (induction us)
    case (Cons u us)
    have IH: "T * sum_list (map (\<lambda>w. max 1 (threads * w div T)) us)
      \<le> threads * sum_list us + T * int (length (filter (\<lambda>w. threads * w < T) us))" using Cons by simp
    show ?case
    proof (cases "threads * u < T")
      case True
      moreover have "0 \<le> threads * u" using Cons.prems assms(1) by simp
      ultimately have "threads * u div T = 0" by simp
      then show ?thesis using IH True \<open>0 \<le> threads * u\<close> by (simp add: algebra_simps)
    next
      case False
      then have "1 \<le> threads * u div T" using T pos_imp_zdiv_pos_iff [of T "threads * u"] by linarith
      then show ?thesis using IH False pos(1) [of u] by (simp add: algebra_simps)
    qed
  qed simp
  have "T * threads < T * (sum_list (thread_shares threads ws) + int (length ws))"
    using low [of ws] assms(2) shares T_def by (simp add: algebra_simps)
  moreover have "T * sum_list (thread_shares threads ws)
      \<le> T * (threads + int (length (filter (\<lambda>w. threads * w < T) ws)))"
    using high [OF assms(3)] shares T_def by (simp add: algebra_simps)
  ultimately show ?thesis using shares T unfolding T_def [symmetric] by simp
qed

theorem thread_shares_bounds_witness:
  "thread_shares 3 [1, 1] = [1, 1] \<and> thread_shares 2 [5, 1, 1] = [1, 1, 1]"
  using thread_shares_bounds [of 3 "[1, 1]"] thread_shares_bounds [of 2 "[5, 1, 1]"] by simp

subsection \<open>Prepopulation and cleanup\<close>

text \<open>The methods of the interface, dispatched on the workload behind it. They return the workload as
  they leave it, and prepopulation also the environment, whose generator it may have advanced. The
  children of a mix share one environment; they are cleaned in reverse order.\<close>

fun wl_prepopulate ::
    "runtime \<Rightarrow> 's client \<Rightarrow> env \<Rightarrow> any_workload \<Rightarrow> 's world \<Rightarrow> unit res \<times> any_workload \<times> env \<times> 's world"
  and mix_prepopulate ::
    "runtime \<Rightarrow> 's client \<Rightarrow> env \<Rightarrow> any_workload list \<Rightarrow> 's world
       \<Rightarrow> unit res \<times> any_workload list \<times> env \<times> 's world" where
  "wl_prepopulate rt cl env (W_object kind w) wd =
     (case obj_prepopulate kind (rt_entropy rt) cl w wd of (out, w1, wd1) \<Rightarrow> (out, W_object kind w1, env, wd1))"
| "wl_prepopulate rt cl env (W_checkpoint w) wd =
     (case ckpt_prepopulate (rt_entropy rt) cl env (rt_clock rt (length (wd_calls wd))) w wd of
        (out, w1, wd1) \<Rightarrow> (out, W_checkpoint w1, env, wd1))"
| "wl_prepopulate rt cl env (W_lancedb w) wd =
     (case lc_prepopulate (rt_entropy rt) cl env w wd of (out, w1, env1, wd1) \<Rightarrow> (out, W_lancedb w1, env1, wd1))"
| "wl_prepopulate rt cl env (W_dataloader w) wd =
     (case dl_prepopulate (rt_entropy rt) (rt_gauss rt) cl env w wd of
        (out, w1, env1, wd1) \<Rightarrow> (out, W_dataloader w1, env1, wd1))"
| "wl_prepopulate rt cl env (W_metadata w) wd =
     (case md_prepopulate (rt_entropy rt) cl w wd of (out, w1, wd1) \<Rightarrow> (out, W_metadata w1, env, wd1))"
| "wl_prepopulate rt cl env (W_mix name cs ws) wd =
     (case mix_prepopulate rt cl env cs wd of (out, cs1, env1, wd1) \<Rightarrow> (out, W_mix name cs1 ws, env1, wd1))"
| "mix_prepopulate rt cl env [] wd = (Ok (), [], env, wd)"
| "mix_prepopulate rt cl env (c # cs) wd =
     (case wl_prepopulate rt cl env c wd of
        (Ok _, c1, env1, wd1) \<Rightarrow>
          (case mix_prepopulate rt cl env1 cs wd1 of (out, cs1, env2, wd2) \<Rightarrow> (out, c1 # cs1, env2, wd2))
      | (Err e, c1, env1, wd1) \<Rightarrow> (Err e, c1 # cs, env1, wd1)
      | (Panic, c1, env1, wd1) \<Rightarrow> (Panic, c1 # cs, env1, wd1))"

fun wl_cleanup :: "'s client \<Rightarrow> any_workload \<Rightarrow> 's world \<Rightarrow> unit res \<times> 's world"
  and mix_cleanup :: "'s client \<Rightarrow> any_workload list \<Rightarrow> 's world \<Rightarrow> unit res \<times> 's world" where
  "wl_cleanup cl (W_object kind w) wd = obj_cleanup cl w wd"
| "wl_cleanup cl (W_checkpoint w) wd = ckpt_cleanup cl w wd"
| "wl_cleanup cl (W_lancedb w) wd = lc_cleanup cl w wd"
| "wl_cleanup cl (W_dataloader w) wd = dl_cleanup cl w wd"
| "wl_cleanup cl (W_metadata w) wd = md_cleanup cl w wd"
| "wl_cleanup cl (W_mix name cs ws) wd = mix_cleanup cl cs wd"
| "mix_cleanup cl [] wd = (Ok (), wd)"
| "mix_cleanup cl (c # cs) wd =
     (case mix_cleanup cl cs wd of
        (Ok _, wd1) \<Rightarrow> wl_cleanup cl c wd1
      | (Err e, wd1) \<Rightarrow> (Err e, wd1)
      | (Panic, wd1) \<Rightarrow> (Panic, wd1))"

subsection \<open>Runs\<close>

text \<open>
  A running workload is a goroutine that has not started yet, the workers of a leaf, a mix waiting
  for its children, or a \<open>Run\<close> that has returned. The world is kept outside: a step of a leaf puts
  it into the leaf's own state, and takes it out again.
\<close>

datatype 's any_run =
    Rn_launch env any_workload
  | Rn_object env obj_kind "'s obj_run"
  | Rn_checkpoint env "'s ckpt_run"
  | Rn_lancedb env "(lancedb, lc_worker, 's) crew"
  | Rn_dataloader env "(dataloader, dl_worker, 's) crew"
  | Rn_metadata env "(metadata_wl, md_worker, 's) crew"
  | Rn_mix string "'s any_run list" "int list"
  | Rn_done any_workload "go_error option"

fun run_workload :: "'s any_run \<Rightarrow> any_workload" where
  "run_workload (Rn_launch env w) = w"
| "run_workload (Rn_object env kind st) = W_object kind (or_wl st)"
| "run_workload (Rn_checkpoint env st) = W_checkpoint (cr_wl st)"
| "run_workload (Rn_lancedb env st) = W_lancedb (cw_wl st)"
| "run_workload (Rn_dataloader env st) = W_dataloader (cw_wl st)"
| "run_workload (Rn_metadata env st) = W_metadata (cw_wl st)"
| "run_workload (Rn_mix name rs ws) = W_mix name (map run_workload rs) ws"
| "run_workload (Rn_done w err) = w"

text \<open>An early return of \<open>Run\<close> happens before it has done anything.\<close>

definition launched ::
  "('r \<Rightarrow> 's any_run) \<Rightarrow> ('r \<Rightarrow> 's world) \<Rightarrow> any_workload \<Rightarrow> 's world \<Rightarrow> 'r res \<Rightarrow> ('s any_run \<times> 's world) res" where
  "launched f world w wd r =
     (case r of
        Ok st \<Rightarrow> Ok (f st, world st)
      | Err e \<Rightarrow> Ok (Rn_done w (Some e), wd)
      | Panic \<Rightarrow> Panic)"

definition mix_start :: "env \<Rightarrow> string \<Rightarrow> any_workload list \<Rightarrow> int list \<Rightarrow> 's any_run res" where
  "mix_start env name cs ws =
     (if total_weight ws \<le> 0
      then Ok (Rn_done (W_mix name cs ws) (Some (Plain_error (''mix '' @ name @ '': total weight must be >0''))))
      else if length ws < length cs then Panic
      else Ok (Rn_mix name
             (map2 (\<lambda>c t. Rn_launch (env\<lparr>en_threads := t\<rparr>) c) cs (thread_shares (en_threads env) ws)) ws))"

fun wl_start :: "runtime \<Rightarrow> env \<Rightarrow> any_workload \<Rightarrow> 's world \<Rightarrow> ('s any_run \<times> 's world) res" where
  "wl_start rt env (W_object kind w) wd =
     launched (Rn_object env kind) or_world (W_object kind w) wd (obj_start kind (rt_source rt) env w wd)"
| "wl_start rt env (W_checkpoint w) wd =
     launched (Rn_checkpoint env) cr_world (W_checkpoint w) wd (ckpt_start env w wd)"
| "wl_start rt env (W_lancedb w) wd =
     launched (Rn_lancedb env) cw_world (W_lancedb w) wd (lc_start (rt_source rt) env w wd)"
| "wl_start rt env (W_dataloader w) wd =
     launched (Rn_dataloader env) cw_world (W_dataloader w) wd (dl_start (rt_source rt) env w wd)"
| "wl_start rt env (W_metadata w) wd =
     launched (Rn_metadata env) cw_world (W_metadata w) wd (md_start (rt_source rt) env w wd)"
| "wl_start rt env (W_mix name cs ws) wd = map_res (\<lambda>r. (r, wd)) (mix_start env name cs ws)"

text \<open>When every worker of a leaf stands at the head of its loop the context may end and \<open>Run\<close> return.\<close>

fun run_idle :: "'s any_run \<Rightarrow> bool" where
  "run_idle (Rn_object env kind st) \<longleftrightarrow> (\<forall>pc \<in> set (or_pcs st). pc = At_loop)"
| "run_idle (Rn_checkpoint env st) \<longleftrightarrow> ckpt_quiet st"
| "run_idle (Rn_lancedb env st) \<longleftrightarrow> (\<forall>k \<in> set (cw_workers st). lw_pc k = Lc_loop)"
| "run_idle (Rn_dataloader env st) \<longleftrightarrow> (\<forall>k \<in> set (cw_workers st). dw_pc k = Dl_loop)"
| "run_idle (Rn_metadata env st) \<longleftrightarrow> (\<forall>k \<in> set (cw_workers st). mw_pc k = Md_loop)"
| "run_idle _ \<longleftrightarrow> False"

fun run_returned :: "'s any_run \<Rightarrow> bool" where
  "run_returned (Rn_done w err) \<longleftrightarrow> True"
| "run_returned _ \<longleftrightarrow> False"

fun run_error :: "'s any_run \<Rightarrow> go_error option" where
  "run_error (Rn_done w err) = err"
| "run_error _ = None"

fun strings_join :: "string list \<Rightarrow> string \<Rightarrow> string" where
  "strings_join [] sep = ''''"
| "strings_join [s] sep = s"
| "strings_join (s # ss) sep = s @ sep @ strings_join ss sep"

definition mix_result :: "runtime \<Rightarrow> string \<Rightarrow> go_error list \<Rightarrow> go_error option" where
  "mix_result rt name es =
     (if es = [] then None
      else Some (Plain_error (''mix '' @ name @ '' child errors: '' @ strings_join (map (rt_error_text rt) es) ''; '')))"

text \<open>A child's error reaches the mix only if the context has not ended yet, and errors arrive in any
  order: \<open>es\<close> is any arrangement of some of them.\<close>

inductive run_step :: "runtime \<Rightarrow> 's client \<Rightarrow> 's any_run \<times> 's world \<Rightarrow> 's any_run \<times> 's world \<Rightarrow> bool"
  for rt cl where
  launch: "wl_start rt env w wd = Ok (r, wd') \<Longrightarrow> run_step rt cl (Rn_launch env w, wd) (r, wd')"
| object: "obj_step kind (rt_entropy rt) cl env l (st\<lparr>or_world := wd\<rparr>) = Ok st' \<Longrightarrow>
    run_step rt cl (Rn_object env kind st, wd) (Rn_object env kind st', or_world st')"
| checkpoint: "ckpt_step (rt_entropy rt) cl env (st\<lparr>cr_world := wd\<rparr>) st' \<Longrightarrow>
    run_step rt cl (Rn_checkpoint env st, wd) (Rn_checkpoint env st', cr_world st')"
| lancedb: "crew_step (lc_act (rt_entropy rt) (rt_gauss rt) cl env) l (st\<lparr>cw_world := wd\<rparr>) = Ok st' \<Longrightarrow>
    run_step rt cl (Rn_lancedb env st, wd) (Rn_lancedb env st', cw_world st')"
| dataloader: "crew_step (dl_act cl env) l (st\<lparr>cw_world := wd\<rparr>) = Ok st' \<Longrightarrow>
    run_step rt cl (Rn_dataloader env st, wd) (Rn_dataloader env st', cw_world st')"
| metadata: "crew_step (md_act cl env) l (st\<lparr>cw_world := wd\<rparr>) = Ok st' \<Longrightarrow>
    run_step rt cl (Rn_metadata env st, wd) (Rn_metadata env st', cw_world st')"
| return: "run_idle r \<Longrightarrow> run_step rt cl (r, wd) (Rn_done (run_workload r) None, wd)"
| child: "\<lbrakk>i < length rs; run_step rt cl (rs ! i, wd) (r, wd')\<rbrakk>
    \<Longrightarrow> run_step rt cl (Rn_mix name rs ws, wd) (Rn_mix name (rs[i := r]) ws, wd')"
| join: "\<lbrakk>\<forall>r \<in> set rs. run_returned r; mset es \<subseteq># mset (List.map_filter run_error rs)\<rbrakk>
    \<Longrightarrow> run_step rt cl (Rn_mix name rs ws, wd)
          (Rn_done (W_mix name (map run_workload rs) ws) (mix_result rt name es), wd)"

subsection \<open>A run keeps its workload well-formed\<close>

definition same_shape :: "any_workload \<Rightarrow> any_workload \<Rightarrow> bool" where
  "same_shape w w' \<longleftrightarrow> wl_name w' = wl_name w \<and> wl_type w' = wl_type w \<and> (wl_wf w \<longrightarrow> wl_wf w')"

lemma same_shape_refl [simp]: "same_shape w w"
  by (simp add: same_shape_def)

lemma same_shape_trans: "same_shape u v \<Longrightarrow> same_shape v w \<Longrightarrow> same_shape u w"
  by (simp add: same_shape_def)

lemma obj_step_shape:
  "obj_step kind entropy cl env l st = Ok st' \<Longrightarrow> same_shape (W_object kind (or_wl st)) (W_object kind (or_wl st'))"
  by (cases l)
    (auto simp: loop_step_def call_step_def finish_call_def Let_def same_shape_def
      split: if_splits prod.splits res.splits worker_pc.splits)

lemma ckpt_step_shape:
  "ckpt_step entropy cl env st st' \<Longrightarrow> same_shape (W_checkpoint (cr_wl st)) (W_checkpoint (cr_wl st'))"
  by (erule ckpt_stepE)
    (auto simp: next_key_def commit_version_def Let_def set_pc_def same_shape_def split: if_splits)

lemma crew_step_shape:
  assumes "crew_step act l st = Ok st'"
    and "\<And>i latency k wd w' k' wd'. act i latency (cw_wl st) k wd = Ok (w', k', wd') \<Longrightarrow> same_shape (f (cw_wl st)) (f w')"
  shows "same_shape (f (cw_wl st)) (f (cw_wl st'))"
  using assms by (auto simp: crew_step_def split: if_splits res.splits)

lemma lc_act_shape:
  "lc_act entropy gauss cl env i latency w k wd = Ok (w', k', wd') \<Longrightarrow> same_shape (W_lancedb w) (W_lancedb w')"
  by (auto simp: lc_act_def do_write_def Let_def same_shape_def split: prod.splits if_splits lc_pc.splits res.splits)

lemma dl_act_shape:
  "dl_act cl env i latency w k wd = Ok (w', k', wd') \<Longrightarrow> same_shape (W_dataloader w) (W_dataloader w')"
  by (auto simp: dl_act_def dl_choose_def dl_next_key_def Let_def same_shape_def
      split: prod.splits if_splits dl_pc.splits res.splits option.splits)

lemma md_act_shape:
  "md_act cl env i latency w k wd = Ok (w', k', wd') \<Longrightarrow> same_shape (W_metadata w) (W_metadata w')"
  by (auto simp: md_act_def one_op_def Let_def same_shape_def split: prod.splits if_splits md_pc.splits res.splits)

lemma launched_children:
  "length cs \<le> length ts \<Longrightarrow> map run_workload (map2 (\<lambda>c t. Rn_launch (g t) c) cs ts) = cs"
  by (induction cs ts rule: list_induct2') auto

lemma wl_start_workload: "wl_start rt env w wd = Ok (r, wd') \<Longrightarrow> run_workload r = w"
  by (cases w)
    (auto simp: launched_def obj_start_def ckpt_start_def lc_start_def dl_start_def md_start_def mix_start_def
      Let_def map_res_def launched_children thread_shares_def simp del: map_map split: if_splits res.splits)

text \<open>A step of a running workload, however deep in a mix.\<close>

lemma run_step_shape:
  assumes "run_step rt cl (r, wd) (r', wd')"
  shows "same_shape (run_workload r) (run_workload r')"
  using assms
proof (induction "(r, wd)" "(r', wd')" arbitrary: r wd r' wd' rule: run_step.induct)
  case (launch env w wd r wd')
  then show ?case by (simp add: wl_start_workload)
next
  case (object kind env l wd st st')
  then show ?case using obj_step_shape by fastforce
next
  case (checkpoint env wd st st')
  then show ?case using ckpt_step_shape by fastforce
next
  case (lancedb env l wd st st')
  then show ?case using crew_step_shape [OF lancedb, of W_lancedb] lc_act_shape by fastforce
next
  case (dataloader env l wd st st')
  then show ?case using crew_step_shape [OF dataloader, of W_dataloader] dl_act_shape by fastforce
next
  case (metadata env l wd st st')
  then show ?case using crew_step_shape [OF metadata, of W_metadata] md_act_shape by fastforce
next
  case (child i rs wd r wd' name ws)
  then have "same_shape (run_workload (rs ! i)) (run_workload r)" by simp
  moreover have "rs ! i \<in> set rs" using child by simp
  ultimately show ?case
    using set_update_subset_insert [of rs i r] by (auto simp: same_shape_def)
qed simp_all


lemma run_steps_shape:
  assumes "(run_step rt cl)\<^sup>*\<^sup>* (r, wd) (r', wd')"
  shows "same_shape (run_workload r) (run_workload r')"
  using assms by (induction rule: rtranclp_induct2) (auto intro: same_shape_trans dest: run_step_shape)

lemma lc_prepopulate_shape:
  "lc_prepopulate entropy cl env w wd = (out, w', env', wd') \<Longrightarrow> same_shape (W_lancedb w) (W_lancedb w')"
  by (auto simp: lc_prepopulate_def Let_def same_shape_def split: prod.splits if_splits)

lemma ckpt_prepopulate_shape:
  "ckpt_prepopulate entropy cl env latency w wd = (out, w', wd') \<Longrightarrow> same_shape (W_checkpoint w) (W_checkpoint w')"
  by (auto simp: ckpt_prepopulate_def write_one_at_def next_key_def commit_version_def Let_def same_shape_def
      split: prod.splits if_splits res.splits)

lemma prepopulate_shape:
  "wl_prepopulate rt cl env w wd = (out, w', env', wd') \<Longrightarrow> same_shape w w'"
  "mix_prepopulate rt cl env cs wd = (outs, cs', env', wd') \<Longrightarrow> list_all2 same_shape cs cs'"
proof (induction rt cl env w wd and rt cl env cs wd arbitrary: out w' env' wd' and outs cs' env' wd'
    rule: wl_prepopulate_mix_prepopulate.induct)
  case (1 rt cl env kind w wd)
  then show ?case by (auto simp: obj_prepopulate_def same_shape_def split: prod.splits res.splits)
next
  case (2 rt cl env w wd)
  then show ?case by (auto dest: ckpt_prepopulate_shape split: prod.splits)
next
  case (3 rt cl env w wd)
  then show ?case by (auto dest: lc_prepopulate_shape split: prod.splits)
next
  case (4 rt cl env w wd)
  then show ?case by (auto simp: dl_prepopulate_def Let_def same_shape_def split: prod.splits res.splits)
next
  case (5 rt cl env w wd)
  then show ?case by (auto simp: md_prepopulate_def same_shape_def split: prod.splits)
next
  case (6 rt cl env name cs ws wd)
  obtain cs1 where cs1: "mix_prepopulate rt cl env cs wd = (out, cs1, env', wd')" "w' = W_mix name cs1 ws"
    using "6.prems" by (auto split: prod.splits)
  have "list_all2 same_shape cs cs1" by (rule "6.IH" [OF cs1(1)])
  then have "length cs1 = length cs" "(\<forall>c \<in> set cs. wl_wf c) \<longrightarrow> (\<forall>c \<in> set cs1. wl_wf c)"
    by (auto simp: list_all2_conv_all_nth all_set_conv_all_nth same_shape_def)
  then show ?case by (auto simp: cs1(2) same_shape_def)
next
  case (8 rt cl env c cs wd)
  obtain o1 c1 env1 wd1 where c: "wl_prepopulate rt cl env c wd = (o1, c1, env1, wd1)" by (metis prod_cases4)
  have "same_shape c c1" by (rule "8.IH"(1) [OF c])
  moreover have "list_all2 same_shape cs cs2" if "mix_prepopulate rt cl env1 cs wd1 = (o2, cs2, env2, wd2)" "o1 = Ok u"
    for o2 cs2 env2 wd2 u
    by (rule "8.IH"(2) [OF _ _ _ _ that(1)]) (use c that in auto)
  ultimately show ?case using "8.prems" c
    by (auto split: res.splits prod.splits intro: list_all2_refl)
qed simp_all

text \<open>C16. A workload keeps its type: what \<open>Build\<close> returns has the type and the name of its entry
  and is well-formed at every level of nesting (positive sizes and counts, key prefixes below the
  workload's own name, in a mix one weight of at least one for each child), and so is the workload
  after \<open>Prepopulate\<close>, whether that succeeded or not, and after any number of steps of \<open>Run\<close>.\<close>

theorem workload_keeps_type:
  assumes "build_any rt w = Ok x"
    and "wl_prepopulate rt cl env x wd = (out, x1, env1, wd1)"
    and "(run_step rt cl)\<^sup>*\<^sup>* (Rn_launch env2 x1, wd2) (r, wd3)"
  shows "wl_type x = we_type w \<and> wl_name x = we_name w \<and> wl_wf x \<and>
    wl_type (run_workload r) = we_type w \<and> wl_name (run_workload r) = we_name w \<and> wl_wf (run_workload r)"
  using build_any_wf [OF assms(1)] prepopulate_shape(1) [OF assms(2)] run_steps_shape [OF assms(3)]
  by (simp add: same_shape_def)

lemma wl_start_store: "wl_start rt env w wd = Ok (r, wd') \<Longrightarrow> wd_store wd' = wd_store wd"
  by (cases w)
    (auto simp: launched_def obj_start_def ckpt_start_def lc_start_def dl_start_def md_start_def
      Let_def map_res_def split: if_splits res.splits dest: shard_all_store)

subsection \<open>What a workload does to the store\<close>

text \<open>Whatever the operations of the client keep, every workload keeps in all its phases.\<close>

context client_invariant
begin

lemma delete_keys_keeps: "delete_keys cl ks s = (out, s') \<Longrightarrow> Q s \<Longrightarrow> Q s'"
  by (induction ks arbitrary: s) (auto split: prod.splits res.splits if_splits dest: call_keeps)

lemma retain_deletes_keeps: "retain_deletes cl ks s = (out, s') \<Longrightarrow> Q s \<Longrightarrow> Q s'"
  by (induction ks arbitrary: s) (auto split: prod.splits res.splits dest: call_keeps)

lemma obj_write_keeps: "obj_write kind cl k b n s = (out, s') \<Longrightarrow> Q s \<Longrightarrow> Q s'"
  by (cases kind) (auto dest: call_keeps)

lemma obj_read_keeps: "obj_read kind cl w k s = (out, s') \<Longrightarrow> Q s \<Longrightarrow> Q s'"
  by (cases kind) (auto dest: call_keeps)

lemma record_keeps: "env_record env r e wd = (out, wd') \<Longrightarrow> Q (wd_store wd) \<Longrightarrow> Q (wd_store wd')"
  by (metis env_record_store snd_conv)

lemmas parts_keep = call_keeps delete_keys_keeps retain_deletes_keeps obj_write_keeps obj_read_keeps record_keeps

lemma obj_step_keeps:
  assumes "obj_step kind entropy cl env l st = Ok st'" "Q (wd_store (or_world st))"
  shows "Q (wd_store (or_world st'))"
proof (cases l)
  case (Call i latency)
  have fin: "Q (wd_store (or_world st'))" if "finish_call env i e s st = Ok st'" "Q s" for e s
    using that by (auto simp: finish_call_def split: prod.splits res.splits dest: record_keeps)
  show ?thesis
    using assms Call
    by (auto simp: call_step_def Let_def split: if_splits prod.splits worker_pc.splits
        elim!: fin dest: obj_write_keeps obj_read_keeps)
qed (use assms in \<open>auto simp: loop_step_world split: if_splits\<close>)

lemma upload_version_keeps:
  "upload_version entropy cl env r latency w k wd = (out, wd') \<Longrightarrow> Q (wd_store wd) \<Longrightarrow> Q (wd_store wd')"
  by (auto simp: upload_version_def Let_def split: prod.splits if_splits res.splits dest!: record_keeps
      dest: call_keeps)

lemma read_latest_keeps:
  "read_latest cl env r latency w k wd = (out, wd') \<Longrightarrow> Q (wd_store wd) \<Longrightarrow> Q (wd_store wd')"
  by (auto simp: read_latest_def Let_def split: prod.splits if_splits dest!: record_keeps dest: call_keeps)

lemma ckpt_step_keeps:
  "ckpt_step entropy cl env st st' \<Longrightarrow> Q (wd_store (cr_world st)) \<Longrightarrow> Q (wd_store (cr_world st'))"
  by (erule ckpt_stepE)
    (auto simp: set_pc_def dest: call_keeps upload_version_keeps read_latest_keeps)

lemma crew_step_keeps:
  assumes "crew_step act l st = Ok st'" "Q (wd_store (cw_world st))"
    and "\<And>i latency w k wd w' k' wd'. act i latency w k wd = Ok (w', k', wd') \<Longrightarrow> Q (wd_store wd) \<Longrightarrow> Q (wd_store wd')"
  shows "Q (wd_store (cw_world st'))"
  using assms by (auto simp: crew_step_def split: if_splits res.splits)

lemma lc_act_keeps:
  "lc_act entropy gauss cl env i latency w k wd = Ok (w', k', wd') \<Longrightarrow> Q (wd_store wd) \<Longrightarrow> Q (wd_store wd')"
  by (auto simp: lc_act_def head_turn_def range_turn_def list_manifest_def write_turn_def Let_def keeps
      split: prod.splits if_splits lc_pc.splits res.splits dest!: record_call_store)

lemma dl_act_keeps:
  "dl_act cl env i latency w k wd = Ok (w', k', wd') \<Longrightarrow> Q (wd_store wd) \<Longrightarrow> Q (wd_store wd')"
  by (auto simp: dl_act_def do_get_def do_range_get_def Let_def keeps
      split: prod.splits if_splits dl_pc.splits res.splits dest!: record_call_store)

lemma md_act_keeps:
  "md_act cl env i latency w k wd = Ok (w', k', wd') \<Longrightarrow> Q (wd_store wd) \<Longrightarrow> Q (wd_store wd')"
  by (auto simp: md_act_def list_turn_def md_head_def md_copy_def md_put_tags_def md_get_tags_def Let_def keeps
      split: prod.splits if_splits md_pc.splits res.splits dest!: record_call_store)

lemma run_step_keeps:
  assumes "run_step rt cl (r, wd) (r', wd')" "Q (wd_store wd)"
  shows "Q (wd_store wd')"
  using assms
proof (induction "(r, wd)" "(r', wd')" arbitrary: r wd r' wd' rule: run_step.induct)
  case (launch env w wd r wd')
  then show ?case by (simp add: wl_start_store)
next
  case (object kind env l wd st st')
  then show ?case using obj_step_keeps [OF object(1)] by simp
next
  case (checkpoint env wd st st')
  then show ?case using ckpt_step_keeps [OF checkpoint(1)] by simp
next
  case (lancedb env l wd st st')
  then show ?case using crew_step_keeps [OF lancedb(1)] lc_act_keeps by fastforce
next
  case (dataloader env l wd st st')
  then show ?case using crew_step_keeps [OF dataloader(1)] dl_act_keeps by fastforce
next
  case (metadata env l wd st st')
  then show ?case using crew_step_keeps [OF metadata(1)] md_act_keeps by fastforce
qed simp_all

lemma dl_fill_keeps: "dl_fill entropy gauss cl key is has_rand l s = (out, l', s') \<Longrightarrow> Q s \<Longrightarrow> Q s'"
  by (induction "is" arbitrary: l s out l' s')
    (auto simp: Let_def split: if_splits prod.splits res.splits dest: call_keeps)

lemma md_fill_keeps: "md_fill entropy cl n ks s = (out, stored_keys, s') \<Longrightarrow> Q s \<Longrightarrow> Q s'"
  by (induction ks arbitrary: s out stored_keys s') (auto split: prod.splits res.splits dest: call_keeps)

lemma upload_fragments_keeps: "upload_fragments entropy cl w is s = (out, n, s') \<Longrightarrow> Q s \<Longrightarrow> Q s'"
  by (induction "is" arbitrary: s out n s') (auto split: prod.splits res.splits dest: call_keeps)

lemma upload_manifests_keeps: "upload_manifests entropy cl w is ro s = (out, c, ro', s') \<Longrightarrow> Q s \<Longrightarrow> Q s'"
  by (induction "is" arbitrary: ro s out c ro' s') (auto split: prod.splits res.splits dest: call_keeps)

lemma write_one_at_keeps:
  "write_one_at entropy cl env r latency w wd = (out, w', wd') \<Longrightarrow> Q (wd_store wd) \<Longrightarrow> Q (wd_store wd')"
  by (auto simp: write_one_at_def Let_def split: prod.splits res.splits
      dest!: upload_version_keeps retain_deletes_keeps)

lemma mix_prepopulate_keeps:
  assumes "mix_prepopulate rt cl env cs wd = (out, cs', env', wd')" "Q (wd_store wd)"
    and "\<And>c env wd out c' env' wd'. c \<in> set cs \<Longrightarrow> wl_prepopulate rt cl env c wd = (out, c', env', wd') \<Longrightarrow>
      Q (wd_store wd) \<Longrightarrow> Q (wd_store wd')"
  shows "Q (wd_store wd')"
  using assms
proof (induction cs arbitrary: env wd out cs' env' wd')
  case (Cons c cs)
  obtain o1 c1 env1 wd1 where c: "wl_prepopulate rt cl env c wd = (o1, c1, env1, wd1)" by (metis prod_cases4)
  have 1: "Q (wd_store wd1)" by (rule Cons.prems(3) [OF _ c Cons.prems(2)]) simp
  have "Q (wd_store wd2)" if "mix_prepopulate rt cl env1 cs wd1 = (o2, cs2, env2, wd2)" for o2 cs2 env2 wd2
    by (rule Cons.IH [OF that 1], rule Cons.prems(3) [OF list.set_intros(2)])
  then show ?case using Cons.prems(1) c 1 by (auto split: res.splits prod.splits)
qed simp

lemma prepopulate_keeps:
  "wl_prepopulate rt cl env w wd = (out, w', env', wd') \<Longrightarrow> Q (wd_store wd) \<Longrightarrow> Q (wd_store wd')"
proof (induction w arbitrary: env wd out w' env' wd')
  case (W_object kind w)
  then show ?case by (auto simp: obj_prepopulate_def split: prod.splits res.splits dest: obj_write_keeps)
next
  case (W_checkpoint w)
  then show ?case by (auto simp: ckpt_prepopulate_def split: prod.splits dest: write_one_at_keeps)
next
  case (W_lancedb w)
  then show ?case
    by (auto simp: lc_prepopulate_def Let_def split: prod.splits if_splits
        dest!: upload_fragments_keeps upload_manifests_keeps)
next
  case (W_dataloader w)
  then show ?case
    by (auto simp: dl_prepopulate_def Let_def split: prod.splits res.splits dest: dl_fill_keeps)
next
  case (W_metadata w)
  then show ?case by (auto simp: md_prepopulate_def split: prod.splits dest: md_fill_keeps)
next
  case (W_mix name cs ws)
  obtain cs1 where cs1: "mix_prepopulate rt cl env cs wd = (out, cs1, env', wd')"
    using W_mix.prems by (auto split: prod.splits)
  show ?case by (rule mix_prepopulate_keeps [OF cs1 W_mix.prems(2)]) (rule W_mix.IH)
qed

lemma mix_cleanup_keeps:
  assumes "Q (wd_store wd)" and "\<And>c wd. c \<in> set cs \<Longrightarrow> Q (wd_store wd) \<Longrightarrow> Q (wd_store (snd (wl_cleanup cl c wd)))"
  shows "Q (wd_store (snd (mix_cleanup cl cs wd)))"
  using assms
proof (induction cs arbitrary: wd)
  case (Cons c cs)
  have "Q (wd_store (snd (mix_cleanup cl cs wd)))"
    by (rule Cons.IH [OF Cons.prems(1)]) (rule Cons.prems(2) [OF list.set_intros(2)])
  then show ?case using Cons.prems(2) [of c] by (auto split: prod.splits res.splits)
qed simp

lemma cleanup_keeps: "Q (wd_store wd) \<Longrightarrow> Q (wd_store (snd (wl_cleanup cl w wd)))"
proof (induction w arbitrary: wd)
  case (W_mix name cs ws)
  then show ?case by (simp add: mix_cleanup_keeps)
qed (auto simp: obj_cleanup_def ckpt_cleanup_def lc_cleanup_def dl_cleanup_def md_cleanup_def Let_def
       split: prod.splits res.splits dest!: delete_keys_keeps)

end

subsection \<open>Cleanup takes back what prepopulation left\<close>

text \<open>The keys \<open>Cleanup\<close> would delete, and the workloads as their factories make them.\<close>

fun cleanup_keys :: "any_workload \<Rightarrow> string list" where
  "cleanup_keys (W_object kind w) = map (\<lambda>i. key_for w (int i)) [0..<nat (ow_written w)]"
| "cleanup_keys (W_checkpoint w) = ck_versions w"
| "cleanup_keys (W_lancedb w) =
     map (\<lambda>i. data_key w (int i)) [0..<nat (lc_fragment_count w)] @
     map (\<lambda>i. manifest_key w (int i)) [0..<nat (wrap64 (lc_manifest_count w + lc_written w))]"
| "cleanup_keys (W_dataloader w) = dl_keys w"
| "cleanup_keys (W_metadata w) =
     md_base_keys w @ map (\<lambda>i. copy_key_for w (int i)) [0..<nat (md_copies w)]"
| "cleanup_keys (W_mix name cs ws) = concat (rev (map cleanup_keys cs))"

fun wl_fresh :: "any_workload \<Rightarrow> bool" where
  "wl_fresh (W_object kind w) \<longleftrightarrow> 0 \<le> ow_size w \<and> ow_written w = 0"
| "wl_fresh (W_checkpoint w) \<longleftrightarrow> ck_versions w = []"
| "wl_fresh (W_lancedb w) \<longleftrightarrow> lc_valid w \<and> 0 \<le> lc_fragment_size w \<and> 0 < lc_fragments w \<and>
     0 < lc_manifests w \<and> lc_manifests w < 2 ^ 63 \<and> lc_written w = 0"
| "wl_fresh (W_dataloader w) \<longleftrightarrow> 0 < dl_count w"
| "wl_fresh (W_metadata w) \<longleftrightarrow> 0 \<le> md_size w"
| "wl_fresh (W_mix name cs ws) \<longleftrightarrow> (\<forall>c \<in> set cs. wl_fresh c)"

context reliable_store
begin

lemma delete_keys_ok:
  assumes "calm s"
  shows "\<exists>s'. delete_keys cl ks s = (Ok (), s') \<and> calm s' \<and>
    (\<forall>x. view s' x = (if x \<in> addr ` set ks then None else view s x))"
  using delete_keys_calm [OF assms, of ks] by fastforce

lemma mix_cleanup_calm:
  assumes "calm (wd_store wd)"
    and "\<And>c wd. c \<in> set cs \<Longrightarrow> calm (wd_store wd) \<Longrightarrow> \<exists>wd'. wl_cleanup cl c wd = (Ok (), wd') \<and> calm (wd_store wd') \<and>
      (\<forall>x. view (wd_store wd') x = (if x \<in> addr ` set (cleanup_keys c) then None else view (wd_store wd) x))"
  shows "\<exists>wd'. mix_cleanup cl cs wd = (Ok (), wd') \<and> calm (wd_store wd') \<and>
    (\<forall>x. view (wd_store wd') x =
      (if x \<in> addr ` (\<Union>c \<in> set cs. set (cleanup_keys c)) then None else view (wd_store wd) x))"
  using assms
proof (induction cs)
  case (Cons c cs)
  obtain wd1 where wd1: "mix_cleanup cl cs wd = (Ok (), wd1)" "calm (wd_store wd1)"
    "\<forall>x. view (wd_store wd1) x =
      (if x \<in> addr ` (\<Union>c \<in> set cs. set (cleanup_keys c)) then None else view (wd_store wd) x)"
    using Cons.IH [OF Cons.prems(1)] Cons.prems(2) [OF list.set_intros(2)] by blast
  obtain wd2 where "wl_cleanup cl c wd1 = (Ok (), wd2)" "calm (wd_store wd2)"
    "\<forall>x. view (wd_store wd2) x = (if x \<in> addr ` set (cleanup_keys c) then None else view (wd_store wd1) x)"
    using Cons.prems(2) [OF _ wd1(2), of c] by auto
  then show ?case using wd1 by (intro exI [of _ wd2]) (simp add: image_Un)
qed simp

lemma cleanup_calm:
  assumes "calm (wd_store wd)"
  shows "\<exists>wd'. wl_cleanup cl w wd = (Ok (), wd') \<and> calm (wd_store wd') \<and>
    (\<forall>x. view (wd_store wd') x = (if x \<in> addr ` set (cleanup_keys w) then None else view (wd_store wd) x))"
  using assms
proof (induction w arbitrary: wd)
  case (W_object kind w)
  obtain s' where "delete_keys cl (cleanup_keys (W_object kind w)) (wd_store wd) = (Ok (), s')" "calm s'"
    "\<forall>x. view s' x = (if x \<in> addr ` set (cleanup_keys (W_object kind w)) then None else view (wd_store wd) x)"
    using delete_keys_ok [OF W_object, of "cleanup_keys (W_object kind w)"] by blast
  then show ?case by (simp add: obj_cleanup_def)
next
  case (W_checkpoint w)
  then show ?case using delete_keys_ok [OF W_checkpoint, of "ck_versions w"] by (auto simp: ckpt_cleanup_def)
next
  case (W_lancedb w)
  define A where "A = map (\<lambda>i. data_key w (int i)) [0..<nat (lc_fragment_count w)]"
  define B where "B = map (\<lambda>i. manifest_key w (int i)) [0..<nat (wrap64 (lc_manifest_count w + lc_written w))]"
  obtain s1 where s1: "delete_keys cl A (wd_store wd) = (Ok (), s1)" "calm s1"
    "\<forall>x. view s1 x = (if x \<in> addr ` set A then None else view (wd_store wd) x)"
    using delete_keys_ok [OF W_lancedb, of A] by blast
  obtain s2 where s2: "delete_keys cl B s1 = (Ok (), s2)" "calm s2"
    "\<forall>x. view s2 x = (if x \<in> addr ` set B then None else view s1 x)"
    using delete_keys_ok [OF s1(2), of B] by blast
  have "wl_cleanup cl (W_lancedb w) wd = (Ok (), wd\<lparr>wd_store := s2\<rparr>)"
    using s1(1) s2(1) by (simp add: lc_cleanup_def A_def B_def Let_def)
  moreover have "cleanup_keys (W_lancedb w) = A @ B" by (simp add: A_def B_def)
  ultimately show ?case using s2(2,3) s1(3) by (simp add: image_Un)
next
  case (W_dataloader w)
  then show ?case using delete_keys_ok [OF W_dataloader, of "dl_keys w"] by (auto simp: dl_cleanup_def)
next
  case (W_metadata w)
  define B where "B = map (\<lambda>i. copy_key_for w (int i)) [0..<nat (md_copies w)]"
  obtain s1 where s1: "delete_keys cl (md_base_keys w) (wd_store wd) = (Ok (), s1)" "calm s1"
    "\<forall>x. view s1 x = (if x \<in> addr ` set (md_base_keys w) then None else view (wd_store wd) x)"
    using delete_keys_ok [OF W_metadata, of "md_base_keys w"] by blast
  obtain s2 where s2: "delete_keys cl B s1 = (Ok (), s2)" "calm s2"
    "\<forall>x. view s2 x = (if x \<in> addr ` set B then None else view s1 x)"
    using delete_keys_ok [OF s1(2), of B] by blast
  have "wl_cleanup cl (W_metadata w) wd = (Ok (), wd\<lparr>wd_store := s2\<rparr>)"
    using s1(1) s2(1) by (simp add: md_cleanup_def B_def)
  moreover have "cleanup_keys (W_metadata w) = md_base_keys w @ B" by (simp add: B_def)
  ultimately show ?case using s2(2,3) s1(3) by (simp add: image_Un)
next
  case (W_mix name cs ws)
  show ?case using mix_cleanup_calm [OF W_mix.prems, of cs] W_mix.IH by simp
qed

text \<open>What a successful prepopulation has changed it tracks: every object is as before, or gone, or
  among the keys a cleanup deletes.\<close>

lemma ckpt_prepopulate_tracked:
  assumes "ckpt_prepopulate entropy cl env latency w wd = (Ok (), w', wd')" "calm (wd_store wd)" "ck_versions w = []"
  shows "calm (wd_store wd') \<and>
    (\<forall>x. x \<notin> addr ` set (ck_versions w') \<longrightarrow> view (wd_store wd') x \<in> {view (wd_store wd) x, None})"
proof -
  obtain k w1 where next1: "next_key w = (k, w1)" "ck_versions w1 = []"
    using assms(3) by (simp add: next_key_def Let_def)
  obtain u wd1 where up: "upload_version entropy cl env None latency w1 k wd = (Ok u, wd1)"
    using assms(1) next1 by (auto simp: ckpt_prepopulate_def write_one_at_def split: prod.splits res.splits)
  obtain b where wd1: "calm (wd_store wd1)" "view (wd_store wd1) = (view (wd_store wd))(addr k \<mapsto> b)"
    using upload_version_Ok [OF up assms(2)] by blast
  obtain w2 old where c: "commit_version w1 k = Ok (w2, old)"
    using assms(1) next1 up by (auto simp: ckpt_prepopulate_def write_one_at_def split: prod.splits res.splits)
  obtain s where s: "retain_deletes cl old (wd_store wd1) = (Ok (), s)" "calm s"
    "view s = (\<lambda>x. if x \<in> addr ` set old then None else view (wd_store wd1) x)"
    using retain_deletes_calm [OF wd1(1)] by blast
  have w': "w' = w2" "wd' = wd1\<lparr>wd_store := s\<rparr>"
    using assms(1) next1 up c s(1) by (auto simp: ckpt_prepopulate_def write_one_at_def)
  have "old @ ck_versions w2 = [k]"
    using c next1(2) by (auto simp: commit_version_def Let_def split: if_splits)
  then have "k \<in> set old \<or> k \<in> set (ck_versions w2)" by (metis Un_iff list.set_intros(1) set_append)
  then show ?thesis using s wd1 w' by auto
qed

lemma leaf_prepopulate_tracked:
  assumes "calm (wd_store wd)" "wl_fresh w" "\<nexists>name cs ws. w = W_mix name cs ws"
    and pre: "wl_prepopulate rt cl env w wd = (Ok (), w', env', wd')"
  shows "calm (wd_store wd') \<and> (\<forall>x. x \<notin> addr ` set (cleanup_keys w') \<longrightarrow>
    view (wd_store wd') x \<in> {view (wd_store wd) x, None})"
proof (cases w)
  case (W_object kind v)
  let ?b = "body (rt_entropy rt) (ow_size v)"
  obtain s where put: "obj_write kind cl (key_for v 0) ?b (ow_size v) (wd_store wd) = (Ok (), s)"
    "w' = W_object kind (v\<lparr>ow_written := 1\<rparr>)" "wd' = wd\<lparr>wd_store := s\<rparr>"
    using pre W_object by (auto simp: obj_prepopulate_def split: prod.splits res.splits)
  have len: "ow_size v = int (length ?b)" using assms(2) W_object by simp
  have "calm s \<and> view s = (view (wd_store wd))(addr (key_for v 0) \<mapsto> ?b)"
    using put(1) put_calm [OF assms(1), of "key_for v 0" ?b "ow_size v"] put_view [OF assms(1) len, of "key_for v 0"]
      multipart_calm [OF assms(1), of "key_for v 0" ?b "ow_size v"]
      multipart_view [OF assms(1), of "key_for v 0" ?b "ow_size v"]
    by (cases kind) simp_all
  then show ?thesis using put by simp
next
  case (W_checkpoint v)
  then obtain v' where v': "ckpt_prepopulate (rt_entropy rt) cl env (rt_clock rt (length (wd_calls wd))) v wd = (Ok (), v', wd')"
    "w' = W_checkpoint v'"
    using pre by (auto split: prod.splits)
  have "ck_versions v = []" using assms(2) W_checkpoint by simp
  from ckpt_prepopulate_tracked [OF v'(1) assms(1) this] show ?thesis using v'(2) by simp
next
  case (W_lancedb v)
  then obtain v' where v': "lc_prepopulate (rt_entropy rt) cl env v wd = (Ok (), v', env', wd')" "w' = W_lancedb v'"
    using pre by (auto split: prod.splits)
  have fresh: "lc_valid v" "0 \<le> lc_fragment_size v" "0 < lc_fragments v" "0 < lc_manifests v" "lc_manifests v < 2 ^ 63"
    "lc_written v = 0"
    using assms(2) W_lancedb by simp_all
  note ok = lc_prepopulate_ok [OF assms(1) fresh(1-4) v'(1)]
  then have eq: "v' = v\<lparr>lc_fragment_count := lc_fragments v, lc_manifest_count := lc_manifests v\<rparr>" by blast
  have total: "wrap64 (lc_manifest_count v' + lc_written v') = lc_manifests v"
    using fresh by (simp add: eq in_int64_iff)
  have keys: "data_key v' = data_key v" "manifest_key v' = manifest_key v"
    by (simp_all add: eq fun_eq_iff data_key_def manifest_key_def)
  have "x \<in> addr ` set (cleanup_keys w')" if "view (wd_store wd') x \<noteq> view (wd_store wd) x" for x
  proof -
    from ok that consider i where "0 \<le> i" "i < lc_fragments v" "x = addr (data_key v i)"
      | j where "0 \<le> j" "j < lc_manifests v" "x = addr (manifest_key v j)" by blast
    then show ?thesis
    proof cases
      case 1
      then show ?thesis unfolding v'(2) cleanup_keys.simps total keys set_append set_map image_Un
        by (simp add: eq) (intro disjI1 imageI image_eqI [of _ _ "nat i"]; simp)
    next
      case 2
      then show ?thesis unfolding v'(2) cleanup_keys.simps total keys set_append set_map image_Un
        by simp (intro disjI2 imageI image_eqI [of _ _ "nat j"]; simp)
    qed
  qed
  then show ?thesis using ok by blast
next
  case (W_dataloader v)
  then obtain v' where v': "dl_prepopulate (rt_entropy rt) (rt_gauss rt) cl env v wd = (Ok (), v', env', wd')"
    "w' = W_dataloader v'"
    using pre by (auto split: prod.splits)
  have "0 < dl_count v" using assms(2) W_dataloader by simp
  from dl_prepopulate_ok [OF assms(1) this v'(1)] show ?thesis using v'(2) by simp
next
  case (W_metadata v)
  then obtain v' where v': "md_prepopulate (rt_entropy rt) cl v wd = (Ok (), v', wd')" "w' = W_metadata v'"
    using pre by (auto split: prod.splits)
  have "0 \<le> md_size v" using assms(2) W_metadata by simp
  then obtain s' where s': "md_fill (rt_entropy rt) cl (md_size v) (md_keys v) (wd_store wd) = (Ok (), md_keys v, s')"
    "calm s'" "\<forall>x. x \<notin> addr ` set (md_keys v) \<longrightarrow> view s' x = view (wd_store wd) x"
    using md_fill_ok [OF assms(1)] by blast
  then show ?thesis using v' by (auto simp: md_prepopulate_def image_Un)
next
  case (W_mix name cs ws)
  then show ?thesis using assms(3) by simp
qed

lemma mix_prepopulate_tracked:
  assumes "mix_prepopulate rt cl env cs wd = (Ok (), cs', env', wd')" "calm (wd_store wd)"
    and "\<And>c env wd c' env' wd'. c \<in> set cs \<Longrightarrow> calm (wd_store wd) \<Longrightarrow>
      wl_prepopulate rt cl env c wd = (Ok (), c', env', wd') \<Longrightarrow>
      calm (wd_store wd') \<and> (\<forall>x. x \<notin> addr ` set (cleanup_keys c') \<longrightarrow>
        view (wd_store wd') x \<in> {view (wd_store wd) x, None})"
  shows "calm (wd_store wd') \<and> (\<forall>x. x \<notin> addr ` (\<Union>c \<in> set cs'. set (cleanup_keys c)) \<longrightarrow>
    view (wd_store wd') x \<in> {view (wd_store wd) x, None})"
  using assms
proof (induction cs arbitrary: env wd cs')
  case (Cons c cs)
  obtain c1 env1 wd1 cs1 where c: "wl_prepopulate rt cl env c wd = (Ok (), c1, env1, wd1)"
    "mix_prepopulate rt cl env1 cs wd1 = (Ok (), cs1, env', wd')" "cs' = c1 # cs1"
    using Cons.prems(1) by (auto split: prod.splits res.splits)
  have c1: "calm (wd_store wd1)" "\<forall>x. x \<notin> addr ` set (cleanup_keys c1) \<longrightarrow>
      view (wd_store wd1) x \<in> {view (wd_store wd) x, None}"
    using Cons.prems(3) [OF list.set_intros(1) Cons.prems(2) c(1)] by blast+
  have "calm (wd_store wd') \<and> (\<forall>x. x \<notin> addr ` (\<Union>c \<in> set cs1. set (cleanup_keys c)) \<longrightarrow>
      view (wd_store wd') x \<in> {view (wd_store wd1) x, None})"
    by (rule Cons.IH [OF c(2) c1(1)]) (erule Cons.prems(3) [OF list.set_intros(2)])
  moreover have "x \<notin> addr ` set (cleanup_keys c1) \<and> x \<notin> addr ` (\<Union>c \<in> set cs1. set (cleanup_keys c))"
    if "x \<notin> addr ` (\<Union>c \<in> set cs'. set (cleanup_keys c))" for x
    using that by (auto simp: c(3))
  ultimately show ?case using c1(2) by (metis insertE insertI1 insertI2 singletonD)
qed simp

lemma prepopulate_tracked:
  assumes "calm (wd_store wd)" "wl_fresh w" "wl_prepopulate rt cl env w wd = (Ok (), w', env', wd')"
  shows "calm (wd_store wd') \<and> (\<forall>x. x \<notin> addr ` set (cleanup_keys w') \<longrightarrow>
    view (wd_store wd') x \<in> {view (wd_store wd) x, None})"
  using assms
proof (induction w arbitrary: env wd w' env' wd')
  case (W_mix name cs ws)
  obtain cs1 where cs1: "mix_prepopulate rt cl env cs wd = (Ok (), cs1, env', wd')" "w' = W_mix name cs1 ws"
    using W_mix.prems by (auto split: prod.splits)
  have "calm (wd_store wd') \<and> (\<forall>x. x \<notin> addr ` (\<Union>c \<in> set cs1. set (cleanup_keys c)) \<longrightarrow>
    view (wd_store wd') x \<in> {view (wd_store wd) x, None})"
    by (rule mix_prepopulate_tracked [OF cs1(1) W_mix.prems(1)]) (use W_mix in auto)
  then show ?case by (simp add: cs1(2))
qed (erule (1) leaf_prepopulate_tracked; (assumption | simp))+

end

text \<open>C7. On a store that works, after a successful \<open>Prepopulate\<close> of any workload fresh from its
  factory, a mix of mixes included, \<open>Cleanup\<close> succeeds and leaves nothing behind: what is still in
  the bucket was there before, with the same content, and no object that the client does not
  address is touched. Two children of the same name, which share their keys, do no harm.\<close>

theorem prepopulate_cleanup:
  assumes "reliable_store cl view addr calm after" and "calm (wd_store wd)" and "wl_fresh w"
    and "wl_prepopulate rt cl env w wd = (Ok (), w1, env1, wd1)"
  shows "\<exists>wd2. wl_cleanup cl w1 wd1 = (Ok (), wd2) \<and> view (wd_store wd2) \<subseteq>\<^sub>m view (wd_store wd) \<and>
    (\<forall>x. x \<notin> range addr \<longrightarrow> view (wd_store wd2) x = view (wd_store wd) x)"
proof -
  have frame: "store_frame cl view addr" using assms(1) by (simp add: reliable_store_def)
  note t = reliable_store.prepopulate_tracked [OF assms]
  then obtain wd2 where wd2: "wl_cleanup cl w1 wd1 = (Ok (), wd2)"
    "\<forall>x. view (wd_store wd2) x = (if x \<in> addr ` set (cleanup_keys w1) then None else view (wd_store wd1) x)"
    using reliable_store.cleanup_calm [OF assms(1), of wd1 w1] by blast
  have "view (wd_store wd2) x \<in> {view (wd_store wd) x, None}" for x using wd2(2) t by auto
  then have "view (wd_store wd2) x = view (wd_store wd) x" if "x \<in> dom (view (wd_store wd2))" for x
    using that by (metis domIff insertE singletonD)
  then have "view (wd_store wd2) \<subseteq>\<^sub>m view (wd_store wd)" by (simp add: map_le_def)
  moreover have "view (wd_store wd2) x = view (wd_store wd) x" if "x \<notin> range addr" for x
  proof -
    note keeps = store_frame.unaddressed_invariant [OF frame that, of "view (wd_store wd) x"]
    have "view (wd_store wd1) x = view (wd_store wd) x"
      by (rule client_invariant.prepopulate_keeps [OF keeps assms(4) refl])
    from client_invariant.cleanup_keeps [OF keeps this, of w1] show ?thesis using wd2(1) by simp
  qed
  ultimately show ?thesis using wd2(1) by blast
qed

definition sample_runtime :: runtime where
  "sample_runtime = \<lparr>rt_entropy = fill_entropy [], rt_gauss = of_int, rt_source = race_source,
     rt_parse_float = (\<lambda>_. None), rt_parse_duration = (\<lambda>_. None), rt_error_text = (\<lambda>_. ''error''),
     rt_clock = (\<lambda>_. 1)\<rparr>"

definition mix_prepopulated :: any_workload where
  "mix_prepopulated = W_mix ''m'' [W_object Small_object (small_sample ''a''\<lparr>ow_written := 1\<rparr>),
     W_mix ''n'' [W_object Small_object (small_sample ''b''\<lparr>ow_written := 1\<rparr>)] [1]] [3, 1]"

lemma mix_sample_prepopulate:
  obtains wd where "wl_prepopulate sample_runtime fake_client race_env mix_sample race_world =
    (Ok (), mix_prepopulated, race_env, wd)"
proof -
  have k: "format_int 0 = ''0''" by code_simp
  show thesis
    by (rule that, simp add: mix_sample_def mix_prepopulated_def small_sample_def obj_prepopulate_def sample_runtime_def
        race_world_def key_for_def k fake_put_def fake_new_def check_fail_def)
qed

theorem prepopulate_cleanup_witness:
  "\<exists>wd1 wd2. wl_prepopulate sample_runtime fake_client race_env mix_sample race_world =
      (Ok (), mix_prepopulated, race_env, wd1) \<and>
    wl_cleanup fake_client mix_prepopulated wd1 = (Ok (), wd2) \<and>
    fake_view (wd_store wd2) \<subseteq>\<^sub>m fake_view (wd_store race_world)"
proof -
  obtain wd1 where pre: "wl_prepopulate sample_runtime fake_client race_env mix_sample race_world =
      (Ok (), mix_prepopulated, race_env, wd1)"
    by (rule mix_sample_prepopulate)
  have "wl_fresh mix_sample" by (simp add: mix_sample_def small_sample_def)
  then show ?thesis
    using prepopulate_cleanup [OF fake.reliable_store_axioms race_world_calm(1) _ pre] pre by blast
qed

theorem workload_keeps_type_witness:
  "\<exists>r wd1 wd2. run_step sample_runtime fake_client (Rn_launch race_env mix_prepopulated, wd1) (r, wd2) \<and>
    wl_type (run_workload r) = ''mix'' \<and> wl_wf (run_workload r)"
proof -
  obtain wd where pre: "wl_prepopulate sample_runtime fake_client race_env mix_sample race_world =
      (Ok (), mix_prepopulated, race_env, wd)"
    by (rule mix_sample_prepopulate)
  have "total_weight [3, 1] = 4" by (simp add: total_weight_def)
  then obtain r where "wl_start sample_runtime race_env mix_prepopulated wd = Ok (r, wd)"
    by (simp add: mix_prepopulated_def mix_start_def map_res_def)
  then have step: "run_step sample_runtime fake_client (Rn_launch race_env mix_prepopulated, wd) (r, wd)"
    by (rule run_step.launch)
  have "we_type mix_entry = ''mix''" by (simp add: mix_entry_def)
  then show ?thesis
    using workload_keeps_type [OF mix_sample_built pre r_into_rtranclp [of "run_step sample_runtime fake_client", OF step]] step
    by auto
qed

end
