(* ===== verification/Runner.thy ===== *)
theory Runner
  imports Mix
begin

section \<open>The runner (\<open>internal/runner/runner.go\<close>)\<close>

text \<open>
  \<open>Run\<close> checks its options, prepopulates the workloads one after the other, runs all of them
  concurrently for the warm-up with a recorder that drops every call, then again for the
  measurement. The two concurrent phases are a step relation; the context of a phase may end
  whenever every workload has returned.
\<close>

record run_options =
  ro_recorder :: env_recorder
  ro_workloads :: "any_workload list"
  ro_duration :: int
  ro_warmup :: int
  ro_threads :: int
  ro_part_size :: int
  ro_concurrency :: int
  ro_run_prefix :: string
  ro_seed :: int
  ro_prepopulate :: bool

definition run_check :: "run_options \<Rightarrow> unit res" where
  "run_check opt =
     (if ro_recorder opt = Rec_nil then Err (Plain_error ''runner: recorder required'')
      else if ro_duration opt \<le> 0 then Err (Plain_error ''runner: duration must be >0'')
      else if ro_workloads opt = [] then Err (Plain_error ''runner: no workloads'')
      else Ok ())"

definition mk_env :: "runtime \<Rightarrow> run_options \<Rightarrow> nat \<Rightarrow> env" where
  "mk_env rt opt i =
     \<lparr>en_recorder = ro_recorder opt, en_rand = Some (rt_source rt (worker_seed (ro_seed opt) (int i))),
      en_seed = ro_seed opt, en_threads = ro_threads opt, en_run_prefix = ro_run_prefix opt,
      en_part_size = ro_part_size opt, en_concurrency = ro_concurrency opt\<rparr>"

text \<open>A workload whose prepopulation fails is reported and run all the same.\<close>

fun prepopulate_all ::
  "runtime \<Rightarrow> 's client \<Rightarrow> run_options \<Rightarrow> nat \<Rightarrow> any_workload list \<Rightarrow> 's world
     \<Rightarrow> go_error list res \<times> any_workload list \<times> 's world" where
  "prepopulate_all rt cl opt i [] wd = (Ok [], [], wd)"
| "prepopulate_all rt cl opt i (w # ws) wd =
     (case wl_prepopulate rt cl (mk_env rt opt i) w wd of
        (Panic, w1, env1, wd1) \<Rightarrow> (Panic, w1 # ws, wd1)
      | (out, w1, env1, wd1) \<Rightarrow>
          (case prepopulate_all rt cl opt (Suc i) ws wd1 of
             (Ok es, ws1, wd2) \<Rightarrow> (Ok (case out of Err e \<Rightarrow> e # es | _ \<Rightarrow> es), w1 # ws1, wd2)
           | (r, ws1, wd2) \<Rightarrow> (r, w1 # ws1, wd2)))"

text \<open>\<open>runConcurrent\<close>: one goroutine for each workload, its environment with the given recorder.\<close>

definition launch_all :: "runtime \<Rightarrow> run_options \<Rightarrow> env_recorder \<Rightarrow> any_workload list \<Rightarrow> 's any_run list" where
  "launch_all rt opt rec ws =
     map2 (\<lambda>i w. Rn_launch ((mk_env rt opt i)\<lparr>en_recorder := rec\<rparr>) w) [0..<length ws] ws"

datatype 's runner =
    Warming "go_error list" "'s any_run list"
  | Measuring "go_error list" "'s any_run list"
  | Finished "go_error list" "any_workload list"

definition runner_start ::
  "runtime \<Rightarrow> 's client \<Rightarrow> run_options \<Rightarrow> 's world \<Rightarrow> 's runner res \<times> 's world" where
  "runner_start rt cl opt wd =
     (case run_check opt of
        Err e \<Rightarrow> (Err e, wd)
      | Panic \<Rightarrow> (Panic, wd)
      | Ok _ \<Rightarrow>
          (case if ro_prepopulate opt then prepopulate_all rt cl opt 0 (ro_workloads opt) wd
                else (Ok [], ro_workloads opt, wd) of
             (Err e, ws, wd1) \<Rightarrow> (Err e, wd1)
           | (Panic, ws, wd1) \<Rightarrow> (Panic, wd1)
           | (Ok es, ws, wd1) \<Rightarrow>
               (Ok (if ro_warmup opt > 0 then Warming es (launch_all rt opt Rec_discard ws)
                    else Measuring es (launch_all rt opt (ro_recorder opt) ws)), wd1)))"

inductive runner_step ::
  "runtime \<Rightarrow> 's client \<Rightarrow> run_options \<Rightarrow> 's runner \<times> 's world \<Rightarrow> 's runner \<times> 's world \<Rightarrow> bool"
  for rt cl opt where
  warm: "\<lbrakk>i < length rs; run_step rt cl (rs ! i, wd) (r, wd')\<rbrakk>
    \<Longrightarrow> runner_step rt cl opt (Warming es rs, wd) (Warming es (rs[i := r]), wd')"
| warmed: "\<forall>r \<in> set rs. run_returned r \<Longrightarrow>
    runner_step rt cl opt (Warming es rs, wd)
      (Measuring es (launch_all rt opt (ro_recorder opt) (map run_workload rs)), wd)"
| measure: "\<lbrakk>i < length rs; run_step rt cl (rs ! i, wd) (r, wd')\<rbrakk>
    \<Longrightarrow> runner_step rt cl opt (Measuring es rs, wd) (Measuring es (rs[i := r]), wd')"
| measured: "\<forall>r \<in> set rs. run_returned r \<Longrightarrow>
    runner_step rt cl opt (Measuring es rs, wd) (Finished es (map run_workload rs), wd)"

inductive_cases warmingE: "runner_step rt cl opt (Warming es rs, wd) (r', wd')"
inductive_cases measuringE: "runner_step rt cl opt (Measuring es rs, wd) (r', wd')"
inductive_cases finishedE: "runner_step rt cl opt (Finished es ws, wd) (r', wd')"

fun runner_workloads :: "'s runner \<Rightarrow> any_workload list" where
  "runner_workloads (Warming es rs) = map run_workload rs"
| "runner_workloads (Measuring es rs) = map run_workload rs"
| "runner_workloads (Finished es ws) = ws"

subsection \<open>What a run keeps\<close>

lemma launch_all_workloads [simp]: "map run_workload (launch_all rt opt rec ws) = ws"
  by (rule nth_equalityI) (simp_all add: launch_all_def)

lemma same_shapes_refl [simp]: "list_all2 same_shape ws ws"
  by (simp add: list_all2_refl)

lemma prepopulate_all_shape:
  "prepopulate_all rt cl opt i ws wd = (out, ws', wd') \<Longrightarrow> list_all2 same_shape ws ws'"
proof (induction ws arbitrary: i wd out ws' wd')
  case (Cons w ws)
  obtain o1 w1 env1 wd1 where w: "wl_prepopulate rt cl (mk_env rt opt i) w wd = (o1, w1, env1, wd1)"
    by (metis prod_cases4)
  note same = prepopulate_shape(1) [OF w]
  obtain o2 ws1 wd2 where ws: "prepopulate_all rt cl opt (Suc i) ws wd1 = (o2, ws1, wd2)" by (metis prod_cases3)
  note rest = Cons.IH [OF ws]
  show ?case
    using Cons.prems w ws same rest by (auto split: res.splits)
qed simp

lemma runner_step_shape:
  assumes "runner_step rt cl opt (r, wd) (r', wd')"
  shows "list_all2 same_shape (runner_workloads r) (runner_workloads r')"
proof -
  have "list_all2 same_shape (map run_workload rs) (map run_workload (rs[i := q]))"
    if "run_step rt cl (rs ! i, wd) (q, wd')" for rs i and q :: "'a any_run"
    using run_step_shape [OF that]
    by (auto simp: list_all2_conv_all_nth) (metis nth_list_update_eq nth_list_update_neq same_shape_refl)
  then show ?thesis
    using assms by (cases r) (auto elim!: warmingE measuringE finishedE)
qed

lemma same_shapes_trans:
  "list_all2 same_shape us vs \<Longrightarrow> list_all2 same_shape vs ws \<Longrightarrow> list_all2 same_shape us ws"
  by (rule list_all2_trans [of same_shape same_shape same_shape]) (auto intro: same_shape_trans)

lemma runner_steps_shape:
  assumes "(runner_step rt cl opt)\<^sup>*\<^sup>* (r, wd) (r', wd')"
  shows "list_all2 same_shape (runner_workloads r) (runner_workloads r')"
  using assms
  by (induction rule: rtranclp_induct2) (auto intro: same_shapes_trans dest: runner_step_shape)

subsection \<open>What a run does to the store\<close>

context client_invariant
begin

lemma prepopulate_all_keeps:
  "prepopulate_all rt cl opt i ws wd = (out, ws', wd') \<Longrightarrow> Q (wd_store wd) \<Longrightarrow> Q (wd_store wd')"
proof (induction ws arbitrary: i wd out ws' wd')
  case (Cons w ws)
  obtain o1 w1 env1 wd1 where w: "wl_prepopulate rt cl (mk_env rt opt i) w wd = (o1, w1, env1, wd1)"
    by (metis prod_cases4)
  have 1: "Q (wd_store wd1)" by (rule prepopulate_keeps [OF w Cons.prems(2)])
  obtain o2 ws1 wd2 where ws: "prepopulate_all rt cl opt (Suc i) ws wd1 = (o2, ws1, wd2)" by (metis prod_cases3)
  have "Q (wd_store wd2)" by (rule Cons.IH [OF ws 1])
  then show ?case using Cons.prems w ws 1 by (auto split: res.splits)
qed simp

lemma runner_start_keeps:
  assumes "runner_start rt cl opt wd = (out, wd')" "Q (wd_store wd)"
  shows "Q (wd_store wd')"
  using assms prepopulate_all_keeps [of rt opt 0 "ro_workloads opt" wd]
  by (auto simp: runner_start_def split: res.splits prod.splits if_splits)

lemma runner_step_keeps:
  assumes "runner_step rt cl opt (r, wd) (r', wd')" "Q (wd_store wd)"
  shows "Q (wd_store wd')"
  using assms by (cases r) (auto elim!: warmingE measuringE finishedE dest: run_step_keeps)

end

subsection \<open>The warm-up leaves no trace\<close>

text \<open>With the discarding recorder no step reaches the collector.\<close>

fun run_discards :: "'s any_run \<Rightarrow> bool" where
  "run_discards (Rn_launch env w) \<longleftrightarrow> en_recorder env = Rec_discard"
| "run_discards (Rn_object env kind st) \<longleftrightarrow> en_recorder env = Rec_discard"
| "run_discards (Rn_checkpoint env st) \<longleftrightarrow> en_recorder env = Rec_discard"
| "run_discards (Rn_lancedb env st) \<longleftrightarrow> en_recorder env = Rec_discard"
| "run_discards (Rn_dataloader env st) \<longleftrightarrow> en_recorder env = Rec_discard"
| "run_discards (Rn_metadata env st) \<longleftrightarrow> en_recorder env = Rec_discard"
| "run_discards (Rn_mix name rs ws) \<longleftrightarrow> (\<forall>r \<in> set rs. run_discards r)"
| "run_discards (Rn_done w err) \<longleftrightarrow> True"

lemma discard_record: "en_recorder env = Rec_discard \<Longrightarrow> env_record env r e wd = (Ok (), wd)"
  by (simp add: env_record_def)

lemma discard_record_call:
  "record_call env r name x latency n call wd = Ok wd' \<Longrightarrow> en_recorder env = Rec_discard \<Longrightarrow> wd_calls wd' = wd_calls wd"
  by (auto simp: record_call_def discard_record Let_def split: prod.splits if_splits)

lemma discard_shards: "shard_all env is wd = Ok wd' \<Longrightarrow> en_recorder env = Rec_discard \<Longrightarrow> wd' = wd"
  by (induction "is" arbitrary: wd) (auto simp: env_shard_for_def)

lemma discard_obj_step:
  assumes "obj_step kind entropy cl env l st = Ok st'" "en_recorder env = Rec_discard"
  shows "wd_calls (or_world st') = wd_calls (or_world st)"
  using assms
  by (cases l)
    (auto simp: call_step_def finish_call_def Let_def loop_step_world discard_record
      split: if_splits prod.splits res.splits worker_pc.splits)

lemma discard_ckpt_step:
  assumes "ckpt_step entropy cl env st st'" "en_recorder env = Rec_discard"
  shows "wd_calls (cr_world st') = wd_calls (cr_world st)"
  using assms
  by (cases rule: ckpt_stepE)
    (auto simp: set_pc_def read_latest_def upload_version_def Let_def discard_record split: prod.splits if_splits)

lemma discard_crew_step:
  assumes "crew_step act l st = Ok st'"
    and "\<And>i latency w k wd w' k' wd'. act i latency w k wd = Ok (w', k', wd') \<Longrightarrow> wd_calls wd' = wd_calls wd"
  shows "wd_calls (cw_world st') = wd_calls (cw_world st)"
  using assms by (auto simp: crew_step_def split: if_splits res.splits)

lemma discard_lc_act:
  assumes "lc_act entropy gauss cl env i latency w k wd = Ok (w', k', wd')" "en_recorder env = Rec_discard"
  shows "wd_calls wd' = wd_calls wd"
  using assms
  by (auto simp: lc_act_def head_turn_def range_turn_def list_manifest_def write_turn_def Let_def
      split: prod.splits if_splits lc_pc.splits res.splits dest!: discard_record_call)

lemma discard_dl_act:
  assumes "dl_act cl env i latency w k wd = Ok (w', k', wd')" "en_recorder env = Rec_discard"
  shows "wd_calls wd' = wd_calls wd"
  using assms
  by (auto simp: dl_act_def do_get_def do_range_get_def Let_def
      split: prod.splits if_splits dl_pc.splits res.splits dest!: discard_record_call)

lemma discard_md_act:
  assumes "md_act cl env i latency w k wd = Ok (w', k', wd')" "en_recorder env = Rec_discard"
  shows "wd_calls wd' = wd_calls wd"
  using assms
  by (auto simp: md_act_def list_turn_def md_head_def md_copy_def md_put_tags_def md_get_tags_def Let_def
      split: prod.splits if_splits md_pc.splits res.splits dest!: discard_record_call)

lemma discard_start:
  assumes "wl_start rt env w wd = Ok (r, wd')" "en_recorder env = Rec_discard"
  shows "wd_calls wd' = wd_calls wd \<and> run_discards r"
  using assms
  by (cases w)
    (auto simp: launched_def obj_start_def ckpt_start_def lc_start_def dl_start_def md_start_def mix_start_def
      Let_def map_res_def set_zip split: if_splits res.splits dest: discard_shards)

lemma run_step_discards:
  assumes "run_step rt cl (r, wd) (r', wd')" "run_discards r"
  shows "wd_calls wd' = wd_calls wd \<and> run_discards r'"
  using assms
proof (induction "(r, wd)" "(r', wd')" arbitrary: r wd r' wd' rule: run_step.induct)
  case (launch env w wd r wd')
  then show ?case using discard_start [OF launch(1)] by simp
next
  case (object kind env l wd st st')
  then show ?case using discard_obj_step [OF object(1)] by simp
next
  case (checkpoint env wd st st')
  then show ?case using discard_ckpt_step [OF checkpoint(1)] by simp
next
  case (lancedb env l wd st st')
  then have env: "en_recorder env = Rec_discard" by simp
  show ?case
    using discard_crew_step [OF lancedb(1)] discard_lc_act [OF _ env] env by fastforce
next
  case (dataloader env l wd st st')
  then have env: "en_recorder env = Rec_discard" by simp
  show ?case
    using discard_crew_step [OF dataloader(1)] discard_dl_act [OF _ env] env by fastforce
next
  case (metadata env l wd st st')
  then have env: "en_recorder env = Rec_discard" by simp
  show ?case
    using discard_crew_step [OF metadata(1)] discard_md_act [OF _ env] env by fastforce
next
  case (child i rs wd r wd' name ws)
  then have "wd_calls wd' = wd_calls wd \<and> run_discards r" by simp
  then show ?case using child.prems set_update_subset_insert [of rs i r] by auto
qed simp_all

definition warmup_quiet :: "collector_call list \<Rightarrow> 's runner \<times> 's world \<Rightarrow> bool" where
  "warmup_quiet calls st \<longleftrightarrow>
     (case fst st of
        Warming es rs \<Rightarrow> (\<forall>r \<in> set rs. run_discards r) \<and> wd_calls (snd st) = calls
      | _ \<Rightarrow> True)"

lemma warmup_quiet_step:
  assumes "warmup_quiet calls (r, wd)" "runner_step rt cl opt (r, wd) (r', wd')"
  shows "warmup_quiet calls (r', wd')"
proof (cases r)
  case (Warming es rs)
  from assms(2) consider
      i q where "r' = Warming es (rs[i := q])" "i < length rs" "run_step rt cl (rs ! i, wd) (q, wd')"
    | "r' = Measuring es (launch_all rt opt (ro_recorder opt) (map run_workload rs))"
    unfolding Warming by (rule warmingE)
  then show ?thesis
  proof cases
    case 1
    then have "rs ! i \<in> set rs" by simp
    then have "wd_calls wd' = wd_calls wd \<and> run_discards q"
      using assms(1) Warming run_step_discards [OF 1(3)] by (auto simp: warmup_quiet_def)
    then show ?thesis
      using assms(1) Warming 1 set_update_subset_insert [of rs i q] by (auto simp: warmup_quiet_def)
  qed (simp add: warmup_quiet_def)
qed (use assms(2) in \<open>auto simp: warmup_quiet_def elim!: measuringE finishedE\<close>)

lemma warmup_quiet_steps:
  assumes "(runner_step rt cl opt)\<^sup>*\<^sup>* (r, wd) (r', wd')" "warmup_quiet calls (r, wd)"
  shows "warmup_quiet calls (r', wd')"
  using assms by (induction rule: rtranclp_induct2) (auto intro: warmup_quiet_step)

lemma launch_all_discards: "r \<in> set (launch_all rt opt Rec_discard ws) \<Longrightarrow> run_discards r"
  by (auto simp: launch_all_def set_zip)

text \<open>C17. The warm-up leaves no trace in the metrics: as long as it lasts, under any interleaving of
  any workloads and whatever faults occur, no call reaches the collector, and the measurement
  starts from what the collector knew before the warm-up.\<close>

theorem warmup_is_silent:
  assumes "runner_start rt cl opt wd0 = (Ok st, wd1)"
    and "(runner_step rt cl opt)\<^sup>*\<^sup>* (st, wd1) (Warming es rs, wd2)"
  shows "wd_calls wd2 = wd_calls wd1 \<and>
    (\<forall>es' rs' wd3. runner_step rt cl opt (Warming es rs, wd2) (Measuring es' rs', wd3) \<longrightarrow>
       wd_calls wd3 = wd_calls wd1)"
proof -
  have "warmup_quiet (wd_calls wd1) (st, wd1)"
    using assms(1) launch_all_discards
    by (auto simp: runner_start_def warmup_quiet_def split: res.splits prod.splits if_splits)
  from warmup_quiet_steps [OF assms(2) this] have "wd_calls wd2 = wd_calls wd1"
    by (simp add: warmup_quiet_def)
  moreover have "wd_calls wd3 = wd_calls wd2"
    if "runner_step rt cl opt (Warming es rs, wd2) (Measuring es' rs', wd3)" for es' rs' wd3
    using that by (auto elim!: warmingE)
  ultimately show ?thesis by simp
qed

subsection \<open>The outcome of a run\<close>

lemma prepopulate_all_no_error: "prepopulate_all rt cl opt i ws wd = (out, ws', wd') \<Longrightarrow> out \<noteq> Err e"
  by (induction ws arbitrary: i wd out ws' wd') (auto split: prod.splits res.splits)

lemma runner_start_Ok:
  assumes "runner_start rt cl opt wd = (Ok st, wd1)"
  shows "list_all2 same_shape (ro_workloads opt) (runner_workloads st)"
  using assms prepopulate_all_shape [of rt cl opt 0 "ro_workloads opt" wd]
  by (auto simp: runner_start_def split: res.splits prod.splits if_splits)

text \<open>C24. \<open>Run\<close> fails exactly on a missing recorder, a non-positive duration or an empty list of
  workloads, and then before it has done anything; a prepopulation that fails is never an error of
  \<open>Run\<close>. When it finishes, it returns the workloads it was given, in their order, each with its
  name and type and still well-formed.\<close>

theorem runner_outcome:
  "((\<exists>e wd'. runner_start rt cl opt wd = (Err e, wd')) \<longleftrightarrow>
      ro_recorder opt = Rec_nil \<or> ro_duration opt \<le> 0 \<or> ro_workloads opt = []) \<and>
   (runner_start rt cl opt wd = (Err e, wd') \<longrightarrow> wd' = wd) \<and>
   (runner_start rt cl opt wd = (Ok st, wd1) \<and> (runner_step rt cl opt)\<^sup>*\<^sup>* (st, wd1) (Finished es ws, wd2) \<longrightarrow>
      list_all2 same_shape (ro_workloads opt) ws)"
proof (intro conjI impI)
  show "(\<exists>e wd'. runner_start rt cl opt wd = (Err e, wd')) \<longleftrightarrow>
      ro_recorder opt = Rec_nil \<or> ro_duration opt \<le> 0 \<or> ro_workloads opt = []"
    using prepopulate_all_no_error [of rt cl opt 0 "ro_workloads opt" wd]
    by (auto simp: runner_start_def run_check_def split: res.splits prod.splits)
  show "wd' = wd" if "runner_start rt cl opt wd = (Err e, wd')"
    using that prepopulate_all_no_error [of rt cl opt 0 "ro_workloads opt" wd]
    by (auto simp: runner_start_def run_check_def split: res.splits prod.splits if_splits)
  show "list_all2 same_shape (ro_workloads opt) ws"
    if "runner_start rt cl opt wd = (Ok st, wd1) \<and> (runner_step rt cl opt)\<^sup>*\<^sup>* (st, wd1) (Finished es ws, wd2)"
    using that runner_steps_shape [of rt cl opt st wd1 "Finished es ws" wd2]
      same_shapes_trans [OF runner_start_Ok [of rt cl opt wd st wd1]] by simp
qed

subsection \<open>A sample run\<close>

text \<open>One workload and no threads: \<open>Run\<close> of the workload returns its error at once.\<close>

definition run_sample :: "int \<Rightarrow> run_options" where
  "run_sample warmup = \<lparr>ro_recorder = Rec_collector, ro_workloads = [W_object Small_object race_wl],
     ro_duration = 1, ro_warmup = warmup, ro_threads = 0, ro_part_size = 0, ro_concurrency = 0,
     ro_run_prefix = ''run/'', ro_seed = 0, ro_prepopulate = False\<rparr>"

lemma no_threads_step:
  assumes "en_threads env \<le> 0"
  shows "\<exists>e. run_step rt cl (Rn_launch env (W_object kind w), wd) (Rn_done (W_object kind w) (Some e), wd)"
proof -
  obtain e where "wl_start rt env (W_object kind w) wd = Ok (Rn_done (W_object kind w) (Some e), wd)"
    using assms by (simp add: launched_def obj_start_def)
  then show ?thesis using run_step.launch by blast
qed

lemma run_sample_step:
  "\<exists>e. run_step sample_runtime fake_client
     (launch_all sample_runtime (run_sample warmup) rec [W_object Small_object race_wl] ! 0, race_world)
     (Rn_done (W_object Small_object race_wl) (Some e), race_world)"
  by (simp add: launch_all_def no_threads_step mk_env_def run_sample_def)

theorem warmup_is_silent_witness:
  "\<exists>st rs. runner_start sample_runtime fake_client (run_sample 1) race_world = (Ok st, race_world) \<and>
    (runner_step sample_runtime fake_client (run_sample 1))\<^sup>*\<^sup>* (st, race_world) (Warming [] rs, race_world) \<and>
    wd_calls race_world = []"
proof -
  let ?opt = "run_sample 1"
  let ?rs = "launch_all sample_runtime ?opt Rec_discard [W_object Small_object race_wl]"
  have start: "runner_start sample_runtime fake_client ?opt race_world = (Ok (Warming [] ?rs), race_world)"
    by (simp add: runner_start_def run_check_def run_sample_def)
  obtain e where step: "run_step sample_runtime fake_client (?rs ! 0, race_world)
      (Rn_done (W_object Small_object race_wl) (Some e), race_world)"
    using run_sample_step by blast
  have "0 < length ?rs" by (simp add: launch_all_def)
  from runner_step.warm [OF this step]
  have run: "(runner_step sample_runtime fake_client ?opt)\<^sup>*\<^sup>* (Warming [] ?rs, race_world)
      (Warming [] (?rs[0 := Rn_done (W_object Small_object race_wl) (Some e)]), race_world)"
    by (rule r_into_rtranclp)
  have "wd_calls race_world = wd_calls race_world" using warmup_is_silent [OF start run] by blast
  moreover have "wd_calls race_world = []" by (simp add: race_world_def)
  ultimately show ?thesis using start run by blast
qed

theorem runner_outcome_witness:
  "\<exists>st wd1 ws wd2. runner_start sample_runtime fake_client (run_sample 0) race_world = (Ok st, wd1) \<and>
    (runner_step sample_runtime fake_client (run_sample 0))\<^sup>*\<^sup>* (st, wd1) (Finished [] ws, wd2) \<and>
    list_all2 same_shape [W_object Small_object race_wl] ws"
proof -
  let ?opt = "run_sample 0"
  let ?rs = "launch_all sample_runtime ?opt Rec_collector [W_object Small_object race_wl] :: fake_state any_run list"
  have start: "runner_start sample_runtime fake_client ?opt race_world = (Ok (Measuring [] ?rs), race_world)"
    by (simp add: runner_start_def run_check_def run_sample_def)
  obtain e where step: "run_step sample_runtime fake_client (?rs ! 0, race_world)
      (Rn_done (W_object Small_object race_wl) (Some e), race_world)"
    using run_sample_step by blast
  have len: "length ?rs = 1" by (simp add: launch_all_def)
  let ?rs1 = "?rs[0 := Rn_done (W_object Small_object race_wl) (Some e)]"
  have one: "runner_step sample_runtime fake_client ?opt (Measuring [] ?rs, race_world) (Measuring [] ?rs1, race_world)"
    by (rule runner_step.measure [OF _ step]) (simp add: len)
  have "\<forall>r \<in> set ?rs1. run_returned r" by (simp add: launch_all_def)
  then have two: "runner_step sample_runtime fake_client ?opt (Measuring [] ?rs1, race_world)
      (Finished [] (map run_workload ?rs1), race_world)"
    by (rule runner_step.measured)
  have run: "(runner_step sample_runtime fake_client ?opt)\<^sup>*\<^sup>* (Measuring [] ?rs, race_world)
      (Finished [] (map run_workload ?rs1), race_world)"
    using one two by (meson converse_rtranclp_into_rtranclp r_into_rtranclp)
  have "ro_workloads ?opt = [W_object Small_object race_wl]" by (simp add: run_sample_def)
  then show ?thesis
    using runner_outcome [of sample_runtime fake_client ?opt race_world] start run by metis
qed

end
