(* ===== verification/Config.thy ===== *)
theory Config
  imports Plan
begin

section \<open>Configuration (\<open>internal/config\<close>, \<open>internal/cli/flags.go\<close>)\<close>

text \<open>
  \<open>Resolve\<close> merges three layers, flags over environment over plan, onto built-in defaults and
  records for each field which layer supplied it. The abstract specification is \<open>first_layer\<close>: the
  first layer that supplies a value wins. Each \<open>pick\<close> function of the code is proved to be an
  instance, malformed environment values counting as absent. \<open>time.ParseDuration\<close> and
  \<open>humanize.ParseBytes\<close> are parameters, as is the digest (\<open>json.Marshal\<close>, SHA-256, hex) taken of
  the canonical configuration.
\<close>

datatype source = Source_flag | Source_env | Source_plan | Source_default

fun source_name :: "source \<Rightarrow> string" where
  "source_name Source_flag = ''flag''"
| "source_name Source_env = ''env''"
| "source_name Source_plan = ''plan''"
| "source_name Source_default = ''default''"

type_synonym environ = "string \<Rightarrow> string option"

record overrides =
  ov_endpoint :: "string option"
  ov_bucket :: "string option"
  ov_region :: "string option"
  ov_duration :: "int option"
  ov_warmup :: "int option"
  ov_threads :: "int option"
  ov_part_size :: "int option"
  ov_concurrency :: "int option"
  ov_output_text :: "string option"
  ov_output_json :: "string option"
  ov_progress :: "bool option"
  ov_path_style :: "bool option"
  ov_tls_skip :: "bool option"
  ov_pool :: "int option"
  ov_http2 :: "bool option"
  ov_prepopulate :: "bool option"
  ov_cleanup :: "bool option"
  ov_seed :: "int option"
  ov_prefix :: "string option"
  ov_log_level :: "string option"
  ov_allow_shared :: "bool option"
  ov_max_retries :: "int option"

record config =
  cf_plan_name :: string
  cf_endpoint :: string
  cf_region :: string
  cf_bucket :: string
  cf_prefix :: string
  cf_path_style :: bool
  cf_tls_skip :: bool
  cf_pool :: int
  cf_http2 :: bool
  cf_duration :: int
  cf_warmup :: int
  cf_threads :: int
  cf_part_size :: int
  cf_concurrency :: int
  cf_prepopulate :: bool
  cf_cleanup :: bool
  cf_progress :: bool
  cf_seed :: int
  cf_log_level :: string
  cf_output_text :: string
  cf_output_json :: string
  cf_allow_shared :: bool
  cf_max_retries :: int
  cf_access_key :: string
  cf_secret_key :: string
  cf_workloads :: "workload_entry list"
  cf_sources :: "(string \<times> source) list"
  cf_hash :: string

subsection \<open>The layers of one field (\<open>resolve.go\<close>)\<close>

definition pick_string ::
  "string option \<Rightarrow> environ \<Rightarrow> string \<Rightarrow> string \<Rightarrow> string \<Rightarrow> string \<times> source" where
  "pick_string flag env key plan_val def =
     (case flag of
        Some v \<Rightarrow> (v, Source_flag)
      | None \<Rightarrow>
          (case env key of
             Some v \<Rightarrow> (v, Source_env)
           | None \<Rightarrow> if plan_val \<noteq> [] then (plan_val, Source_plan) else (def, Source_default)))"

definition pick_bool ::
  "bool option \<Rightarrow> environ \<Rightarrow> string \<Rightarrow> bool option \<Rightarrow> bool \<Rightarrow> bool \<times> source" where
  "pick_bool flag env key plan_val def =
     (let rest = (case plan_val of Some b \<Rightarrow> (b, Source_plan) | None \<Rightarrow> (def, Source_default)) in
      case flag of
        Some v \<Rightarrow> (v, Source_flag)
      | None \<Rightarrow>
          (case env key of
             Some v \<Rightarrow> (case parse_bool v of Some b \<Rightarrow> (b, Source_env) | None \<Rightarrow> rest)
           | None \<Rightarrow> rest))"

definition pick_int ::
  "int option \<Rightarrow> environ \<Rightarrow> string \<Rightarrow> int \<Rightarrow> int \<Rightarrow> int \<times> source" where
  "pick_int flag env key plan_val def =
     (let rest = (if plan_val \<noteq> 0 then (plan_val, Source_plan) else (def, Source_default)) in
      case flag of
        Some v \<Rightarrow> (v, Source_flag)
      | None \<Rightarrow>
          (case env key of
             Some v \<Rightarrow> (case parse_int v of Some n \<Rightarrow> (n, Source_env) | None \<Rightarrow> rest)
           | None \<Rightarrow> rest))"

definition pick_int64 ::
  "(string \<Rightarrow> int option) \<Rightarrow> int option \<Rightarrow> environ \<Rightarrow> string \<Rightarrow> int \<Rightarrow> int \<Rightarrow> int \<times> source" where
  "pick_int64 parse_bytes flag env key plan_val def =
     (let rest = (if plan_val \<noteq> 0 then (plan_val, Source_plan) else (def, Source_default)) in
      case flag of
        Some v \<Rightarrow> (v, Source_flag)
      | None \<Rightarrow>
          (case env key of
             Some v \<Rightarrow>
               (case parse_int v of
                  Some n \<Rightarrow> (n, Source_env)
                | None \<Rightarrow>
                    (case parse_bytes v of Some n \<Rightarrow> (wrap64 n, Source_env) | None \<Rightarrow> rest))
           | None \<Rightarrow> rest))"

definition pick_duration ::
  "(string \<Rightarrow> int option) \<Rightarrow> int option \<Rightarrow> environ \<Rightarrow> string \<Rightarrow> int \<Rightarrow> int \<Rightarrow> int \<times> source" where
  "pick_duration parse_duration flag env key plan_val def =
     (let rest = (if plan_val \<noteq> 0 then (plan_val, Source_plan) else (def, Source_default)) in
      case flag of
        Some v \<Rightarrow> (v, Source_flag)
      | None \<Rightarrow>
          (case env key of
             Some v \<Rightarrow> (case parse_duration v of Some d \<Rightarrow> (d, Source_env) | None \<Rightarrow> rest)
           | None \<Rightarrow> rest))"

subsection \<open>Per-workload overrides\<close>

definition normalize_workload_name :: "string \<Rightarrow> string" where
  "normalize_workload_name name = to_upper (replace_char CHR ''-'' CHR ''_'' name)"

definition env_parsed :: "(string \<Rightarrow> 'a option) \<Rightarrow> environ \<Rightarrow> string \<Rightarrow> 'a option" where
  "env_parsed parse env key = (case env key of Some v \<Rightarrow> parse v | None \<Rightarrow> None)"

definition workload_env :: "(string \<Rightarrow> int option) \<Rightarrow> environ \<Rightarrow> workload_entry \<Rightarrow> workload_entry" where
  "workload_env parse_duration env w =
     (let n = normalize_workload_name (we_name w);
          w1 = (case env_parsed parse_int env (''S3AIBENCH_WORKLOAD_'' @ n @ ''_THREADS'') of
                  Some t \<Rightarrow> w\<lparr>we_threads := t\<rparr> | None \<Rightarrow> w);
          w2 = (case env_parsed parse_duration env (''S3AIBENCH_WORKLOAD_'' @ n @ ''_DURATION'') of
                  Some d \<Rightarrow> w1\<lparr>we_duration := d\<rparr> | None \<Rightarrow> w1)
      in case env_parsed parse_int env (''S3AIBENCH_WORKLOAD_'' @ n @ ''_WEIGHT'') of
           Some x \<Rightarrow> w2\<lparr>we_weight := x\<rparr> | None \<Rightarrow> w2)"

definition apply_workload_env ::
  "(string \<Rightarrow> int option) \<Rightarrow> environ \<Rightarrow> workload_entry list \<Rightarrow> workload_entry list" where
  "apply_workload_env parse_duration env ws = map (workload_env parse_duration env) ws"

subsection \<open>The hash (\<open>config.go\<close>)\<close>

record canonical =
  ca_endpoint :: string
  ca_region :: string
  ca_bucket :: string
  ca_prefix :: string
  ca_path_style :: bool
  ca_tls_skip :: bool
  ca_pool :: int
  ca_http2 :: bool
  ca_duration :: int
  ca_warmup :: int
  ca_threads :: int
  ca_part_size :: int
  ca_concurrency :: int
  ca_prepopulate :: bool
  ca_cleanup :: bool
  ca_progress :: bool
  ca_seed :: int
  ca_log_level :: string
  ca_output_text :: string
  ca_output_json :: string
  ca_allow_shared :: bool
  ca_max_retries :: int
  ca_workloads :: "workload_entry list"

text \<open>\<open>workloadHash\<close> has the seven fields of a plan entry, so the entries stand for themselves.\<close>

definition canonical_of :: "config \<Rightarrow> canonical" where
  "canonical_of c =
     \<lparr>ca_endpoint = cf_endpoint c, ca_region = cf_region c, ca_bucket = cf_bucket c,
      ca_prefix = cf_prefix c, ca_path_style = cf_path_style c, ca_tls_skip = cf_tls_skip c,
      ca_pool = cf_pool c, ca_http2 = cf_http2 c, ca_duration = cf_duration c,
      ca_warmup = cf_warmup c, ca_threads = cf_threads c, ca_part_size = cf_part_size c,
      ca_concurrency = cf_concurrency c, ca_prepopulate = cf_prepopulate c,
      ca_cleanup = cf_cleanup c, ca_progress = cf_progress c, ca_seed = cf_seed c,
      ca_log_level = cf_log_level c, ca_output_text = cf_output_text c,
      ca_output_json = cf_output_json c, ca_allow_shared = cf_allow_shared c,
      ca_max_retries = cf_max_retries c, ca_workloads = cf_workloads c\<rparr>"

definition compute_hash :: "(canonical \<Rightarrow> string) \<Rightarrow> config \<Rightarrow> string" where
  "compute_hash digest c = ''sha256:'' @ digest (canonical_of c)"

subsection \<open>\<open>Resolve\<close>\<close>

record parsers =
  ps_bytes :: "string \<Rightarrow> int option"      \<comment> \<open>\<open>humanize.ParseBytes\<close>\<close>
  ps_duration :: "string \<Rightarrow> int option"   \<comment> \<open>\<open>time.ParseDuration\<close>, in nanoseconds\<close>

definition second :: int where "second = 1000000000"

definition resolve ::
  "(canonical \<Rightarrow> string) \<Rightarrow> parsers \<Rightarrow> plan \<Rightarrow> overrides \<Rightarrow> environ option \<Rightarrow> config" where
  "resolve digest ps p fl menv =
     (let env = (case menv of None \<Rightarrow> (\<lambda>_. None) | Some env \<Rightarrow> env);
          endpoint = pick_string (ov_endpoint fl) env ''S3AIBENCH_ENDPOINT'' (pl_endpoint p) '''';
          region = pick_string (ov_region fl) env ''S3AIBENCH_REGION'' (pl_region p) '''';
          bucket = pick_string (ov_bucket fl) env ''S3AIBENCH_BUCKET'' (pl_bucket p) '''';
          pfx = pick_string (ov_prefix fl) env ''S3AIBENCH_PREFIX'' '''' ''s3aibench/'';
          otext = pick_string (ov_output_text fl) env ''S3AIBENCH_OUTPUT_TEXT'' (po_text (pl_output p)) '''';
          ojson = pick_string (ov_output_json fl) env ''S3AIBENCH_OUTPUT_JSON'' (po_json (pl_output p)) '''';
          loglevel = pick_string (ov_log_level fl) env ''S3AIBENCH_LOG_LEVEL'' '''' ''info'';
          duration = pick_duration (ps_duration ps) (ov_duration fl) env ''S3AIBENCH_DURATION''
                       (pd_duration (pl_defaults p)) (60 * second);
          warmup = pick_duration (ps_duration ps) (ov_warmup fl) env ''S3AIBENCH_WARMUP''
                     (pd_warmup (pl_defaults p)) 0;
          threads = pick_int (ov_threads fl) env ''S3AIBENCH_THREADS'' (pd_threads (pl_defaults p)) 64;
          partsize = pick_int64 (ps_bytes ps) (ov_part_size fl) env ''S3AIBENCH_MULTIPART_PART_SIZE''
                       (pd_part_size (pl_defaults p)) (16 * 1024 * 1024);
          concurrency = pick_int (ov_concurrency fl) env ''S3AIBENCH_MULTIPART_CONCURRENCY''
                          (pd_concurrency (pl_defaults p)) 8;
          pool = pick_int (ov_pool fl) env ''S3AIBENCH_CONNECTION_POOL_SIZE'' (pl_pool p) 4096;
          seed = pick_int64 (ps_bytes ps) (ov_seed fl) env ''S3AIBENCH_RANDOM_SEED'' (pl_seed p) 0;
          pathstyle = pick_bool (ov_path_style fl) env ''S3AIBENCH_PATH_STYLE'' (pl_path_style p) False;
          tlsskip = pick_bool (ov_tls_skip fl) env ''S3AIBENCH_TLS_SKIP_VERIFY'' (pl_tls_skip p) False;
          http2 = pick_bool (ov_http2 fl) env ''S3AIBENCH_HTTP2'' (pl_http2 p) False;
          prepop = pick_bool (ov_prepopulate fl) env ''S3AIBENCH_PREPOPULATE'' (pl_prepopulate p) True;
          clean = pick_bool (ov_cleanup fl) env ''S3AIBENCH_CLEANUP'' (pl_cleanup p) True;
          progress = pick_bool (ov_progress fl) env ''S3AIBENCH_PROGRESS'' (Some (po_progress (pl_output p))) False;
          shared = pick_bool (ov_allow_shared fl) env ''S3AIBENCH_ALLOW_SHARED_BUCKET'' None False;
          retries = pick_int (ov_max_retries fl) env ''S3AIBENCH_MAX_RETRIES'' 0 1;
          c = \<lparr>cf_plan_name = pl_name p,
               cf_endpoint = fst endpoint, cf_region = fst region, cf_bucket = fst bucket,
               cf_prefix = fst pfx, cf_path_style = fst pathstyle, cf_tls_skip = fst tlsskip,
               cf_pool = fst pool, cf_http2 = fst http2, cf_duration = fst duration,
               cf_warmup = fst warmup, cf_threads = fst threads, cf_part_size = fst partsize,
               cf_concurrency = fst concurrency, cf_prepopulate = fst prepop,
               cf_cleanup = fst clean, cf_progress = fst progress, cf_seed = fst seed,
               cf_log_level = fst loglevel, cf_output_text = fst otext, cf_output_json = fst ojson,
               cf_allow_shared = fst shared, cf_max_retries = fst retries,
               cf_access_key = pl_access_key p, cf_secret_key = pl_secret_key p,
               cf_workloads = apply_workload_env (ps_duration ps) env (pl_workloads p),
               cf_sources =
                 [(''endpoint'', snd endpoint), (''region'', snd region), (''bucket'', snd bucket),
                  (''prefix'', snd pfx), (''output.text'', snd otext), (''output.json'', snd ojson),
                  (''log_level'', snd loglevel), (''defaults.duration'', snd duration),
                  (''defaults.warmup'', snd warmup), (''defaults.threads'', snd threads),
                  (''defaults.multipart_part_size'', snd partsize),
                  (''defaults.multipart_concurrency'', snd concurrency),
                  (''connection_pool_size'', snd pool), (''random_seed'', snd seed),
                  (''path_style'', snd pathstyle), (''tls_skip_verify'', snd tlsskip),
                  (''http2'', snd http2), (''prepopulate'', snd prepop), (''cleanup'', snd clean),
                  (''output.progress'', snd progress), (''allow_shared_bucket'', snd shared),
                  (''max_retries'', snd retries)],
               cf_hash = ''''\<rparr>
      in c\<lparr>cf_hash := compute_hash digest c\<rparr>)"

definition dump_sources :: "config \<Rightarrow> string list" where
  "dump_sources c =
     map (\<lambda>k. k @ '' (source='' @ (case map_of (cf_sources c) k of Some s \<Rightarrow> source_name s | None \<Rightarrow> []) @ '')'')
       (sort (map fst (cf_sources c)))"

subsection \<open>Flags (\<open>internal/cli/flags.go\<close>)\<close>

text \<open>
  The parsed flag set is a parameter: the value of each flag and whether the user set it. Only
  set flags become overrides.
\<close>

datatype flag_value = F_string string | F_int int | F_bool bool | F_duration int

record flag_set =
  fs_value :: "string \<Rightarrow> flag_value"
  fs_changed :: "string \<Rightarrow> bool"

definition set_if_changed :: "flag_set \<Rightarrow> string \<Rightarrow> (flag_value \<Rightarrow> 'a) \<Rightarrow> 'a option" where
  "set_if_changed fs name conv = (if fs_changed fs name then Some (conv (fs_value fs name)) else None)"

fun flag_string :: "flag_value \<Rightarrow> string" where
  "flag_string (F_string s) = s" | "flag_string _ = ''''"
fun flag_int :: "flag_value \<Rightarrow> int" where
  "flag_int (F_int n) = n" | "flag_int _ = 0"
fun flag_bool :: "flag_value \<Rightarrow> bool" where
  "flag_bool (F_bool b) = b" | "flag_bool _ = False"
fun flag_duration :: "flag_value \<Rightarrow> int" where
  "flag_duration (F_duration n) = n" | "flag_duration _ = 0"

definition flags_into_overrides :: "flag_set \<Rightarrow> overrides" where
  "flags_into_overrides fs =
     \<lparr>ov_endpoint = set_if_changed fs ''endpoint'' flag_string,
      ov_bucket = set_if_changed fs ''bucket'' flag_string,
      ov_region = set_if_changed fs ''region'' flag_string,
      ov_duration = set_if_changed fs ''duration'' flag_duration,
      ov_warmup = set_if_changed fs ''warmup'' flag_duration,
      ov_threads = set_if_changed fs ''threads'' flag_int,
      ov_part_size = set_if_changed fs ''multipart-part-size'' flag_int,
      ov_concurrency = set_if_changed fs ''multipart-concurrency'' flag_int,
      ov_output_text = set_if_changed fs ''output-text'' flag_string,
      ov_output_json = set_if_changed fs ''output-json'' flag_string,
      ov_progress = set_if_changed fs ''progress'' flag_bool,
      ov_path_style = set_if_changed fs ''path-style'' flag_bool,
      ov_tls_skip = set_if_changed fs ''tls-skip-verify'' flag_bool,
      ov_pool = set_if_changed fs ''connection-pool-size'' flag_int,
      ov_http2 = set_if_changed fs ''http2'' flag_bool,
      ov_prepopulate = set_if_changed fs ''prepopulate'' flag_bool,
      ov_cleanup = set_if_changed fs ''cleanup'' flag_bool,
      ov_seed = set_if_changed fs ''random-seed'' flag_int,
      ov_prefix = set_if_changed fs ''prefix'' flag_string,
      ov_log_level = set_if_changed fs ''log-level'' flag_string,
      ov_allow_shared = set_if_changed fs ''allow-shared-bucket'' flag_bool,
      ov_max_retries = set_if_changed fs ''max-retries'' flag_int\<rparr>"

subsection \<open>The specification: the first layer that supplies a value\<close>

fun first_layer :: "(source \<times> 'a option) list \<Rightarrow> 'a \<Rightarrow> 'a \<times> source" where
  "first_layer [] d = (d, Source_default)"
| "first_layer ((s, Some v) # r) d = (v, s)"
| "first_layer ((s, None) # r) d = first_layer r d"

definition layers :: "'a option \<Rightarrow> 'a option \<Rightarrow> 'a option \<Rightarrow> 'a \<Rightarrow> 'a \<times> source" where
  "layers flag env plan_val d =
     first_layer [(Source_flag, flag), (Source_env, env), (Source_plan, plan_val)] d"

lemma layers_simps [simp]:
  "layers (Some v) e p d = (v, Source_flag)"
  "layers None (Some v) p d = (v, Source_env)"
  "layers None None (Some v) d = (v, Source_plan)"
  "layers None None None d = (d, Source_default)"
  by (simp_all add: layers_def)

lemma layers_flag_iff:
  "snd (layers fl e q d) = Source_flag \<longleftrightarrow> fl \<noteq> None"
  by (cases fl; cases e; cases q) simp_all

definition nonempty :: "string \<Rightarrow> string option" where
  "nonempty s = (if s \<noteq> [] then Some s else None)"

definition nonzero :: "int \<Rightarrow> int option" where
  "nonzero n = (if n \<noteq> 0 then Some n else None)"

definition parse_int_or_bytes :: "(string \<Rightarrow> int option) \<Rightarrow> string \<Rightarrow> int option" where
  "parse_int_or_bytes pb v =
     (case parse_int v of Some n \<Rightarrow> Some n | None \<Rightarrow> map_option wrap64 (pb v))"

named_theorems pick_layers \<open>the pick functions as instances of the layer specification\<close>

lemma pick_string_layers [pick_layers]:
  "pick_string fl env k p d = layers fl (env_parsed Some env k) (nonempty p) d"
  by (cases fl; cases "env k") (auto simp: pick_string_def env_parsed_def nonempty_def)

lemma pick_bool_layers [pick_layers]:
  "pick_bool fl env k p d = layers fl (env_parsed parse_bool env k) p d"
  by (cases fl; cases "env k"; cases p)
    (auto simp: pick_bool_def env_parsed_def Let_def split: option.splits)

lemma pick_int_layers [pick_layers]:
  "pick_int fl env k p d = layers fl (env_parsed parse_int env k) (nonzero p) d"
  by (cases fl; cases "env k")
    (auto simp: pick_int_def env_parsed_def nonzero_def Let_def split: option.splits)

lemma pick_int64_layers [pick_layers]:
  "pick_int64 pb fl env k p d = layers fl (env_parsed (parse_int_or_bytes pb) env k) (nonzero p) d"
  by (cases fl; cases "env k")
    (auto simp: pick_int64_def env_parsed_def nonzero_def parse_int_or_bytes_def Let_def
      split: option.splits)

lemma pick_duration_layers [pick_layers]:
  "pick_duration pd fl env k p d = layers fl (env_parsed pd env k) (nonzero p) d"
  by (cases fl; cases "env k")
    (auto simp: pick_duration_def env_parsed_def nonzero_def Let_def split: option.splits)

subsection \<open>Properties\<close>

text \<open>A field has the value, and the recorded source, of a layer specification.\<close>

definition field_is :: "config \<Rightarrow> 'a \<Rightarrow> string \<Rightarrow> 'a \<times> source \<Rightarrow> bool" where
  "field_is c v key l \<longleftrightarrow> v = fst l \<and> map_of (cf_sources c) key = Some (snd l)"

lemma nonempty_Nil [simp]: "nonempty [] = None"
  by (simp add: nonempty_def)

lemma nonzero_0 [simp]: "nonzero 0 = None"
  by (simp add: nonzero_def)


text \<open>The source keys and the flags behind them.\<close>

definition flag_keys :: "(string \<times> string) list" where
  "flag_keys =
    [(''endpoint'', ''endpoint''),
     (''region'', ''region''),
     (''bucket'', ''bucket''),
     (''prefix'', ''prefix''),
     (''output.text'', ''output-text''),
     (''output.json'', ''output-json''),
     (''log_level'', ''log-level''),
     (''defaults.duration'', ''duration''),
     (''defaults.warmup'', ''warmup''),
     (''defaults.threads'', ''threads''),
     (''defaults.multipart_part_size'', ''multipart-part-size''),
     (''defaults.multipart_concurrency'', ''multipart-concurrency''),
     (''connection_pool_size'', ''connection-pool-size''),
     (''random_seed'', ''random-seed''),
     (''path_style'', ''path-style''),
     (''tls_skip_verify'', ''tls-skip-verify''),
     (''http2'', ''http2''),
     (''prepopulate'', ''prepopulate''),
     (''cleanup'', ''cleanup''),
     (''output.progress'', ''progress''),
     (''allow_shared_bucket'', ''allow-shared-bucket''),
     (''max_retries'', ''max-retries'')]"


text \<open>Exactly the flags the user set take part: a setting's source is \<open>flag\<close> if and only if its
  flag was changed on the command line, so flag defaults never shadow the other layers.\<close>

theorem flag_source_iff_changed:
  "\<forall>(key, flag) \<in> set flag_keys.
     map_of (cf_sources (resolve digest ps p (flags_into_overrides fs) (Some env))) key
        = Some Source_flag \<longleftrightarrow> fs_changed fs flag"
  by (simp add: flag_keys_def resolve_def Let_def pick_layers flags_into_overrides_def
      set_if_changed_def layers_flag_iff)

theorem flag_source_iff_changed_witness:
  "map_of (cf_sources (resolve (\<lambda>_. '''') \<lparr>ps_bytes = (\<lambda>_. None), ps_duration = (\<lambda>_. None)\<rparr> sample_plan
      (flags_into_overrides \<lparr>fs_value = (\<lambda>_. F_string ''b''), fs_changed = (\<lambda>f. f = ''bucket'')\<rparr>)
      (Some (\<lambda>_. None)))) ''bucket'' = Some Source_flag"
  using flag_source_iff_changed [of "\<lambda>_. ''''" "\<lparr>ps_bytes = (\<lambda>_. None), ps_duration = (\<lambda>_. None)\<rparr>" sample_plan
      "\<lparr>fs_value = (\<lambda>_. F_string ''b''), fs_changed = (\<lambda>f. f = ''bucket'')\<rparr>" "\<lambda>_. None"]
  by (simp add: flag_keys_def)

text \<open>The configuration hash is the digest of the canonical settings of the very configuration
  that carries it, and does not depend on the plan's name or credentials.\<close>

theorem config_hash_ignores_credentials:
  "cf_hash (resolve digest ps (p\<lparr>pl_name := n, pl_access_key := ak, pl_secret_key := sk\<rparr>) fl menv) =
     cf_hash (resolve digest ps p fl menv) \<and>
   cf_hash (resolve digest ps p fl menv) = compute_hash digest (resolve digest ps p fl menv)"
  by (simp add: resolve_def Let_def compute_hash_def canonical_of_def)

text \<open>C36. The per-workload overrides change threads, duration and weight only, each to the parsed
  environment value of its variable or not at all, and leave number, order and every other field
  of the workloads as the plan has them. Names that normalise alike share their overrides.\<close>

theorem workload_overrides:
  assumes "i < length ws"
  shows "length (apply_workload_env pd env ws) = length ws \<and>
    (let w = ws ! i; w' = apply_workload_env pd env ws ! i;
         var = (\<lambda>s. ''S3AIBENCH_WORKLOAD_'' @ normalize_workload_name (we_name w) @ s)
     in w' = w\<lparr>we_threads := (case env_parsed parse_int env (var ''_THREADS'') of
                   Some t \<Rightarrow> t | None \<Rightarrow> we_threads w),
               we_duration := (case env_parsed pd env (var ''_DURATION'') of
                   Some d \<Rightarrow> d | None \<Rightarrow> we_duration w),
               we_weight := (case env_parsed parse_int env (var ''_WEIGHT'') of
                   Some x \<Rightarrow> x | None \<Rightarrow> we_weight w)\<rparr>)"
  using assms by (simp add: apply_workload_env_def workload_env_def Let_def split: option.splits)

definition lance_query :: workload_entry where
  "lance_query = \<lparr>we_name = ''lance-query'', we_type = ''lancedb'', we_weight = 3, we_object_size = 0,
     we_threads = 8, we_duration = 0, we_params = []\<rparr>"

theorem workload_overrides_witness:
  "apply_workload_env (\<lambda>_. None)
     (\<lambda>k. if k = ''S3AIBENCH_WORKLOAD_LANCE_QUERY_THREADS'' then Some ''32'' else None) [lance_query]
   = [lance_query\<lparr>we_threads := 32\<rparr>]"
proof -
  let ?env = "\<lambda>k. if k = ''S3AIBENCH_WORKLOAD_LANCE_QUERY_THREADS'' then Some ''32'' else None"
  let ?var = "\<lambda>s. ''S3AIBENCH_WORKLOAD_'' @ normalize_workload_name (we_name lance_query) @ s"
  have t: "env_parsed parse_int ?env (?var ''_THREADS'') = Some 32"
    by code_simp
  have w: "env_parsed parse_int ?env (?var ''_WEIGHT'') = None"
    by code_simp
  have d: "env_parsed (\<lambda>_. None) ?env (?var ''_DURATION'') = None"
    by (simp only: env_parsed_def split: option.split) simp
  have r: "lance_query\<lparr>we_threads := 32, we_duration := we_duration lance_query,
      we_weight := we_weight lance_query\<rparr> = lance_query\<lparr>we_threads := 32\<rparr>"
    by (simp add: lance_query_def)
  have one: "0 < length [lance_query]" by simp
  note * = workload_overrides [OF one, of "\<lambda>_. None" ?env,
      unfolded Let_def nth_Cons_0 t w d option.case r]
  show ?thesis
  proof (rule nth_equalityI)
    show "length (apply_workload_env (\<lambda>_. None) ?env [lance_query]) =
        length [lance_query\<lparr>we_threads := 32\<rparr>]"
      by (rule trans [OF conjunct1 [OF *]]) simp
  next
    fix i assume "i < length (apply_workload_env (\<lambda>_. None) ?env [lance_query])"
    then have "i = 0" unfolding conjunct1 [OF *] by simp
    then show "apply_workload_env (\<lambda>_. None) ?env [lance_query] ! i =
        [lance_query\<lparr>we_threads := 32\<rparr>] ! i"
      using conjunct2 [OF *] by (simp only: nth_Cons_0)
  qed
qed

end
