(* ===== verification/Report.thy ===== *)
theory Report
  imports Config Metrics
begin

section \<open>Reports (\<open>internal/report\<close>, \<open>pkg/reportschema\<close>)\<close>

text \<open>
  The report built from a snapshot, its text form, the progress line and the sparkline. The writers
  behind an \<open>io.Writer\<close> are a parameter, one function from a string and a state to a result; so
  are the formats of times, durations and floats and the JSON encoder. A \<open>float64\<close> stands as the
  real number that exact arithmetic gives.
\<close>

subsection \<open>Schema\<close>

definition schema_version :: string where "schema_version = ''1.0.0''"

record histogram_out =
  hi_buckets :: "int list"
  hi_counts :: "int list"

record latency_out =
  la_p50 :: int
  la_p90 :: int
  la_p95 :: int
  la_p99 :: int
  la_p999 :: int
  la_max :: int
  la_mean :: int
  la_stddev :: int
  la_histogram :: histogram_out

record operation_out =
  oo_count :: int
  oo_errors :: int
  oo_bytes :: int
  oo_throughput :: real
  oo_latency :: latency_out

record workload_out =
  wo_name :: string
  wo_type :: string
  wo_operations :: "(string \<times> operation_out) list"

record error_out =
  eo_op :: string
  eo_code :: string
  eo_count :: int
  eo_sample :: string

record run_out =
  ru_plan :: string
  ru_version :: string
  ru_started :: string
  ru_ended :: string
  ru_endpoint :: string
  ru_bucket :: string
  ru_region :: string
  ru_hash :: string
  ru_sources :: "(string \<times> string) list"

record report =
  rp_version :: string
  rp_run :: run_out
  rp_workloads :: "workload_out list"
  rp_errors :: "error_out list"

subsection \<open>Building a report (\<open>report.go\<close>)\<close>

record printers =
  pr_time :: "int \<Rightarrow> string"            \<comment> \<open>UTC, RFC 3339 with nanoseconds\<close>
  pr_duration :: "int \<Rightarrow> string"
  pr_float :: "nat \<Rightarrow> real \<Rightarrow> string"   \<comment> \<open>\<open>%.nf\<close>\<close>
  pr_error :: "go_error \<Rightarrow> string"
  pr_nanos :: "real \<Rightarrow> int"

definition version_string :: "string \<Rightarrow> string \<Rightarrow> string" where
  "version_string version sha = version @ '' ('' @ sha @ '')''"

definition sources_as_strings :: "(string \<times> source) list \<Rightarrow> (string \<times> string) list" where
  "sources_as_strings m = map (\<lambda>(k, v). (k, source_name v)) m"

text \<open>The window of a snapshot, at least a nanosecond.\<close>

definition report_window :: "int \<Rightarrow> int \<Rightarrow> int" where
  "report_window t0 t1 = (let d = t1 - t0 in if d \<le> 0 then 1 else d)"

definition per_second :: "int \<Rightarrow> int \<Rightarrow> real" where
  "per_second n window = real_of_int n / (real_of_int window / 1000000000)"

definition report_operation :: "printers \<Rightarrow> 'h hdrlib \<Rightarrow> int \<Rightarrow> 'h opstats \<Rightarrow> operation_out" where
  "report_operation pr lib window st =
     (let (bounds, counts) = stats_histogram lib st in
      \<lparr>oo_count = st_count st, oo_errors = st_errors st, oo_bytes = st_bytes st,
       oo_throughput = per_second (st_bytes st) window,
       oo_latency =
         \<lparr>la_p50 = percentile lib st (1 / 2), la_p90 = percentile lib st (9 / 10),
          la_p95 = percentile lib st (95 / 100), la_p99 = percentile lib st (99 / 100),
          la_p999 = percentile lib st (999 / 1000), la_max = st_lat_max st,
          la_mean = mean_latency st, la_stddev = std_dev (pr_nanos pr) lib st,
          la_histogram = \<lparr>hi_buckets = bounds, hi_counts = counts\<rparr>\<rparr>\<rparr>)"

definition report_errors :: "printers \<Rightarrow> op \<Rightarrow> 'h opstats \<Rightarrow> error_out list" where
  "report_errors pr x st =
     map (\<lambda>(code, agg). \<lparr>eo_op = op_name x, eo_code = code, eo_count = ea_count agg,
                          eo_sample = pr_error pr (ea_sample agg)\<rparr>) (st_err_by_code st)"

text \<open>The name of a workload stands for its type.\<close>

definition report_workload :: "printers \<Rightarrow> 'h hdrlib \<Rightarrow> int \<Rightarrow> string \<times> 'h op_table \<Rightarrow> workload_out" where
  "report_workload pr lib window r =
     (case r of (name, ops) \<Rightarrow>
        \<lparr>wo_name = name, wo_type = name,
         wo_operations = map (\<lambda>(x, st). (op_name x, report_operation pr lib window st)) ops\<rparr>)"

definition build_report ::
  "printers \<Rightarrow> string \<Rightarrow> 'h hdrlib \<Rightarrow> 'h snapshot \<Rightarrow> config \<Rightarrow> report" where
  "build_report pr version lib snap cfg =
     (let window = report_window (sn_start snap) (sn_end snap) in
      \<lparr>rp_version = schema_version,
       rp_run =
         \<lparr>ru_plan = cf_plan_name cfg, ru_version = version, ru_started = pr_time pr (sn_start snap),
          ru_ended = pr_time pr (sn_end snap), ru_endpoint = cf_endpoint cfg, ru_bucket = cf_bucket cfg,
          ru_region = cf_region cfg, ru_hash = cf_hash cfg,
          ru_sources = sources_as_strings (cf_sources cfg)\<rparr>,
       rp_workloads = map (report_workload pr lib window) (sn_workloads snap),
       rp_errors = concat (map (\<lambda>(name, ops). concat (map (\<lambda>(x, st). report_errors pr x st) ops))
                     (sn_workloads snap))\<rparr>)"

subsection \<open>The text form (\<open>text.go\<close>)\<close>

definition newline :: string where "newline = [CHR 0x0A]"

text \<open>\<open>%-20s\<close>\<close>

definition pad_right :: "nat \<Rightarrow> string \<Rightarrow> string" where
  "pad_right n s = s @ replicate (n - length s) CHR '' ''"

definition operation_line :: "printers \<Rightarrow> string \<Rightarrow> operation_out \<Rightarrow> string" where
  "operation_line pr name o1 =
     ''  '' @ pad_right 20 name @ '' count='' @ format_int (oo_count o1) @
     '' errors='' @ format_int (oo_errors o1) @ '' bytes='' @ format_int (oo_bytes o1) @
     '' throughput='' @ pr_float pr 1 (oo_throughput o1) @ ''B/s p50='' @ format_int (la_p50 (oo_latency o1)) @
     ''ns p99='' @ format_int (la_p99 (oo_latency o1)) @ ''ns max='' @ format_int (la_max (oo_latency o1)) @
     ''ns'' @ newline"

definition workload_lines :: "printers \<Rightarrow> workload_out \<Rightarrow> string list" where
  "workload_lines pr wl =
     (''## workload: '' @ wo_name wl @ '' ('' @ wo_type wl @ '')'' @ newline) #
     map (\<lambda>x. operation_line pr x (the (map_of (wo_operations wl) x))) (sort (map fst (wo_operations wl)))"

definition error_line :: "error_out \<Rightarrow> string" where
  "error_line e =
     ''  '' @ pad_right 20 (eo_code e) @ '' op='' @ eo_op e @ '' count='' @ format_int (eo_count e) @
     '' msg='' @ eo_sample e @ newline"

text \<open>One string for each call of the writer.\<close>

definition report_lines :: "printers \<Rightarrow> report \<Rightarrow> string list" where
  "report_lines pr r =
     [''# s3aibench report (schema '' @ rp_version r @ '')'' @ newline,
      ''plan:       '' @ ru_plan (rp_run r) @ newline,
      ''version:    '' @ ru_version (rp_run r) @ newline,
      ''window:     '' @ ru_started (rp_run r) @ '' -> '' @ ru_ended (rp_run r) @ newline,
      ''endpoint:   '' @ ru_endpoint (rp_run r) @ '' (bucket='' @ ru_bucket (rp_run r) @ '' region='' @
        ru_region (rp_run r) @ '')'' @ newline,
      ''configHash: '' @ ru_hash (rp_run r) @ newline @ newline] @
     concat (map (workload_lines pr) (rp_workloads r)) @
     (if rp_errors r = [] then []
      else (newline @ ''## top errors'' @ newline) # map error_line (rp_errors r))"

type_synonym 'w writer = "string \<Rightarrow> 'w \<Rightarrow> unit res \<times> 'w"

fun write_all :: "'w writer \<Rightarrow> string list \<Rightarrow> 'w \<Rightarrow> unit res \<times> 'w" where
  "write_all wr [] w = (Ok (), w)"
| "write_all wr (l # ls) w =
     (case wr l w of
        (Ok _, w1) \<Rightarrow> write_all wr ls w1
      | (Err e, w1) \<Rightarrow> (Err e, w1)
      | (Panic, w1) \<Rightarrow> (Panic, w1))"

definition write_text :: "printers \<Rightarrow> 'w writer \<Rightarrow> report \<Rightarrow> 'w \<Rightarrow> unit res \<times> 'w" where
  "write_text pr wr r w = write_all wr (report_lines pr r) w"

text \<open>The encoder makes one call of the writer, or none if it fails.\<close>

definition write_json :: "(report \<Rightarrow> string res) \<Rightarrow> 'w writer \<Rightarrow> report \<Rightarrow> 'w \<Rightarrow> unit res \<times> 'w" where
  "write_json encode wr r w =
     (case encode r of Ok s \<Rightarrow> wr s w | Err e \<Rightarrow> (Err e, w) | Panic \<Rightarrow> (Panic, w))"

subsection \<open>Progress (\<open>progress.go\<close>)\<close>

text \<open>The unit a throughput is printed in: the scaled value, its decimals and the suffix.\<close>

definition bps_unit :: "real \<Rightarrow> real \<times> nat \<times> string" where
  "bps_unit bps =
     (let a = (if bps < 0 then - bps else bps) in
      if a \<ge> 1000000000 then (bps / 1000000000, 2, '' GB/s'')
      else if a \<ge> 1000000 then (bps / 1000000, 2, '' MB/s'')
      else if a \<ge> 1000 then (bps / 1000, 2, '' kB/s'')
      else (bps, 0, '' B/s''))"

definition human_bps :: "printers \<Rightarrow> real \<Rightarrow> string" where
  "human_bps pr bps = (case bps_unit bps of (x, n, unit) \<Rightarrow> pr_float pr n x @ unit)"

definition ticker_line :: "printers \<Rightarrow> totals \<Rightarrow> string" where
  "ticker_line pr t =
     (let window = report_window (to_start t) (to_end t) in
      ''progress t='' @ pr_duration pr (window - go_mod window 100000000) @
      '' ops='' @ format_int (to_count t) @ '' err='' @ format_int (to_errors t) @
      '' throughput='' @ human_bps pr (per_second (to_bytes t) window) @ newline)"

text \<open>The ticker ignores what the writer returns. The loop sees ticks, each with the totals of that
  moment, until the context is done.\<close>

definition ticker_emit :: "printers \<Rightarrow> 'w writer \<Rightarrow> totals \<Rightarrow> 'w \<Rightarrow> 'w" where
  "ticker_emit pr wr t w = snd (wr (ticker_line pr t) w)"

definition ticker_interval :: "int \<Rightarrow> int" where
  "ticker_interval n = (if n \<le> 0 then second else n)"

datatype ticker_event = Tick totals | Context_done

fun ticker_run :: "printers \<Rightarrow> 'w writer \<Rightarrow> ticker_event list \<Rightarrow> 'w \<Rightarrow> 'w" where
  "ticker_run pr wr [] w = w"
| "ticker_run pr wr (Context_done # es) w = w"
| "ticker_run pr wr (Tick t # es) w = ticker_run pr wr es (ticker_emit pr wr t w)"

text \<open>The eight blocks of the ramp in UTF-8. An index outside the ramp panics.\<close>

definition ramp_block :: "nat \<Rightarrow> string" where
  "ramp_block i = [CHR 0xE2, CHR 0x96, char_of (129 + i)]"

definition spark_level :: "int \<Rightarrow> int \<Rightarrow> int" where
  "spark_level m v = go_div (wrap64 (7 * v)) m"

fun spark_blocks :: "int \<Rightarrow> int list \<Rightarrow> string res" where
  "spark_blocks m [] = Ok ''''"
| "spark_blocks m (v # vs) =
     (if spark_level m v < 0 \<or> 7 < spark_level m v then Panic
      else case spark_blocks m vs of
             Ok s \<Rightarrow> Ok (ramp_block (nat (spark_level m v)) @ s)
           | Err e \<Rightarrow> Err e
           | Panic \<Rightarrow> Panic)"

definition sparkline :: "int list \<Rightarrow> string res" where
  "sparkline vs =
     (if vs = [] then Ok '''' else spark_blocks (foldl (\<lambda>m v. if v > m then v else m) 1 vs) vs)"

subsection \<open>A report says what was recorded\<close>

definition report_at :: "report \<Rightarrow> string \<Rightarrow> string \<Rightarrow> operation_out option" where
  "report_at r name x =
     Option.bind (map_of (map (\<lambda>w. (wo_name w, wo_operations w)) (rp_workloads r)) name) (\<lambda>ops. map_of ops x)"

lemma op_name_inject [simp]: "op_name x = op_name y \<longleftrightarrow> x = y"
  by (cases x; cases y) simp_all

lemma map_of_op_names: "map_of (map (\<lambda>(x, st). (op_name x, f st)) ops) (op_name x) = map_option f (map_of ops x)"
  by (induction ops) auto

lemma report_at_build:
  "report_at (build_report pr version lib snap cfg) name (op_name x) =
     map_option (report_operation pr lib (report_window (sn_start snap) (sn_end snap)))
       (stat_at (sn_workloads snap) name x)"
proof -
  have "map_of (map (\<lambda>w. (wo_name w, wo_operations w)) (map (report_workload pr lib window) t)) name =
      map_option (map (\<lambda>(x, st). (op_name x, report_operation pr lib window st))) (map_of t name)"
    for window and t :: "'a workload_table"
    by (induction t) (auto simp: report_workload_def)
  then show ?thesis
    by (cases "map_of (sn_workloads snap) name")
      (simp_all add: report_at_def build_report_def stat_at_def table_at_def map_of_op_names Let_def)
qed

lemma report_operation_fields [simp]:
  "oo_count (report_operation pr lib window st) = st_count st"
  "oo_errors (report_operation pr lib window st) = st_errors st"
  "oo_bytes (report_operation pr lib window st) = st_bytes st"
  "oo_throughput (report_operation pr lib window st) = per_second (st_bytes st) window"
  "la_max (oo_latency (report_operation pr lib window st)) = st_lat_max st"
  "la_mean (oo_latency (report_operation pr lib window st)) = mean_latency st"
  by (simp_all add: report_operation_def split: prod.split)

lemma report_window_pos: "1 \<le> report_window t0 t1"
  by (simp add: report_window_def Let_def)

text \<open>C18. A report is faithful to the run: it has an entry for a workload and an operation exactly if
  a call of that kind was recorded, and the entry gives the number of these calls, of the failed
  ones among them, their bytes (all modulo 2^64), their longest latency, and a throughput which,
  over the window of the snapshot, amounts to those bytes.\<close>

theorem report_exact:
  fixes lib :: "'h hdrlib"
  assumes "\<forall>xs. mset (vis xs) = mset xs"
  shows "let mine = calls_of name x cs;
      snap = collector_snapshot lib vis now (run_collector lib t0 cs)
    in case report_at (build_report pr version lib snap cfg) name (op_name x) of
        None \<Rightarrow> mine = []
      | Some o1 \<Rightarrow> mine \<noteq> [] \<and>
          oo_count o1 = wrap64 (int (length mine)) \<and>
          oo_errors o1 = wrap64 (int (length (filter (\<lambda>e. ev_err e \<noteq> None) mine))) \<and>
          oo_bytes o1 = wrap64 (\<Sum>e\<leftarrow>mine. ev_bytes e) \<and>
          la_max (oo_latency o1) = Max (insert 0 (ev_latency ` set mine)) \<and>
          oo_throughput o1 * (real_of_int (report_window (sn_start snap) now) / 1000000000) = real_of_int (oo_bytes o1)"
proof -
  define snap where "snap = collector_snapshot lib vis now (run_collector lib t0 cs)"
  have last: "sn_end snap = now" by (simp add: snap_def collector_snapshot_def)
  note s = snapshot_counts [OF assms, of lib now t0 cs name x, OF refl, folded snap_def]
  show ?thesis
  proof (cases "stat_at (sn_workloads snap) name x")
    case None
    with s show ?thesis by (simp add: of_op_recorded Let_def report_at_build flip: snap_def)
  next
    case (Some st)
    with s obtain st' where "calls_of name x cs \<noteq> []" "st = normalise_min st'"
      "counts lib st' (mset (calls_of name x cs))"
      by (auto simp: of_op_recorded)
    then have "calls_of name x cs \<noteq> [] \<and> st_count st = wrap64 (int (length (calls_of name x cs))) \<and>
        st_errors st = wrap64 (int (length (filter (\<lambda>e. ev_err e \<noteq> None) (calls_of name x cs)))) \<and>
        st_bytes st = wrap64 (\<Sum>e\<leftarrow>calls_of name x cs. ev_bytes e) \<and>
        st_lat_max st = Max (insert 0 (ev_latency ` set (calls_of name x cs)))"
      by (simp add: counts_def failed_def lat_max_def sum_mset_sum_list flip: mset_filter mset_map)
    moreover have "per_second n (report_window (sn_start snap) now) *
        (real_of_int (report_window (sn_start snap) now) / 1000000000) = real_of_int n" for n
      using report_window_pos [of "sn_start snap" now] by (simp add: per_second_def)
    ultimately show ?thesis
      by (simp add: Some report_at_build Let_def last flip: snap_def)
  qed
qed

text \<open>Each workload is listed once, and each of its operations once.\<close>

lemma report_distinct:
  assumes "table_wf (sn_workloads snap)"
  shows "distinct (map wo_name (rp_workloads (build_report pr version lib snap cfg)))"
    and "\<And>wl. wl \<in> set (rp_workloads (build_report pr version lib snap cfg)) \<Longrightarrow> distinct (map fst (wo_operations wl))"
proof -
  have "wo_name \<circ> report_workload pr lib window = fst" for window
    by (auto simp: fun_eq_iff report_workload_def)
  then show "distinct (map wo_name (rp_workloads (build_report pr version lib snap cfg)))"
    using assms by (simp add: build_report_def table_wf_def Let_def)
  have names: "distinct (map fst (map (\<lambda>(x, st). (op_name x, f st)) ops))" if "distinct (map fst ops)" for f ops
  proof -
    have "map fst (map (\<lambda>(x, st). (op_name x, f st)) ops) = map op_name (map fst ops)" by auto
    then show ?thesis using that by (simp add: distinct_map inj_on_def)
  qed
  show "distinct (map fst (wo_operations wl))"
    if wl: "wl \<in> set (rp_workloads (build_report pr version lib snap cfg))" for wl
  proof -
    obtain name ops where "(name, ops) \<in> set (sn_workloads snap)"
      "wl = report_workload pr lib (report_window (sn_start snap) (sn_end snap)) (name, ops)"
      using wl by (auto simp: build_report_def Let_def)
    moreover from this have "distinct (map fst ops)" using assms by (auto simp: table_wf_def)
    ultimately show ?thesis
      using names [of ops "report_operation pr lib (report_window (sn_start snap) (sn_end snap))"]
      by (simp add: report_workload_def del: map_map)
  qed
qed

subsection \<open>What reaches the writer\<close>

fun writes_state :: "'w writer \<Rightarrow> string list \<Rightarrow> 'w \<Rightarrow> 'w" where
  "writes_state wr [] w = w"
| "writes_state wr (l # ls) w = writes_state wr ls (snd (wr l w))"

lemma write_all_prefix:
  assumes "write_all wr ls w = (out, w')"
  shows "(out = Ok () \<and> w' = writes_state wr ls w \<and>
      (\<forall>n < length ls. fst (wr (ls ! n) (writes_state wr (take n ls) w)) = Ok ())) \<or>
    (\<exists>k < length ls. out \<noteq> Ok () \<and> wr (ls ! k) (writes_state wr (take k ls) w) = (out, w') \<and>
      (\<forall>n < k. fst (wr (ls ! n) (writes_state wr (take n ls) w)) = Ok ()))"
  using assms
proof (induction ls arbitrary: w)
  case (Cons l ls)
  obtain o1 w1 where l: "wr l w = (o1, w1)" by fastforce
  show ?case
  proof (cases "o1 = Ok ()")
    case True
    then have "write_all wr ls w1 = (out, w')" using Cons.prems l by simp
    from Cons.IH [OF this] show ?thesis
    proof (elim disjE exE conjE)
      assume "out = Ok ()" "w' = writes_state wr ls w1"
        "\<forall>n < length ls. fst (wr (ls ! n) (writes_state wr (take n ls) w1)) = Ok ()"
      then show ?thesis using l True by (auto simp: less_Suc_eq_0_disj)
    next
      fix k
      assume k: "k < length ls" "out \<noteq> Ok ()" "wr (ls ! k) (writes_state wr (take k ls) w1) = (out, w')"
        "\<forall>n < k. fst (wr (ls ! n) (writes_state wr (take n ls) w1)) = Ok ()"
      then show ?thesis using l True by (intro disjI2 exI [of _ "Suc k"]) (auto simp: less_Suc_eq_0_disj)
    qed
  next
    case False
    then have "out = o1" "w' = w1" using Cons.prems l by (cases o1; simp)+
    then show ?thesis using l False by (intro disjI2 exI [of _ 0]) simp
  qed
qed simp

text \<open>C35. \<open>WriteText\<close> hands the report to the writer line by line and stops at the first write that
  fails: then it returns that very error and has written exactly the lines before it; otherwise
  it has written all lines and succeeds. The lines of a workload are its heading and its
  operations, each once, in the order of their names.\<close>

theorem write_text_stops:
  assumes "write_text pr wr r w = (out, w')"
  shows "((out = Ok () \<and> w' = writes_state wr (report_lines pr r) w) \<or>
     (\<exists>k < length (report_lines pr r). out \<noteq> Ok () \<and>
        wr (report_lines pr r ! k) (writes_state wr (take k (report_lines pr r)) w) = (out, w') \<and>
        (\<forall>n < k. fst (wr (report_lines pr r ! n) (writes_state wr (take n (report_lines pr r)) w)) = Ok ()))) \<and>
    (\<forall>wl. distinct (map fst (wo_operations wl)) \<longrightarrow>
      (\<exists>xs. sorted (map fst xs) \<and> mset xs = mset (wo_operations wl) \<and>
        tl (workload_lines pr wl) = map (\<lambda>(x, o1). operation_line pr x o1) xs))"
proof (intro conjI allI impI)
  show "(out = Ok () \<and> w' = writes_state wr (report_lines pr r) w) \<or>
     (\<exists>k < length (report_lines pr r). out \<noteq> Ok () \<and>
        wr (report_lines pr r ! k) (writes_state wr (take k (report_lines pr r)) w) = (out, w') \<and>
        (\<forall>n < k. fst (wr (report_lines pr r ! n) (writes_state wr (take n (report_lines pr r)) w)) = Ok ()))"
    using write_all_prefix [OF assms [unfolded write_text_def]] by blast
next
  fix wl :: workload_out
  assume d: "distinct (map fst (wo_operations wl))"
  let ?ops = "wo_operations wl"
  define xs where "xs = map (\<lambda>x. (x, the (map_of ?ops x))) (sort (map fst ?ops))"
  have "mset xs = mset (map (\<lambda>x. (x, the (map_of ?ops x))) (map fst ?ops))"
    by (simp only: xs_def mset_map mset_sort)
  also have "map (\<lambda>x. (x, the (map_of ?ops x))) (map fst ?ops) = ?ops"
    unfolding map_map using d by (intro map_idI) (auto simp: map_of_eq_Some_iff)
  finally have "mset xs = mset ?ops" .
  moreover have "map fst xs = sort (map fst ?ops)" by (simp add: xs_def comp_def)
  ultimately show "\<exists>xs. sorted (map fst xs) \<and> mset xs = mset ?ops \<and>
      tl (workload_lines pr wl) = map (\<lambda>(x, o1). operation_line pr x o1) xs"
    by (intro exI [of _ xs]) (simp add: workload_lines_def xs_def comp_def)
qed

subsection \<open>The sparkline\<close>

lemma foldl_max: "foldl (\<lambda>m v. if v > m then v else m) a vs = Max (insert a (set vs))" for a :: int
proof (induction vs arbitrary: a)
  case (Cons v vs)
  have "(if v > a then v else a) = max a v" by simp
  then show ?case using Cons [of "max a v"] by (cases "vs = []") (simp_all add: max.assoc insert_commute)
qed simp

lemma spark_level_nonneg:
  assumes "0 \<le> v" "v \<le> m" "1 \<le> m" "7 * v < 2 ^ 63"
  shows "spark_level m v = 7 * v div m" and "0 \<le> 7 * v div m" and "7 * v div m \<le> 7"
proof -
  have "in_int64 (7 * v)" using assms by (simp add: in_int64_iff)
  then show "spark_level m v = 7 * v div m" using assms by (simp add: spark_level_def go_div_nonneg)
  show "0 \<le> 7 * v div m" using assms by (simp add: pos_imp_zdiv_nonneg_iff)
  have "7 * v div m \<le> 7 * m div m" using assms by (intro zdiv_mono1) auto
  then show "7 * v div m \<le> 7" using assms by simp
qed

text \<open>A timeline of counts up to 2^63/7 is drawn as one block for each value, of height
  \<open>7 * v div max\<close>: never outside the ramp, monotone in the value, the full block for the maximum and
  the lowest for zero. Beyond, \<open>Sparkline\<close> may panic: on a negative value, and on \<open>2^62\<close>, whose
  product with seven wraps around.\<close>

theorem sparkline_levels:
  assumes "\<forall>v \<in> set vs. 0 \<le> v \<and> 7 * v < 2 ^ 63"
  shows "(let m = Max (insert 1 (set vs)) in
      sparkline vs = Ok (concat (map (\<lambda>v. ramp_block (nat (7 * v div m))) vs)) \<and>
      (\<forall>v \<in> set vs. nat (7 * v div m) \<le> 7 \<and> (v = m \<longrightarrow> nat (7 * v div m) = 7) \<and> (v = 0 \<longrightarrow> nat (7 * v div m) = 0)) \<and>
      (\<forall>u \<in> set vs. \<forall>v \<in> set vs. u \<le> v \<longrightarrow> 7 * u div m \<le> 7 * v div m)) \<and>
    sparkline [- 1] = Panic \<and> sparkline [2 ^ 62] = Panic"
proof -
  define m where "m = Max (insert 1 (set vs))"
  have m: "1 \<le> m" "\<And>v. v \<in> set vs \<Longrightarrow> v \<le> m" by (simp_all add: m_def)
  have "spark_blocks m us = Ok (concat (map (\<lambda>v. ramp_block (nat (7 * v div m))) us))" if "set us \<subseteq> set vs" for us
    using that
  proof (induction us)
    case (Cons u us)
    then have "0 \<le> u" "u \<le> m" "7 * u < 2 ^ 63" using assms m(2) by auto
    note level = spark_level_nonneg [OF this(1,2) m(1) this(3)]
    show ?case using Cons level by simp
  qed simp
  then have draw: "sparkline vs = Ok (concat (map (\<lambda>v. ramp_block (nat (7 * v div m))) vs))"
    by (cases "vs = []") (simp_all add: sparkline_def foldl_max flip: m_def)
  have range: "nat (7 * v div m) \<le> 7 \<and> (v = m \<longrightarrow> nat (7 * v div m) = 7) \<and> (v = 0 \<longrightarrow> nat (7 * v div m) = 0)"
    if "v \<in> set vs" for v
    using spark_level_nonneg(3) [of v m] assms m that by auto
  have mono: "7 * u div m \<le> 7 * v div m" if "u \<le> v" for u v
    using that m(1) by (intro zdiv_mono1) auto
  have neg: "sparkline [- 1] = Panic" by (simp add: sparkline_def spark_level_def go_div_def wrap64_def)
  have over: "sparkline [2 ^ 62] = Panic"
  proof -
    have "wrap64 (7 * 2 ^ 62) = - (2 ^ 62)" by (simp add: wrap64_def)
    then show ?thesis by (simp add: sparkline_def spark_level_def go_div_def wrap64_def)
  qed
  have "(\<forall>v \<in> set vs. nat (7 * v div m) \<le> 7 \<and> (v = m \<longrightarrow> nat (7 * v div m) = 7) \<and> (v = 0 \<longrightarrow> nat (7 * v div m) = 0)) \<and>
      (\<forall>u \<in> set vs. \<forall>v \<in> set vs. u \<le> v \<longrightarrow> 7 * u div m \<le> 7 * v div m)"
    by (rule conjI, rule ballI, erule range, intro ballI impI, rule mono)
  then show ?thesis
    unfolding Let_def m_def [symmetric] using draw neg over by (intro conjI) simp_all
qed

theorem sparkline_levels_witness: "sparkline [0, 2, 4] = Ok (ramp_block 0 @ ramp_block 3 @ ramp_block 7)"
proof -
  have small: "\<forall>v \<in> set [0, 2, 4 :: int]. 0 \<le> v \<and> 7 * v < 2 ^ 63" by simp
  have m: "Max (insert 1 (set [0, 2, 4])) = (4 :: int)" by simp
  have "sparkline [0, 2, 4] = Ok (concat (map (\<lambda>v. ramp_block (nat (7 * v div 4))) [0, 2, 4]))"
    using sparkline_levels [OF small] unfolding m Let_def by (elim conjE)
  then show ?thesis by simp
qed

definition plain_printers :: printers where
  "plain_printers = \<lparr>pr_time = format_int, pr_duration = format_int, pr_float = (\<lambda>n x. format_int \<lfloor>x\<rfloor>),
     pr_error = (\<lambda>_. ''error''), pr_nanos = floor\<rparr>"

theorem report_exact_witness:
  "\<forall>cfg :: config. \<exists>o1. report_at (build_report plain_printers ''dev'' exact_hdr
      (collector_snapshot exact_hdr rev 9 (run_collector exact_hdr 0 two_workers)) cfg) ''b'' ''put'' = Some o1 \<and>
    oo_count o1 = 1 \<and> oo_errors o1 = 0 \<and> oo_bytes o1 = 7"
proof
  fix cfg :: config
  show "\<exists>o1. report_at (build_report plain_printers ''dev'' exact_hdr
      (collector_snapshot exact_hdr rev 9 (run_collector exact_hdr 0 two_workers)) cfg) ''b'' ''put'' = Some o1 \<and>
    oo_count o1 = 1 \<and> oo_errors o1 = 0 \<and> oo_bytes o1 = 7"
    using report_exact [of rev "''b''" OpPut two_workers exact_hdr 9 0 plain_printers "''dev''" cfg]
    by (simp add: two_workers_def calls_of_def Let_def split: option.splits)
qed

text \<open>A writer that accepts one line and then reports an error.\<close>

definition one_line_writer :: "string list writer" where
  "one_line_writer l w = (if w = [] then (Ok (), [l]) else (Err (Plain_error ''disk full''), w))"

definition empty_report :: report where
  "empty_report = \<lparr>rp_version = schema_version,
     rp_run = \<lparr>ru_plan = ''p'', ru_version = '''', ru_started = '''', ru_ended = '''', ru_endpoint = '''',
       ru_bucket = '''', ru_region = '''', ru_hash = '''', ru_sources = []\<rparr>,
     rp_workloads = [], rp_errors = []\<rparr>"

theorem write_text_stops_witness:
  "\<exists>k. write_text plain_printers one_line_writer empty_report [] =
      (Err (Plain_error ''disk full''), [hd (report_lines plain_printers empty_report)]) \<and>
    one_line_writer (report_lines plain_printers empty_report ! k)
      (writes_state one_line_writer (take k (report_lines plain_printers empty_report)) []) =
      (Err (Plain_error ''disk full''), [hd (report_lines plain_printers empty_report)])"
proof -
  have run: "write_text plain_printers one_line_writer empty_report [] =
      (Err (Plain_error ''disk full''), [hd (report_lines plain_printers empty_report)])"
    by (simp add: write_text_def report_lines_def one_line_writer_def)
  show ?thesis using write_text_stops [OF run] run by auto
qed

end
