(* ===== verification/Cli.thy ===== *)
theory Cli
  imports Runner Report
begin

section \<open>The commands (\<open>internal/cli\<close>, \<open>cmd/s3aibench\<close>)\<close>

text \<open>
  The commands behind the command line: loading and resolving a plan, the registry, the client, and
  \<open>validate\<close>, \<open>prepopulate\<close>, \<open>cleanup\<close> and \<open>run\<close>. The parsing of the command line, the files, the
  profiling server and the run identifiers (ULIDs) come from libraries and are parameters. A run is
  a state machine around the steps of the runner; the progress ticker, which only writes to the
  standard output, is not part of it.
\<close>

subsection \<open>Common parts (\<open>common.go\<close>)\<close>

record 'b loader =
  ld_read :: "string \<Rightarrow> 'b res"
  ld_yaml :: "'b \<Rightarrow> plan res"
  ld_digest :: "canonical \<Rightarrow> string"
  ld_parsers :: parsers

text \<open>The warnings of the validation are the second component.\<close>

definition load_and_resolve ::
  "'b loader \<Rightarrow> string \<Rightarrow> overrides \<Rightarrow> environ \<Rightarrow> (plan \<times> config) res \<times> string list" where
  "load_and_resolve ld path fl env =
     (case load_plan (ld_read ld) (ld_yaml ld) path of
        Err e \<Rightarrow> (Err e, [])
      | Panic \<Rightarrow> (Panic, [])
      | Ok p \<Rightarrow>
          (case validate (Some p) True of
             (Err e, warnings) \<Rightarrow> (Err e, warnings)
           | (Panic, warnings) \<Rightarrow> (Panic, warnings)
           | (Ok _, warnings) \<Rightarrow> (Ok (p, resolve (ld_digest ld) (ld_parsers ld) p fl (Some env)), warnings)))"

datatype log_level = Level_debug | Level_info | Level_warn | Level_error

definition parse_log_level :: "string \<Rightarrow> log_level" where
  "parse_log_level s =
     (let l = to_lower s in
      if l = ''debug'' then Level_debug
      else if l = ''warn'' \<or> l = ''warning'' then Level_warn
      else if l = ''error'' then Level_error
      else Level_info)"

definition resolved_lines :: "config \<Rightarrow> string list" where
  "resolved_lines cfg =
     map (\<lambda>l. l @ newline) (dump_sources cfg) @ [''config_hash='' @ cf_hash cfg @ newline]"

definition print_resolved :: "'w writer \<Rightarrow> config \<Rightarrow> 'w \<Rightarrow> 'w" where
  "print_resolved wr cfg w = writes_state wr (resolved_lines cfg) w"

subsection \<open>The registry (\<open>run.go\<close>)\<close>

fun register_all :: "(string \<times> 'w factory) list \<Rightarrow> 'w registry \<Rightarrow> unit res \<times> 'w registry" where
  "register_all [] reg = (Ok (), reg)"
| "register_all ((name, f) # fs) reg =
     (case register_type name f reg of
        (Ok _, reg1) \<Rightarrow> register_all fs reg1
      | r \<Rightarrow> r)"

text \<open>Every command starts from an empty registry. The mix factory builds through the registry.\<close>

definition register_workloads :: "runtime \<Rightarrow> any_workload registry \<Rightarrow> unit res \<times> any_workload registry" where
  "register_workloads rt reg =
     register_all (leaf_registry rt @ [(mix_type_name, mix_factory (build_any rt))]) (reset_registry reg)"

lemma register_workloads_ok:
  "register_workloads rt reg = (Ok (), leaf_registry rt @ [(mix_type_name, mix_factory (build_any rt))])"
  by (simp add: register_workloads_def leaf_registry_def type_names reset_registry_def register_type_def)

fun build_all :: "any_workload registry \<Rightarrow> workload_entry list \<Rightarrow> any_workload list res" where
  "build_all reg [] = Ok []"
| "build_all reg (w # ws) =
     (case build reg w of
        Err e \<Rightarrow> Err (Wrap_error (''build workload '' @ we_name w) e)
      | Panic \<Rightarrow> Panic
      | Ok x \<Rightarrow> (case build_all reg ws of Ok xs \<Rightarrow> Ok (x # xs) | Err e \<Rightarrow> Err e | Panic \<Rightarrow> Panic))"

subsection \<open>The client\<close>

definition build_aws_client :: "config \<Rightarrow> (aws \<times> transport) res" where
  "build_aws_client cfg =
     (if cf_access_key cfg = [] \<or> cf_secret_key cfg = []
      then Err (Plain_error ''no credentials resolved from plan; set AWS_ACCESS_KEY_ID/AWS_SECRET_ACCESS_KEY or inline access_key/secret_key'')
      else Ok (new_aws \<lparr>ac_endpoint = cf_endpoint cfg, ac_region = cf_region cfg, ac_bucket = cf_bucket cfg,
                 ac_prefix = cf_prefix cfg, ac_path_style = cf_path_style cfg,
                 ac_credentials = (cf_access_key cfg, cf_secret_key cfg),
                 ac_part_size = cf_part_size cfg, ac_concurrency = cf_concurrency cfg,
                 ac_max_retries = cf_max_retries cfg\<rparr>,
               new_transport \<lparr>to_max_idle = cf_pool cfg, to_tls_skip = cf_tls_skip cfg, to_http2 = cf_http2 cfg\<rparr>))"

definition aws_clients :: "'s sdk \<Rightarrow> config \<Rightarrow> 's client res" where
  "aws_clients api cfg = map_res (\<lambda>(a, tr). aws_client a api) (build_aws_client cfg)"

subsection \<open>The run command (\<open>run.go\<close>)\<close>

record 'w outputs =
  ou_stdout :: "'w writer"
  ou_create :: "string \<Rightarrow> 'w \<Rightarrow> unit res \<times> 'w"
  ou_file :: "string \<Rightarrow> 'w writer"

record ('s, 'h, 'w) tool =
  tl_runtime :: runtime
  tl_client :: "config \<Rightarrow> 's client res"
  tl_printers :: printers
  tl_version :: string
  tl_hdr :: "'h hdrlib"
  tl_visit :: "'h visit"
  tl_started :: int
  tl_ended :: int
  tl_encode :: "report \<Rightarrow> string res"
  tl_outputs :: "'w outputs"

definition with_run_id :: "config \<Rightarrow> string \<Rightarrow> config" where
  "with_run_id cfg run_id = cfg\<lparr>cf_prefix := cf_prefix cfg @ run_id @ ''/''\<rparr>"

definition options_of :: "config \<Rightarrow> any_workload list \<Rightarrow> run_options" where
  "options_of cfg ws =
     \<lparr>ro_recorder = Rec_collector, ro_workloads = ws, ro_duration = cf_duration cfg,
      ro_warmup = cf_warmup cfg, ro_threads = cf_threads cfg, ro_part_size = cf_part_size cfg,
      ro_concurrency = cf_concurrency cfg, ro_run_prefix = cf_prefix cfg, ro_seed = cf_seed cfg,
      ro_prepopulate = cf_prepopulate cfg\<rparr>"

datatype 's doing =
    Busy "'s client" run_options config "'s runner"
  | Exited "unit res"

text \<open>\<open>doRun\<close> up to the concurrent phases. The workloads that will be cleaned are the ones built
  here, as the runner leaves them.\<close>

definition do_run_begin :: "('s, 'h, 'w) tool \<Rightarrow> config \<Rightarrow> string \<Rightarrow> 's world \<Rightarrow> 's doing \<times> 's world" where
  "do_run_begin t cfg0 run_id wd =
     (let cfg = with_run_id cfg0 run_id; reg = snd (register_workloads (tl_runtime t) []) in
      case tl_client t cfg of
        Err e \<Rightarrow> (Exited (Err e), wd)
      | Panic \<Rightarrow> (Exited Panic, wd)
      | Ok cl \<Rightarrow>
          (case check_bucket cl (cf_prefix cfg) (cf_allow_shared cfg) (wd_store wd) of
             (Err e, s) \<Rightarrow> (Exited (Err e), wd\<lparr>wd_store := s\<rparr>)
           | (Panic, s) \<Rightarrow> (Exited Panic, wd\<lparr>wd_store := s\<rparr>)
           | (Ok _, s) \<Rightarrow>
               (case build_all reg (cf_workloads cfg) of
                  Err e \<Rightarrow> (Exited (Err e), wd\<lparr>wd_store := s\<rparr>)
                | Panic \<Rightarrow> (Exited Panic, wd\<lparr>wd_store := s\<rparr>)
                | Ok ws \<Rightarrow>
                    (case runner_start (tl_runtime t) cl (options_of cfg ws) (wd\<lparr>wd_store := s\<rparr>) of
                       (Ok r, wd1) \<Rightarrow> (Busy cl (options_of cfg ws) cfg r, wd1)
                     | (Err e, wd1) \<Rightarrow> (Exited (Err e), wd1)
                     | (Panic, wd1) \<Rightarrow> (Exited Panic, wd1)))))"

definition write_reports ::
  "printers \<Rightarrow> (report \<Rightarrow> string res) \<Rightarrow> 'w outputs \<Rightarrow> report \<Rightarrow> config \<Rightarrow> 'w \<Rightarrow> unit res \<times> 'w" where
  "write_reports pr encode ou rep cfg w =
     (let json = (\<lambda>w. if cf_output_json cfg = [] then (Ok (), w)
        else case ou_create ou (cf_output_json cfg) w of
               (Ok _, w1) \<Rightarrow> write_json encode (ou_file ou (cf_output_json cfg)) rep w1
             | r \<Rightarrow> r);
          text_to = (\<lambda>wr w. case write_text pr wr rep w of (Ok _, w1) \<Rightarrow> json w1 | r \<Rightarrow> r)
      in if cf_output_text cfg = [] then text_to (ou_stdout ou) w
         else case ou_create ou (cf_output_text cfg) w of
                (Ok _, w1) \<Rightarrow> text_to (ou_file ou (cf_output_text cfg)) w1
              | r \<Rightarrow> r)"

fun cleanup_all :: "'s client \<Rightarrow> any_workload list \<Rightarrow> 's world \<Rightarrow> unit res \<times> 's world" where
  "cleanup_all cl [] wd = (Ok (), wd)"
| "cleanup_all cl (w # ws) wd =
     (case wl_cleanup cl w wd of
        (Ok _, wd1) \<Rightarrow> cleanup_all cl ws wd1
      | (Err e, wd1) \<Rightarrow> (Err e, wd1)
      | (Panic, wd1) \<Rightarrow> (Panic, wd1))"

text \<open>The end of a run: report, then cleanup. \<open>None\<close>: the final walk over the prefix does not end.\<close>

definition do_run_cleanup :: "'s client \<Rightarrow> config \<Rightarrow> any_workload list \<Rightarrow> 's world \<Rightarrow> (unit res \<times> 's world) option" where
  "do_run_cleanup cl cfg ws wd =
     (if \<not> cf_cleanup cfg then Some (Ok (), wd)
      else case cleanup_all cl ws wd of
             (Err e, wd1) \<Rightarrow> Some (Err e, wd1)
           | (Panic, wd1) \<Rightarrow> Some (Panic, wd1)
           | (Ok _, wd1) \<Rightarrow>
               map_option (\<lambda>((n, out), s). (out, wd1\<lparr>wd_store := s\<rparr>)) (cleanup cl (cf_prefix cfg) (wd_store wd1)))"

definition do_run_finish ::
  "('s, 'h, 'w) tool \<Rightarrow> 's client \<Rightarrow> config \<Rightarrow> any_workload list \<Rightarrow> 's world \<Rightarrow> 'w
     \<Rightarrow> (unit res \<times> 's world \<times> 'w) option" where
  "do_run_finish t cl cfg ws wd w =
     (let snap = collector_snapshot (tl_hdr t) (tl_visit t) (tl_ended t)
            (run_collector (tl_hdr t) (tl_started t) (wd_calls wd));
          rep = build_report (tl_printers t) (tl_version t) (tl_hdr t) snap cfg
      in case write_reports (tl_printers t) (tl_encode t) (tl_outputs t) rep cfg w of
           (Err e, w1) \<Rightarrow> Some (Err e, wd, w1)
         | (Panic, w1) \<Rightarrow> Some (Panic, wd, w1)
         | (Ok _, w1) \<Rightarrow> map_option (\<lambda>(out, wd1). (out, wd1, w1)) (do_run_cleanup cl cfg ws wd))"

inductive do_run_step ::
  "('s, 'h, 'w) tool \<Rightarrow> 's doing \<times> 's world \<times> 'w \<Rightarrow> 's doing \<times> 's world \<times> 'w \<Rightarrow> bool" for t where
  busy: "runner_step (tl_runtime t) cl opt (r, wd) (r', wd') \<Longrightarrow>
    do_run_step t (Busy cl opt cfg r, wd, w) (Busy cl opt cfg r', wd', w)"
| finish: "do_run_finish t cl cfg ws wd w = Some (out, wd', w') \<Longrightarrow>
    do_run_step t (Busy cl opt cfg (Finished es ws), wd, w) (Exited out, wd', w')"

inductive_cases busyE: "do_run_step t (Busy cl opt cfg r, wd, w) (d', wd', w')"
inductive_simps finished_simps: "do_run_step t (Busy cl opt cfg (Finished es ws), wd, w) q"
inductive_cases exitedE: "do_run_step t (Exited out, wd, w) (d', wd', w')"

text \<open>The command reads and resolves its plan and begins. The logger is not modelled.\<close>

definition run_command ::
  "'b loader \<Rightarrow> ('s, 'h, 'w) tool \<Rightarrow> string \<Rightarrow> overrides \<Rightarrow> environ \<Rightarrow> string \<Rightarrow> 's world \<Rightarrow> 's doing \<times> 's world" where
  "run_command ld t path fl env run_id wd =
     (case load_and_resolve ld path fl env of
        (Err e, _) \<Rightarrow> (Exited (Err e), wd)
      | (Panic, _) \<Rightarrow> (Exited Panic, wd)
      | (Ok (p, cfg), _) \<Rightarrow> do_run_begin t cfg run_id wd)"

subsection \<open>The other commands\<close>

definition validate_command ::
  "'b loader \<Rightarrow> string \<Rightarrow> overrides \<Rightarrow> environ \<Rightarrow> 'w writer \<Rightarrow> 'w \<Rightarrow> unit res \<times> 'w" where
  "validate_command ld path fl env wr w =
     (case load_and_resolve ld path fl env of
        (Err e, _) \<Rightarrow> (Err e, w)
      | (Panic, _) \<Rightarrow> (Panic, w)
      | (Ok (p, cfg), _) \<Rightarrow>
          (Ok (), writes_state wr
             ((''plan: '' @ pl_name p @ '' ('' @ format_int (int (length (pl_workloads p))) @ '' workloads)'' @ newline)
              # resolved_lines cfg) w))"

definition cleanup_command ::
  "'b loader \<Rightarrow> (config \<Rightarrow> 's client res) \<Rightarrow> string \<Rightarrow> overrides \<Rightarrow> environ \<Rightarrow> 'w writer \<Rightarrow> 's \<Rightarrow> 'w
     \<Rightarrow> (unit res \<times> 's \<times> 'w) option" where
  "cleanup_command ld mk_client path fl env wr s w =
     (case load_and_resolve ld path fl env of
        (Err e, _) \<Rightarrow> Some (Err e, s, w)
      | (Panic, _) \<Rightarrow> Some (Panic, s, w)
      | (Ok (p, cfg), _) \<Rightarrow>
          (case mk_client cfg of
             Err e \<Rightarrow> Some (Err e, s, w)
           | Panic \<Rightarrow> Some (Panic, s, w)
           | Ok cl \<Rightarrow>
               map_option (\<lambda>((n, out), s1). (out, s1,
                   if out = Ok ()
                   then snd (wr (''cleaned '' @ format_int n @ '' objects under '' @ cf_prefix cfg @ newline) w) else w))
                 (cleanup cl (cf_prefix cfg) s)))"

text \<open>The environment of the \<open>prepopulate\<close> command has neither a recorder nor a generator.\<close>

definition bare_env :: "config \<Rightarrow> env" where
  "bare_env cfg = \<lparr>en_recorder = Rec_nil, en_rand = None, en_seed = 0, en_threads = cf_threads cfg,
     en_run_prefix = '''', en_part_size = 0, en_concurrency = 0\<rparr>"

fun prepopulate_entries ::
  "runtime \<Rightarrow> any_workload registry \<Rightarrow> 's client \<Rightarrow> config \<Rightarrow> workload_entry list \<Rightarrow> 's world \<Rightarrow> unit res \<times> 's world" where
  "prepopulate_entries rt reg cl cfg [] wd = (Ok (), wd)"
| "prepopulate_entries rt reg cl cfg (e # es) wd =
     (case build reg e of
        Err x \<Rightarrow> (Err (Wrap_error (''build workload '' @ we_name e) x), wd)
      | Panic \<Rightarrow> (Panic, wd)
      | Ok w \<Rightarrow>
          (case wl_prepopulate rt cl (bare_env cfg) w wd of
             (Ok _, _, _, wd1) \<Rightarrow> prepopulate_entries rt reg cl cfg es wd1
           | (Err x, _, _, wd1) \<Rightarrow> (Err x, wd1)
           | (Panic, _, _, wd1) \<Rightarrow> (Panic, wd1)))"

definition prepopulate_command ::
  "'b loader \<Rightarrow> runtime \<Rightarrow> (config \<Rightarrow> 's client res) \<Rightarrow> string \<Rightarrow> overrides \<Rightarrow> environ \<Rightarrow> string \<Rightarrow> 'w writer
     \<Rightarrow> 's world \<Rightarrow> 'w \<Rightarrow> unit res \<times> 's world \<times> 'w" where
  "prepopulate_command ld rt mk_client path fl env run_id wr wd w =
     (case load_and_resolve ld path fl env of
        (Err e, _) \<Rightarrow> (Err e, wd, w)
      | (Panic, _) \<Rightarrow> (Panic, wd, w)
      | (Ok (p, cfg0), _) \<Rightarrow>
          (let cfg = with_run_id cfg0 run_id; reg = snd (register_workloads rt []) in
           case mk_client cfg of
             Err e \<Rightarrow> (Err e, wd, w)
           | Panic \<Rightarrow> (Panic, wd, w)
           | Ok cl \<Rightarrow>
               (case prepopulate_entries rt reg cl cfg (cf_workloads cfg) wd of
                  (Ok _, wd1) \<Rightarrow>
                    (Ok (), wd1, snd (wr (''prepopulated under prefix '' @ cf_prefix cfg @ newline) w))
                | (out, wd1) \<Rightarrow> (out, wd1, w))))"

subsection \<open>The process (\<open>main.go\<close>)\<close>

text \<open>The exit code and what goes to the error output; a panic ends a Go process with code 2.\<close>

definition main_run :: "(go_error \<Rightarrow> string) \<Rightarrow> unit res \<Rightarrow> int \<times> string" where
  "main_run show_error out =
     (case out of
        Ok _ \<Rightarrow> (0, '''')
      | Err e \<Rightarrow> (1, ''error: '' @ show_error e @ newline)
      | Panic \<Rightarrow> (2, ''''))"

subsection \<open>What a command does to the store\<close>

context client_invariant
begin

lemma cleanup_all_keeps: "Q (wd_store wd) \<Longrightarrow> Q (wd_store (snd (cleanup_all cl ws wd)))"
proof (induction ws arbitrary: wd)
  case (Cons w ws)
  have "Q (wd_store (snd (wl_cleanup cl w wd)))" by (rule cleanup_keeps [OF Cons.prems])
  then show ?case using Cons.IH by (auto split: prod.splits res.splits)
qed simp

lemma do_run_cleanup_keeps:
  assumes "do_run_cleanup cl cfg ws wd = Some (out, wd')" "Q (wd_store wd)"
  shows "Q (wd_store wd')"
  using assms cleanup_all_keeps [OF assms(2), of ws]
  by (auto simp: do_run_cleanup_def split: if_splits prod.splits res.splits dest: walk_keeps)

lemma do_run_finish_keeps:
  assumes "do_run_finish t cl cfg ws wd w = Some (out, wd', w')" "Q (wd_store wd)"
  shows "Q (wd_store wd')"
  using assms by (auto simp: do_run_finish_def Let_def split: prod.splits res.splits dest: do_run_cleanup_keeps)

lemma do_run_begin_keeps:
  assumes "do_run_begin t cfg run_id wd = (d, wd')" "Q (wd_store wd)"
    and "tl_client t (with_run_id cfg run_id) = Ok cl"
  shows "Q (wd_store wd')"
proof -
  obtain out s where c: "check_bucket cl (cf_prefix (with_run_id cfg run_id)) (cf_allow_shared (with_run_id cfg run_id))
      (wd_store wd) = (out, s)" by fastforce
  have s: "Q s" by (rule check_bucket_keeps [OF c assms(2)])
  have start: "Q (wd_store wd2)" if "runner_start rt cl opt (wd\<lparr>wd_store := s\<rparr>) = (o2, wd2)" for rt opt o2 wd2
    by (rule runner_start_keeps [OF that]) (simp add: s)
  show ?thesis
    using assms(1,3) c s by (auto simp: do_run_begin_def Let_def split: res.splits prod.splits dest: start)
qed

lemma do_run_step_keeps:
  assumes "do_run_step t (Busy cl opt cfg r, wd, w) (d', wd', w')" "Q (wd_store wd)"
  shows "Q (wd_store wd')"
  using assms by (auto elim!: busyE dest: runner_step_keeps do_run_finish_keeps)

end

text \<open>What comes after the measurement is determined.\<close>

lemma finished_run:
  "do_run_step t (Busy cl opt cfg (Finished es ws), wd, w) q \<longleftrightarrow>
     (\<exists>out wd' w'. do_run_finish t cl cfg ws wd w = Some (out, wd', w') \<and> q = (Exited out, wd', w'))"
  unfolding finished_simps by (blast elim: finishedE)

text \<open>A run keeps its client and its configuration.\<close>

definition run_of :: "'s client \<Rightarrow> config \<Rightarrow> 's doing \<Rightarrow> bool" where
  "run_of cl cfg d \<longleftrightarrow> (case d of Busy cl' opt cfg' r \<Rightarrow> cl' = cl \<and> cfg' = cfg | Exited out \<Rightarrow> True)"

lemma run_of_begin:
  "do_run_begin t cfg run_id wd = (d, wd') \<Longrightarrow> tl_client t (with_run_id cfg run_id) = Ok cl \<Longrightarrow>
    run_of cl (with_run_id cfg run_id) d"
  by (auto simp: do_run_begin_def run_of_def Let_def split: res.splits prod.splits)

lemma do_run_steps_keep:
  assumes "client_invariant cl Q"
    and "(do_run_step t)\<^sup>*\<^sup>* (d, wd, w) (d', wd', w')" "run_of cl cfg d" "Q (wd_store wd)"
  shows "run_of cl cfg d' \<and> Q (wd_store wd')"
  using assms(2-4)
proof (induction "(d', wd', w')" arbitrary: d' wd' w' rule: rtranclp_induct)
  case (step y)
  obtain d1 wd1 w1 where y: "y = (d1, wd1, w1)" by (metis prod_cases3)
  have 1: "run_of cl cfg d1 \<and> Q (wd_store wd1)" using step.hyps(3) [OF y] step.prems by blast
  show ?case
  proof (cases d1)
    case (Busy cl' opt cfg' r)
    then have [simp]: "cl' = cl" "cfg' = cfg" using 1 by (auto simp: run_of_def)
    have st: "do_run_step t (Busy cl opt cfg r, wd1, w1) (d', wd', w')"
      using step.hyps(2) unfolding y Busy by simp
    have "Q (wd_store wd')" by (rule client_invariant.do_run_step_keeps [OF assms(1) st]) (use 1 in blast)
    moreover have "run_of cl cfg d'"
      using step.hyps(2) unfolding y Busy by (auto elim!: busyE simp: run_of_def)
    ultimately show ?thesis by blast
  next
    case (Exited out)
    then show ?thesis using step.hyps(2) unfolding y by (auto elim: exitedE)
  qed
qed blast

lemma do_run_keeps:
  assumes "client_invariant cl Q" "tl_client t (with_run_id cfg run_id) = Ok cl"
    and "do_run_begin t cfg run_id wd0 = (d, wd1)" "(do_run_step t)\<^sup>*\<^sup>* (d, wd1, w) (d', wd', w')"
    and "Q (wd_store wd0)"
  shows "run_of cl (with_run_id cfg run_id) d' \<and> Q (wd_store wd')"
  by (rule do_run_steps_keep [OF assms(1,4) run_of_begin [OF assms(3,2)]
        client_invariant.do_run_begin_keeps [OF assms(1,3,5,2)]])

subsection \<open>The prefix of a run\<close>

definition run_prefix :: "config \<Rightarrow> string \<Rightarrow> string" where
  "run_prefix cfg run_id = cf_prefix cfg @ run_id @ ''/''"

lemma with_run_id_sel [simp]:
  "cf_prefix (with_run_id cfg run_id) = run_prefix cfg run_id"
  "cf_bucket (with_run_id cfg run_id) = cf_bucket cfg"
  "cf_cleanup (with_run_id cfg run_id) = cf_cleanup cfg"
  by (simp_all add: with_run_id_def run_prefix_def)

lemma run_prefix_slash [simp]: "slash_terminated (run_prefix cfg run_id) = run_prefix cfg run_id"
  "run_prefix cfg run_id \<noteq> []"
proof -
  have "has_suffix (run_prefix cfg run_id) ''/''"
    unfolding run_prefix_def append_assoc [symmetric] by (rule has_suffix_append)
  then show "slash_terminated (run_prefix cfg run_id) = run_prefix cfg run_id" "run_prefix cfg run_id \<noteq> []"
    by (auto simp: slash_terminated_def run_prefix_def)
qed

lemma aws_clients_Ok:
  assumes "aws_clients api cfg = Ok cl"
  obtains a where "cl = aws_client a api" "aws_bucket a = cf_bucket cfg" "aws_prefix a = cf_prefix cfg"
  using assms by (auto simp: aws_clients_def build_aws_client_def new_aws_def Let_def split: if_splits)

lemma run_client:
  assumes "s3_endpoint api (cf_bucket cfg) view calm after" "tl_client t = aws_clients api"
    and "tl_client t (with_run_id cfg run_id) = Ok cl"
  obtains a where "cl = aws_client a api" "aws_prefix a = run_prefix cfg run_id"
    "store_frame cl view (aws_key a)" "reliable_store cl view (aws_key a) calm after"
proof -
  obtain a where a: "cl = aws_client a api" "aws_bucket a = cf_bucket cfg" "aws_prefix a = run_prefix cfg run_id"
    using assms(2,3) by (auto elim: aws_clients_Ok)
  have over: "aws_over_s3 a api view calm after" using assms(1) a(2) by (simp add: aws_over_s3_def)
  show thesis
    by (rule that [OF a(1,3)])
      (simp_all add: a(1) aws_over_s3.aws_frame [OF over] aws_over_s3.aws_reliable [OF over])
qed

lemma no_client:
  assumes "do_run_begin t cfg run_id wd0 = (d, wd1)" "(do_run_step t)\<^sup>*\<^sup>* (d, wd1, w) (d', wd', w')"
    and "\<nexists>cl. tl_client t (with_run_id cfg run_id) = Ok cl"
  shows "wd' = wd0 \<and> (\<exists>out. d' = Exited out \<and> out \<noteq> Ok ())"
proof -
  obtain out where d: "d = Exited out" "wd1 = wd0" "out \<noteq> Ok ()"
    using assms(1,3) by (auto simp: do_run_begin_def Let_def split: res.splits)
  have "(d', wd', w') = (Exited out, wd0, w)"
    using assms(2) unfolding d(1,2)
  proof (induction rule: rtranclp_induct)
    case (step y z)
    then show ?case by (cases z) (auto elim: exitedE)
  qed simp
  then show ?thesis using d(3) by simp
qed

lemma outside_prefix:
  assumes "s3_endpoint api (cf_bucket cfg) view calm after" and "tl_client t = aws_clients api"
    and "do_run_begin t cfg run_id wd0 = (d, wd1)"
    and "(do_run_step t)\<^sup>*\<^sup>* (d, wd1, w) (d', wd', w')"
    and "\<not> has_prefix x (run_prefix cfg run_id)"
  shows "view (wd_store wd') x = view (wd_store wd0) x"
proof (cases "\<exists>cl. tl_client t (with_run_id cfg run_id) = Ok cl")
  case True
  then obtain cl where cl: "tl_client t (with_run_id cfg run_id) = Ok cl" by blast
  obtain a where a: "aws_prefix a = run_prefix cfg run_id" "store_frame cl view (aws_key a)"
    by (rule run_client [OF assms(1,2) cl])
  have "x \<notin> range (aws_key a)"
    using assms(5) join_prefix_under [of "run_prefix cfg run_id"] by (auto simp: aws_key_def a(1))
  from do_run_keeps [OF store_frame.unaddressed_invariant [OF a(2) this] cl assms(3,4) refl]
  show ?thesis by blast
next
  case False
  then show ?thesis using no_client [OF assms(3,4)] by simp
qed

text \<open>C2. Whatever a run does, it stays below its prefix: over the SDK-backed client, for every plan,
  every interleaving of its workloads and every fault of the endpoint, no object whose key does not
  start with \<open>prefix + runID + "/"\<close> is changed, from the first check to the end of the cleanup. The
  endpoint need not work for this; it only must not write where it was not asked to.\<close>

theorem run_stays_below_prefix:
  assumes "s3_endpoint api (cf_bucket cfg) view calm after" and "tl_client t = aws_clients api"
    and "do_run_begin t cfg run_id wd0 = (d, wd1)"
    and "(do_run_step t)\<^sup>*\<^sup>* (d, wd1, w) (d', wd', w')"
    and "\<not> has_prefix x (run_prefix cfg run_id)"
  shows "view (wd_store wd') x = view (wd_store wd0) x"
  by (rule outside_prefix [OF assms])

subsection \<open>A run that ends well restores the bucket\<close>

context reliable_store
begin

lemma cleanup_all_calm:
  "calm (wd_store wd) \<Longrightarrow> \<exists>wd'. cleanup_all cl ws wd = (Ok (), wd') \<and> calm (wd_store wd')"
proof (induction ws arbitrary: wd)
  case (Cons w ws)
  obtain wd1 where wd1: "wl_cleanup cl w wd = (Ok (), wd1)" "calm (wd_store wd1)"
    using cleanup_calm [OF Cons.prems, of w] by blast
  with Cons.IH [OF wd1(2)] show ?case by simp
qed simp

text \<open>The cleanup of a run leaves nothing under the prefix.\<close>

lemma do_run_cleanup_calm:
  assumes "calm (wd_store wd)" "cf_cleanup cfg" "fixed_below addr (slash_terminated (cf_prefix cfg))"
  shows "\<exists>wd'. do_run_cleanup cl cfg ws wd = Some (Ok (), wd') \<and>
    (\<forall>x. has_prefix x (slash_terminated (cf_prefix cfg)) \<longrightarrow> view (wd_store wd') x = None)"
proof -
  obtain wd1 where wd1: "cleanup_all cl ws wd = (Ok (), wd1)" "calm (wd_store wd1)"
    using cleanup_all_calm [OF assms(1)] by blast
  obtain n s where s: "cleanup cl (cf_prefix cfg) (wd_store wd1) = Some ((n, Ok ()), s)"
    "view s = view (wd_store wd1) |` {k. \<not> has_prefix k (slash_terminated (cf_prefix cfg))}"
    using cleanup_reliable [OF wd1(2) assms(3)] by blast
  have "do_run_cleanup cl cfg ws wd = Some (Ok (), wd1\<lparr>wd_store := s\<rparr>)"
    using assms(2) wd1(1) s(1) by (simp add: do_run_cleanup_def)
  then show ?thesis using s(2) by (intro exI [of _ "wd1\<lparr>wd_store := s\<rparr>"]) (simp add: restrict_map_def)
qed

end

text \<open>Once the measurement is over, what is left to do succeeds and restores the bucket.\<close>

lemma finish_restores:
  assumes "s3_endpoint api (cf_bucket cfg) view calm after" and "tl_client t = aws_clients api"
    and "calm (wd_store wd0)" and "cf_cleanup cfg" and "\<not> has_prefix (run_prefix cfg run_id) ''/''"
    and "\<forall>x. has_prefix x (run_prefix cfg run_id) \<longrightarrow> view (wd_store wd0) x = None"
    and "\<forall>rep v. fst (write_reports (tl_printers t) (tl_encode t) (tl_outputs t) rep (with_run_id cfg run_id) v) = Ok ()"
    and "do_run_begin t cfg run_id wd0 = (d, wd1)"
    and "(do_run_step t)\<^sup>*\<^sup>* (d, wd1, w) (Busy cl opt cfg' (Finished es ws), wd2, w2)"
  shows "\<exists>wd3 w3. do_run_finish t cl cfg' ws wd2 w2 = Some (Ok (), wd3, w3) \<and> view (wd_store wd3) = view (wd_store wd0)"
proof -
  obtain c where c: "tl_client t (with_run_id cfg run_id) = Ok c"
    using no_client [OF assms(8,9)] by blast
  obtain a where a: "aws_prefix a = run_prefix cfg run_id" and rel: "reliable_store c view (aws_key a) calm after"
    by (rule run_client [OF assms(1,2) c])
  from do_run_keeps [OF reliable_store.calm_invariant [OF rel] c assms(8,9,3)]
  have cl: "cl = c" "cfg' = with_run_id cfg run_id" and calm: "calm (wd_store wd2)"
    by (auto simp: run_of_def)
  have "fixed_below (aws_key a) (slash_terminated (cf_prefix cfg'))"
    by (rule fixed_below_aws) (use assms(5) in \<open>simp_all add: a cl(2)\<close>)
  from reliable_store.do_run_cleanup_calm [OF rel calm _ this, of ws]
  obtain wd3 where wd3: "do_run_cleanup cl cfg' ws wd2 = Some (Ok (), wd3)"
    "\<forall>x. has_prefix x (run_prefix cfg run_id) \<longrightarrow> view (wd_store wd3) x = None"
    using assms(4) unfolding cl by auto
  obtain w3 where finish: "do_run_finish t cl cfg' ws wd2 w2 = Some (Ok (), wd3, w3)"
  proof -
    define rep where "rep = build_report (tl_printers t) (tl_version t) (tl_hdr t)
      (collector_snapshot (tl_hdr t) (tl_visit t) (tl_ended t)
        (run_collector (tl_hdr t) (tl_started t) (wd_calls wd2))) cfg'"
    obtain w3 where "write_reports (tl_printers t) (tl_encode t) (tl_outputs t) rep cfg' w2 = (Ok (), w3)"
      using assms(7) unfolding cl(2) by (metis surjective_pairing)
    then have "do_run_finish t cl cfg' ws wd2 w2 = Some (Ok (), wd3, w3)"
      using wd3(1) unfolding do_run_finish_def Let_def rep_def [symmetric] by simp
    then show thesis by (rule that)
  qed
  then have step: "do_run_step t (Busy cl opt cfg' (Finished es ws), wd2, w2) (Exited (Ok ()), wd3, w3)"
    by (rule do_run_step.finish)
  have "view (wd_store wd3) x = view (wd_store wd0) x" for x
  proof (cases "has_prefix x (run_prefix cfg run_id)")
    case True
    then show ?thesis using wd3(2) assms(6) by simp
  next
    case False
    from outside_prefix [OF assms(1,2,8) rtranclp.rtrancl_into_rtrancl [OF assms(9) step] this] show ?thesis .
  qed
  then show ?thesis using finish by blast
qed


subsection \<open>A run that is refused\<close>

lemma runner_start_Err:
  "runner_start rt cl opt wd = (Err e, wd') \<Longrightarrow> wd' = wd"
  using prepopulate_all_no_error [of rt cl opt 0 "ro_workloads opt" wd]
  by (auto simp: runner_start_def run_check_def split: res.splits prod.splits if_splits)

lemma runner_start_checked: "runner_start rt cl opt wd = (Ok r, wd') \<Longrightarrow> run_check opt = Ok ()"
  by (auto simp: runner_start_def split: res.splits)

lemma do_run_begin_Err:
  assumes "do_run_begin t cfg run_id wd = (Exited (Err e), wd')"
    and "\<And>cl. tl_client t (with_run_id cfg run_id) = Ok cl \<Longrightarrow> \<exists>addr. store_frame cl view addr"
  shows "view (wd_store wd') = view (wd_store wd) \<and> wd_calls wd' = wd_calls wd"
proof (cases "tl_client t (with_run_id cfg run_id)")
  case (Ok cl)
  let ?cfg = "with_run_id cfg run_id"
  obtain out s where c: "check_bucket cl (cf_prefix ?cfg) (cf_allow_shared ?cfg) (wd_store wd) = (out, s)" by fastforce
  then have s: "view s = view (wd_store wd)"
    using assms(2) [OF Ok] store_frame.check_bucket_view [of cl view] by (metis snd_conv)
  have "wd' = wd\<lparr>wd_store := s\<rparr>"
    using assms(1) Ok c runner_start_Err
    by (simp add: do_run_begin_def Let_def split: res.splits prod.splits) blast+
  then show ?thesis using s by simp
qed (use assms(1) in \<open>auto simp: do_run_begin_def Let_def\<close>)

text \<open>Without credentials, workloads or a positive duration a run does not get to its first phase.\<close>

lemma do_run_begin_Busy:
  assumes "do_run_begin t cfg run_id wd = (Busy cl opt cfg' r, wd')"
  shows "cf_workloads cfg \<noteq> [] \<and> 0 < cf_duration cfg \<and> tl_client t (with_run_id cfg run_id) = Ok cl"
proof -
  obtain reg ws wd1 where ws: "build_all reg (cf_workloads cfg) = Ok ws"
    "runner_start (tl_runtime t) cl (options_of (with_run_id cfg run_id) ws) wd1 = (Ok r, wd')"
    "tl_client t (with_run_id cfg run_id) = Ok cl"
    using assms by (auto simp: do_run_begin_def Let_def with_run_id_def split: res.splits prod.splits)
  have "run_check (options_of (with_run_id cfg run_id) ws) = Ok ()" using runner_start_checked [OF ws(2)] .
  then have "ws \<noteq> []" "0 < cf_duration cfg"
    by (auto simp: run_check_def options_of_def with_run_id_def split: if_splits)
  then show ?thesis using ws(1,3) by (cases "cf_workloads cfg") auto
qed

text \<open>C21. A run that fails before its first phase, for want of credentials, because of the bucket check, a
  workload that cannot be built, a duration that is not positive or an empty plan, has changed no
  object and recorded no call; the process prints the error and exits with code 1. Without
  credentials, workloads or a positive duration a run never starts.\<close>

theorem refused_run_leaves_no_trace:
  assumes "s3_endpoint api (cf_bucket cfg) view calm after" and "tl_client t = aws_clients api"
    and "do_run_begin t cfg run_id wd0 = (d, wd1)"
  shows "(d = Exited (Err e) \<longrightarrow>
      view (wd_store wd1) = view (wd_store wd0) \<and> wd_calls wd1 = wd_calls wd0 \<and>
      main_run show_error (Err e) = (1, ''error: '' @ show_error e @ newline)) \<and>
    (cf_access_key cfg = '''' \<or> cf_secret_key cfg = '''' \<or> cf_workloads cfg = [] \<or> cf_duration cfg \<le> 0 \<longrightarrow>
      (\<exists>out. d = Exited out \<and> out \<noteq> Ok ()))"
proof (intro conjI impI)
  assume "d = Exited (Err e)"
  then have begin_: "do_run_begin t cfg run_id wd0 = (Exited (Err e), wd1)" using assms(3) by simp
  have "view (wd_store wd1) = view (wd_store wd0) \<and> wd_calls wd1 = wd_calls wd0"
  proof (rule do_run_begin_Err [OF begin_])
    fix cl assume "tl_client t (with_run_id cfg run_id) = Ok cl"
    then obtain a where "store_frame cl view (aws_key a)" by (rule run_client [OF assms(1,2)])
    then show "\<exists>addr. store_frame cl view addr" by blast
  qed
  then show "view (wd_store wd1) = view (wd_store wd0)" "wd_calls wd1 = wd_calls wd0" by blast+
  show "main_run show_error (Err e) = (1, ''error: '' @ show_error e @ newline)" by (simp add: main_run_def)
next
  assume bad: "cf_access_key cfg = '''' \<or> cf_secret_key cfg = '''' \<or> cf_workloads cfg = [] \<or> cf_duration cfg \<le> 0"
  have keys: "cf_access_key cfg \<noteq> [] \<and> cf_secret_key cfg \<noteq> []"
    if "tl_client t (with_run_id cfg run_id) = Ok cl" for cl
    using that unfolding assms(2)
    by (auto simp: aws_clients_def build_aws_client_def with_run_id_def split: if_splits)
  show "\<exists>out. d = Exited out \<and> out \<noteq> Ok ()"
  proof (cases d)
    case (Busy cl opt cfg' r)
    then show ?thesis using do_run_begin_Busy [of t cfg run_id wd0 cl opt cfg' r wd1] assms(3) keys [of cl] bad by simp
  next
    case (Exited out)
    then show ?thesis using assms(3) by (auto simp: do_run_begin_def Let_def split: res.splits prod.splits)
  qed
qed

subsection \<open>The prepopulate command and its environment\<close>

text \<open>Workloads whose prepopulation reaches for the recorder or the generator of its environment.\<close>

fun needs_env :: "any_workload \<Rightarrow> bool" where
  "needs_env (W_object kind w) \<longleftrightarrow> False"
| "needs_env (W_checkpoint w) \<longleftrightarrow> True"
| "needs_env (W_lancedb w) \<longleftrightarrow> lc_manifest_min w < lc_manifest_max w"
| "needs_env (W_dataloader w) \<longleftrightarrow> True"
| "needs_env (W_metadata w) \<longleftrightarrow> False"
| "needs_env (W_mix name cs ws) \<longleftrightarrow> (\<exists>c \<in> set cs. needs_env c)"

definition bare :: "env \<Rightarrow> bool" where
  "bare env \<longleftrightarrow> en_recorder env = Rec_nil \<and> en_rand env = None"

lemma bare_record: "bare env \<Longrightarrow> env_record env r e wd = (Panic, wd)"
  by (simp add: bare_def env_record_def)

lemma bare_checkpoint:
  assumes "bare env"
  shows "ckpt_prepopulate entropy cl env latency w wd \<noteq> (Ok (), w', wd')"
proof
  assume "ckpt_prepopulate entropy cl env latency w wd = (Ok (), w', wd')"
  then obtain w1 k u wd1 where "upload_version entropy cl env None latency w1 k wd = (Ok u, wd1)"
    by (auto simp: ckpt_prepopulate_def write_one_at_def Let_def split: prod.splits res.splits)
  then show False
    by (auto simp: upload_version_def bare_record [OF assms] Let_def split: prod.splits if_splits)
qed

lemma bare_dataloader:
  assumes "bare env" "0 < dl_count w"
  shows "dl_prepopulate entropy gauss cl env w wd \<noteq> (Ok (), w', env', wd')"
proof -
  obtain i js where "[0..<nat (dl_count w)] = i # js"
    using assms(2) by (cases "[0..<nat (dl_count w)]") auto
  then show ?thesis using assms(1) by (auto simp: dl_prepopulate_def bare_def Let_def split: res.splits)
qed

lemma bare_manifests:
  assumes "upload_manifests entropy cl w is None s = (Ok (), c, ro, s')"
  shows "ro = None \<and> (is \<noteq> [] \<longrightarrow> lc_manifest_max w \<le> lc_manifest_min w)"
  using assms
  by (induction "is" arbitrary: s c ro s') (auto simp: manifest_size_def split: if_splits res.splits prod.splits)

lemma bare_lancedb:
  assumes "bare env" "0 < lc_manifests w" "lc_prepopulate entropy cl env w wd = (Ok (), w', env', wd')"
  shows "bare env' \<and> lc_manifest_max w \<le> lc_manifest_min w"
proof -
  obtain n s1 where frag: "upload_fragments entropy cl w [0..<nat (lc_fragments w)] (wd_store wd) = (Ok (), n, s1)"
    using assms(3) by (auto simp: lc_prepopulate_def Let_def split: prod.splits if_splits)
  define w1 where "w1 = (if n = 0 then w else w\<lparr>lc_fragment_count := n\<rparr>)"
  obtain c ro s2 where "upload_manifests entropy cl w1 [0..<nat (lc_manifests w)] None s1 = (Ok (), c, ro, s2)"
    "env' = env\<lparr>en_rand := ro\<rparr>"
    using assms(1,3) frag by (auto simp: lc_prepopulate_def bare_def Let_def simp flip: w1_def split: prod.splits)
  moreover have "lc_manifest_max w1 = lc_manifest_max w" "lc_manifest_min w1 = lc_manifest_min w"
    by (simp_all add: w1_def)
  ultimately show ?thesis using bare_manifests [of entropy cl w1 "[0..<nat (lc_manifests w)]" s1 c ro s2] assms(1,2)
    by (auto simp: bare_def)
qed

text \<open>A prepopulation without recorder and generator succeeds only where neither is needed.\<close>

lemma bare_prepopulate:
  assumes "bare env" "wl_wf w" "wl_prepopulate rt cl env w wd = (Ok (), w', env', wd')"
  shows "bare env' \<and> \<not> needs_env w"
  using assms
proof (induction w arbitrary: env wd w' env' wd')
  case (W_mix name cs ws)
  have "bare env' \<and> (\<forall>c \<in> set cs. \<not> needs_env c)"
    if "mix_prepopulate rt cl env cs wd = (Ok (), cs', env', wd')" "bare env" "\<forall>c \<in> set cs. wl_wf c"
      "\<And>c env wd w' env' wd'. c \<in> set cs \<Longrightarrow> bare env \<Longrightarrow> wl_wf c \<Longrightarrow>
        wl_prepopulate rt cl env c wd = (Ok (), w', env', wd') \<Longrightarrow> bare env' \<and> \<not> needs_env c"
    for cs cs' env wd
    using that
  proof (induction cs arbitrary: cs' env wd)
    case (Cons c cs)
    obtain u c1 env1 wd1 where c: "wl_prepopulate rt cl env c wd = (Ok u, c1, env1, wd1)"
      using Cons.prems(1) by (auto split: prod.splits res.splits)
    have 1: "bare env1 \<and> \<not> needs_env c"
      by (rule Cons.prems(4) [of c env wd c1 env1 wd1]) (use Cons.prems c in auto)
    obtain cs1 where cs: "mix_prepopulate rt cl env1 cs wd1 = (Ok (), cs1, env', wd')"
      using Cons.prems(1) c by (auto split: prod.splits)
    have "bare env' \<and> (\<forall>c \<in> set cs. \<not> needs_env c)"
    proof (rule Cons.IH [OF cs])
      show "bare env1" "\<forall>c \<in> set cs. wl_wf c" using 1 Cons.prems(3) by auto
      show "bare env2 \<and> \<not> needs_env x"
        if "x \<in> set cs" "bare env1" "wl_wf x" "wl_prepopulate rt cl env1 x wd1 = (Ok (), w2, env2, wd2)"
        for x env1 wd1 w2 env2 wd2
        by (rule Cons.prems(4) [OF _ that(2-4)]) (use that(1) in simp)
    qed
    then show ?case using 1 by simp
  qed simp
  then show ?case using W_mix by (auto split: prod.splits)
qed (auto split: prod.splits simp: bare_checkpoint bare_dataloader dest: bare_lancedb)

lemma prepopulate_entries_Ok:
  assumes "prepopulate_entries rt (leaf_registry rt @ [(mix_type_name, mix_factory (build_any rt))]) cl cfg es wd = (Ok (), wd')"
  shows "\<forall>e \<in> set es. \<exists>w. build_any rt e = Ok w \<and> \<not> needs_env w"
  using assms
proof (induction es arbitrary: wd)
  case (Cons e es)
  have "bare (bare_env cfg)" by (simp add: bare_def bare_env_def)
  then show ?case
    using Cons bare_prepopulate build_any_wf [of rt e]
    by (auto simp: build_registry split: res.splits prod.splits) blast+
qed simp

text \<open>C23. The \<open>prepopulate\<close> command succeeds only on plans in which no workload, nested ones included,
  is a checkpoint, a dataloader or a LanceDB table with manifests of varying size: for the others
  its environment lacks the recorder or the generator, and the command panics or fails.\<close>

theorem prepopulate_command_limits:
  assumes "prepopulate_command ld rt mk_client path fl env run_id wr wd w = (Ok (), wd', w')"
    and "load_and_resolve ld path fl env = (Ok (p, cfg), warnings)"
  shows "\<forall>e \<in> set (cf_workloads cfg). \<exists>x. build_any rt e = Ok x \<and> \<not> needs_env x"
proof -
  obtain cl wd1 where "prepopulate_entries rt (leaf_registry rt @ [(mix_type_name, mix_factory (build_any rt))]) cl
      (with_run_id cfg run_id) (cf_workloads (with_run_id cfg run_id)) wd = (Ok (), wd1)"
    using assms by (auto simp: prepopulate_command_def register_workloads_ok Let_def split: res.splits prod.splits)
  from prepopulate_entries_Ok [OF this] show ?thesis by (simp add: with_run_id_def)
qed

subsection \<open>A sample run\<close>

text \<open>One small-object workload without threads, over the in-memory endpoint, with cleanup.\<close>

definition sample_entry :: workload_entry where
  "sample_entry = \<lparr>we_name = ''a'', we_type = ''smallobject'', we_weight = 0, we_object_size = 4, we_threads = 0,
     we_duration = 0, we_params = []\<rparr>"

definition sample_cfg :: config where
  "sample_cfg = \<lparr>cf_plan_name = ''p'', cf_endpoint = '''', cf_region = '''', cf_bucket = ''b'',
     cf_prefix = ''bench/'', cf_path_style = True, cf_tls_skip = False, cf_pool = 1, cf_http2 = False,
     cf_duration = 1, cf_warmup = 0, cf_threads = 0, cf_part_size = 0, cf_concurrency = 0,
     cf_prepopulate = False, cf_cleanup = True, cf_progress = False, cf_seed = 0, cf_log_level = '''',
     cf_output_text = '''', cf_output_json = '''', cf_allow_shared = False, cf_max_retries = 0,
     cf_access_key = ''k'', cf_secret_key = ''s'', cf_workloads = [sample_entry], cf_sources = [], cf_hash = ''''\<rparr>"

definition accept_line :: "string list writer" where
  "accept_line l w = (Ok (), w @ [l])"

definition sample_tool :: "(fake_state, int list, string list) tool" where
  "sample_tool = \<lparr>tl_runtime = sample_runtime, tl_client = aws_clients mem_sdk, tl_printers = plain_printers,
     tl_version = ''dev'', tl_hdr = exact_hdr, tl_visit = rev, tl_started = 0, tl_ended = 9,
     tl_encode = (\<lambda>_. Ok ''''), tl_outputs = \<lparr>ou_stdout = accept_line,
       ou_create = (\<lambda>_ w. (Ok (), w)), ou_file = (\<lambda>_. accept_line)\<rparr>\<rparr>"

lemma sample_prefix: "run_prefix sample_cfg ''id'' = ''bench/id/''"
  by (simp add: run_prefix_def sample_cfg_def)

lemma sample_tool_client: "tl_client sample_tool = aws_clients mem_sdk"
  by (simp add: sample_tool_def)

lemma sample_endpoint: "s3_endpoint mem_sdk (cf_bucket sample_cfg) fake_view fake_calm (\<lambda>tok k. tok \<le> k)"
  using mem_endpoint [of "bench_aws\<lparr>aws_bucket := cf_bucket sample_cfg\<rparr>"] by simp

lemma write_all_accepts: "fst (write_all accept_line ls w) = Ok ()"
  by (induction ls arbitrary: w) (simp_all add: accept_line_def)

lemma sample_reports: "fst (write_reports (tl_printers sample_tool) (tl_encode sample_tool) (tl_outputs sample_tool)
    rep (with_run_id sample_cfg run_id) v) = Ok ()"
  using write_all_accepts [of "report_lines plain_printers rep" v]
  by (auto simp: write_reports_def sample_tool_def sample_cfg_def with_run_id_def write_text_def Let_def
      split: prod.splits res.splits)

lemma sample_build: "\<exists>w. build_any rt sample_entry = Ok (W_object Small_object w) \<and> ow_size w = 4"
  by (simp add: build_any.simps build_def leaf_registry_def type_names sample_entry_def object_factory_def map_res_def Let_def)

lemma sample_begin:
  obtains cl opt w where "en_threads (mk_env sample_runtime opt 0) = 0"
    "ro_workloads opt = [W_object Small_object w]" "ow_size w = 4"
    "do_run_begin sample_tool sample_cfg ''id'' race_world = (Busy cl opt (with_run_id sample_cfg ''id'')
       (Measuring [] (launch_all sample_runtime opt Rec_collector [W_object Small_object w])), race_world)"
proof -
  let ?cfg = "with_run_id sample_cfg ''id''"
  obtain w where w: "build_any sample_runtime sample_entry = Ok (W_object Small_object w)" "ow_size w = 4"
    using sample_build by blast
  obtain a where a: "aws_clients mem_sdk ?cfg = Ok (aws_client a mem_sdk)" "aws_prefix a = ''bench/id/''"
    by (simp add: aws_clients_def build_aws_client_def with_run_id_def sample_cfg_def map_res_def new_aws_def)
  have check: "check_bucket (aws_client a mem_sdk) (cf_prefix ?cfg) (cf_allow_shared ?cfg) (wd_store race_world) =
      (Ok (), wd_store race_world)"
    by (simp add: check_bucket_def aws_list_def mem_sdk_def race_world_def fake_new_def fake_list_def check_fail_def
        list_page_def list_keys_def cut_page_def unpack_list_def a(2) Let_def)
  have build: "build_all (leaf_registry sample_runtime @ [(mix_type_name, mix_factory (build_any sample_runtime))]) (cf_workloads ?cfg)
      = Ok [W_object Small_object w]"
    by (simp add: build_registry w with_run_id_def sample_cfg_def)
  define opt where "opt = options_of ?cfg [W_object Small_object w]"
  have "runner_start sample_runtime (aws_client a mem_sdk) opt race_world =
      (Ok (Measuring [] (launch_all sample_runtime opt Rec_collector [W_object Small_object w])), race_world)"
    by (simp add: runner_start_def run_check_def opt_def options_of_def with_run_id_def sample_cfg_def)
  then have "do_run_begin sample_tool sample_cfg ''id'' race_world = (Busy (aws_client a mem_sdk) opt ?cfg
       (Measuring [] (launch_all sample_runtime opt Rec_collector [W_object Small_object w])), race_world)"
    using a(1) check build
    by (simp add: do_run_begin_def sample_tool_def register_workloads_ok Let_def opt_def)
  moreover have "en_threads (mk_env sample_runtime opt 0) = 0" "ro_workloads opt = [W_object Small_object w]"
    by (simp_all add: mk_env_def opt_def options_of_def with_run_id_def sample_cfg_def)
  ultimately show thesis using w(2) by (intro that)
qed

lemma sample_run:
  obtains d cl opt ws where "do_run_begin sample_tool sample_cfg ''id'' race_world = (d, race_world)"
    "(do_run_step sample_tool)\<^sup>*\<^sup>* (d, race_world, []) (Busy cl opt (with_run_id sample_cfg ''id'') (Finished [] ws), race_world, [])"
proof -
  obtain cl opt w where opt: "en_threads (mk_env sample_runtime opt 0) = 0"
    and start: "do_run_begin sample_tool sample_cfg ''id'' race_world = (Busy cl opt (with_run_id sample_cfg ''id'')
       (Measuring [] (launch_all sample_runtime opt Rec_collector [W_object Small_object w])), race_world)"
    by (rule sample_begin)
  let ?cfg = "with_run_id sample_cfg ''id''"
  let ?rs = "launch_all sample_runtime opt Rec_collector [W_object Small_object w] :: fake_state any_run list"
  let ?env = "(mk_env sample_runtime opt 0)\<lparr>en_recorder := Rec_collector\<rparr>"
  have "?rs ! 0 = Rn_launch ?env (W_object Small_object w)" "en_threads ?env \<le> 0"
    using opt by (simp_all add: launch_all_def)
  then obtain e where "run_step sample_runtime cl (?rs ! 0, race_world) (Rn_done (W_object Small_object w) (Some e), race_world)"
    using no_threads_step [of ?env sample_runtime cl Small_object w race_world] by auto
  then have 1: "runner_step sample_runtime cl opt (Measuring [] ?rs, race_world)
      (Measuring [] (?rs[0 := Rn_done (W_object Small_object w) (Some e)]), race_world)"
    by (rule runner_step.measure [rotated]) (simp add: launch_all_def)
  let ?rs1 = "?rs[0 := Rn_done (W_object Small_object w) (Some e)]"
  have "\<forall>r \<in> set ?rs1. run_returned r" by (simp add: launch_all_def)
  then have 2: "runner_step sample_runtime cl opt (Measuring [] ?rs1, race_world) (Finished [] (map run_workload ?rs1), race_world)"
    by (rule runner_step.measured)
  have rt: "tl_runtime sample_tool = sample_runtime" by (simp add: sample_tool_def)
  have "(do_run_step sample_tool)\<^sup>*\<^sup>* (Busy cl opt ?cfg (Measuring [] ?rs), race_world, [])
      (Busy cl opt ?cfg (Finished [] (map run_workload ?rs1)), race_world, [])"
    using 1 2 do_run_step.busy [of sample_tool] unfolding rt
    by (meson converse_rtranclp_into_rtranclp r_into_rtranclp)
  then show thesis by (rule that [OF start])
qed


theorem run_stays_below_prefix_witness:
  "\<exists>d cl opt ws. do_run_begin sample_tool sample_cfg ''id'' race_world = (d, race_world) \<and>
    (do_run_step sample_tool)\<^sup>*\<^sup>* (d, race_world, []) (Busy cl opt (with_run_id sample_cfg ''id'') (Finished [] ws), race_world, []) \<and>
    fake_view (wd_store race_world) ''other'' = None"
proof -
  obtain d cl opt ws where run: "do_run_begin sample_tool sample_cfg ''id'' race_world = (d, race_world)"
    "(do_run_step sample_tool)\<^sup>*\<^sup>* (d, race_world, []) (Busy cl opt (with_run_id sample_cfg ''id'') (Finished [] ws), race_world, [])"
    by (rule sample_run)
  have "\<not> has_prefix ''other'' (run_prefix sample_cfg ''id'')" by (simp add: sample_prefix has_prefix_def)
  from run_stays_below_prefix [OF sample_endpoint sample_tool_client run this]
  show ?thesis using run race_world_calm(2) by blast
qed

theorem refused_run_leaves_no_trace_witness:
  "\<exists>e wd1. do_run_begin sample_tool (sample_cfg\<lparr>cf_access_key := ''''\<rparr>) ''id'' race_world = (Exited (Err e), wd1) \<and>
    fake_view (wd_store wd1) = fake_view (wd_store race_world)"
proof -
  let ?cfg = "sample_cfg\<lparr>cf_access_key := ''''\<rparr>"
  have "s3_endpoint mem_sdk (cf_bucket ?cfg) fake_view fake_calm (\<lambda>tok k. tok \<le> k)" using sample_endpoint by simp
  moreover obtain e where e: "do_run_begin sample_tool ?cfg ''id'' race_world = (Exited (Err e), race_world)"
    by (simp add: do_run_begin_def sample_tool_def aws_clients_def build_aws_client_def map_res_def with_run_id_def Let_def)
  ultimately show ?thesis
    using refused_run_leaves_no_trace [of mem_sdk ?cfg fake_view fake_calm _ sample_tool, OF _ sample_tool_client e] by blast
qed

text \<open>The same workload prepopulated by the command, through the in-memory client.\<close>

definition sample_loader :: "unit loader" where
  "sample_loader = \<lparr>ld_read = (\<lambda>_. Ok ()),
     ld_yaml = (\<lambda>_. Ok (sample_plan\<lparr>pl_workloads := [sample_entry]\<rparr>)), ld_digest = (\<lambda>_. ''''),
     ld_parsers = \<lparr>ps_bytes = (\<lambda>_. None), ps_duration = (\<lambda>_. None)\<rparr>\<rparr>"

definition no_flags :: overrides where
  "no_flags = flags_into_overrides \<lparr>fs_value = (\<lambda>_. F_string ''''), fs_changed = (\<lambda>_. False)\<rparr>"

lemma sample_loaded:
  obtains p cfg ws where "load_and_resolve sample_loader path no_flags (\<lambda>_. None) = (Ok (p, cfg), ws)"
    "cf_workloads cfg = [sample_entry]" "cf_secret_key cfg = ''''"
  by (simp add: load_and_resolve_def load_plan_def parse_plan_def sample_loader_def validate_def sample_plan_def
      sample_entry_def resolve_def apply_workload_env_def workload_env_def env_parsed_def Let_def)

theorem prepopulate_command_limits_witness:
  "\<exists>p cfg ws wd' w'. load_and_resolve sample_loader ''plan.yaml'' no_flags (\<lambda>_. None) = (Ok (p, cfg), ws) \<and>
    prepopulate_command sample_loader sample_runtime (\<lambda>_. Ok fake_client) ''plan.yaml'' no_flags (\<lambda>_. None) ''id''
      accept_line race_world [] = (Ok (), wd', w') \<and>
    (\<exists>x. build_any sample_runtime sample_entry = Ok x \<and> \<not> needs_env x)"
proof -
  obtain p cfg ws where ld: "load_and_resolve sample_loader ''plan.yaml'' no_flags (\<lambda>_. None) = (Ok (p, cfg), ws)"
    "cf_workloads cfg = [sample_entry]"
    by (rule sample_loaded)
  have k: "format_int 0 = ''0''" by code_simp
  obtain wd' w' where run: "prepopulate_command sample_loader sample_runtime (\<lambda>_. Ok fake_client) ''plan.yaml'' no_flags
      (\<lambda>_. None) ''id'' accept_line race_world [] = (Ok (), wd', w')"
    by (simp add: prepopulate_command_def ld register_workloads_ok build_registry with_run_id_def Let_def
        build_any.simps build_def leaf_registry_def type_names sample_entry_def object_factory_def map_res_def
        obj_prepopulate_def sample_runtime_def race_world_def key_for_def k fake_put_def fake_new_def check_fail_def)
  show ?thesis using prepopulate_command_limits [OF run ld(1)] ld run by auto
qed

subsection \<open>Credentials\<close>

text \<open>C22. Credentials in the environment never reach the client: whatever \<open>AWS_ACCESS_KEY_ID\<close>,
  \<open>AWS_SECRET_ACCESS_KEY\<close> or any other variable holds, a plan that leaves one of the two keys empty gets
  no client, and so no run, although the error message asks for just these variables.\<close>

theorem environment_credentials_ignored:
  assumes "load_and_resolve ld path fl env = (Ok (p, cfg), warnings)"
    and "pl_access_key p = '''' \<or> pl_secret_key p = ''''"
  shows "\<exists>m. aws_clients api (with_run_id cfg run_id) = Err (Plain_error m) \<and>
    (tl_client t = aws_clients api \<longrightarrow>
      run_command ld t path fl env run_id wd = (Exited (Err (Plain_error m)), wd))"
proof -
  have "cf_access_key cfg = pl_access_key p" "cf_secret_key cfg = pl_secret_key p"
    using assms(1) by (auto simp: load_and_resolve_def resolve_def Let_def split: res.splits prod.splits)
  then have "\<exists>m. aws_clients api (with_run_id cfg run_id) = Err (Plain_error m)"
    using assms(2) by (auto simp: aws_clients_def build_aws_client_def map_res_def with_run_id_def)
  then show ?thesis by (auto simp: run_command_def assms(1) do_run_begin_def Let_def)
qed

theorem environment_credentials_ignored_witness:
  "\<exists>p cfg ws m. load_and_resolve sample_loader ''plan.yaml'' no_flags (\<lambda>_. None) = (Ok (p, cfg), ws) \<and>
    run_command sample_loader sample_tool ''plan.yaml'' no_flags (\<lambda>_. None) ''id'' race_world =
      (Exited (Err (Plain_error m)), race_world)"
proof -
  obtain p cfg ws where ld: "load_and_resolve sample_loader ''plan.yaml'' no_flags (\<lambda>_. None) = (Ok (p, cfg), ws)"
    by (rule sample_loaded)
  then have "pl_secret_key p = ''''"
    by (auto simp: load_and_resolve_def load_plan_def parse_plan_def sample_loader_def sample_plan_def
        split: res.splits prod.splits)
  then show ?thesis
    using environment_credentials_ignored [OF ld, of mem_sdk "''id''" sample_tool race_world] ld sample_tool_client
    by blast
qed

end
