(* ===== verification/Drain.thy ===== *)
theory Drain
  imports Runner
begin

text \<open>
  How a phase comes to its end. \<open>Run\<close> of every workload returns when its context has ended and all its
  workers are back at the head of their loops; here is shown that on a responsive store they can all
  get there: whatever calls are in flight, whatever pages a listing still has, whatever versions
  a checkpoint writer still deletes, each worker finishes its iteration in finitely many steps of its
  own, the children of a mix return one after the other, and so do the workloads of a phase.
  What would stop them is a panic, so the theory carries the invariant that none is ahead.
\<close>

section \<open>Workloads that do not panic\<close>

text \<open>An object's length is a Go \<open>int\<close>, and a size one can add one to.\<close>

definition fits :: "bytes \<Rightarrow> bool" where
  "fits b \<longleftrightarrow> int (length b) < max_int64"

definition sized :: "('s \<Rightarrow> string \<Rightarrow> bytes option) \<Rightarrow> 's \<Rightarrow> bool" where
  "sized view s \<longleftrightarrow> (\<forall>x b. view s x = Some b \<longrightarrow> fits b)"

definition sound :: "('s \<Rightarrow> string \<Rightarrow> bytes option) \<Rightarrow> ('s \<Rightarrow> bool) \<Rightarrow> 's \<Rightarrow> bool" where
  "sound view calm s \<longleftrightarrow> calm s \<and> sized view s"

text \<open>The settings under which no worker panics at work: sizes in range, a retention that is not
  negative, a weight for every child.\<close>

fun wl_able :: "any_workload \<Rightarrow> bool" where
  "wl_able (W_object kind w) \<longleftrightarrow> 0 \<le> ow_size w \<and> ow_size w < max_int64"
| "wl_able (W_checkpoint w) \<longleftrightarrow> ck_size w < max_int64 \<and> int (length (ck_versions w)) \<le> ck_retain w"
| "wl_able (W_lancedb w) \<longleftrightarrow> lc_valid w \<and> lc_manifest_min w < max_int64"
| "wl_able (W_dataloader w) \<longleftrightarrow> True"
| "wl_able (W_metadata w) \<longleftrightarrow> True"
| "wl_able (W_mix name cs ws) \<longleftrightarrow> length cs \<le> length ws \<and> (\<forall>c \<in> set cs. wl_able c)"

definition lk_ready :: "lc_worker \<Rightarrow> bool" where
  "lk_ready k \<longleftrightarrow> 0 \<le> lg_min (lw_sampler k) \<and> lg_min (lw_sampler k) \<le> lg_max (lw_sampler k) \<and>
     (case lw_pc k of
        Lc_range key off rs \<Rightarrow> 0 \<le> off \<and> 0 \<le> rs \<and> off + rs < 2 ^ 63
      | Lc_write key n \<Rightarrow> 0 \<le> n \<and> n < max_int64
      | _ \<Rightarrow> True)"

fun run_ready :: "'s any_run \<Rightarrow> bool" where
  "run_ready (Rn_launch env w) \<longleftrightarrow> en_recorder env \<noteq> Rec_nil \<and> wl_able w"
| "run_ready (Rn_object env kind st) \<longleftrightarrow> en_recorder env \<noteq> Rec_nil \<and> wl_able (W_object kind (or_wl st))"
| "run_ready (Rn_checkpoint env st) \<longleftrightarrow> en_recorder env \<noteq> Rec_nil \<and> ck_size (cr_wl st) < max_int64 \<and> ckpt_tidy st"
| "run_ready (Rn_lancedb env st) \<longleftrightarrow> en_recorder env \<noteq> Rec_nil \<and> wl_able (W_lancedb (cw_wl st)) \<and>
     (\<forall>k \<in> set (cw_workers st). lk_ready k)"
| "run_ready (Rn_dataloader env st) \<longleftrightarrow> en_recorder env \<noteq> Rec_nil"
| "run_ready (Rn_metadata env st) \<longleftrightarrow> en_recorder env \<noteq> Rec_nil"
| "run_ready (Rn_mix name rs ws) \<longleftrightarrow> length rs \<le> length ws \<and> (\<forall>r \<in> set rs. run_ready r)"
| "run_ready (Rn_done w err) \<longleftrightarrow> wl_able w"

lemma ready_able: "run_ready r \<Longrightarrow> wl_able (run_workload r)"
  by (induction r) (auto simp: ckpt_tidy_def)

lemma wl_start_ready:
  assumes "wl_start rt env w wd = Ok (r, wd')" "en_recorder env \<noteq> Rec_nil" "wl_able w"
  shows "run_ready r"
proof (cases w)
  case (W_lancedb x)
  show ?thesis
  proof (cases "new_lognormal (lc_range_mean x) (lc_range_sigma x) (lc_range_min x) (lc_range_max x) (sconst 0)")
    case (Ok l)
    have "lg_min (lognormal_for_worker s i l) = lc_range_min x" "lg_max (lognormal_for_worker s i l) = lc_range_max x"
      "0 \<le> lc_range_min x" "lc_range_min x \<le> lc_range_max x" for s i
      using new_lognormal_Ok [OF Ok] by (simp_all add: lognormal_for_worker_def)
    then show ?thesis
      using assms Ok unfolding W_lancedb
      by (auto simp: launched_def lc_start_def lk_ready_def Let_def split: if_splits res.splits)
  qed (use assms in \<open>auto simp: W_lancedb launched_def lc_start_def split: if_splits\<close>)
next
  case (W_mix name cs ws)
  then show ?thesis
    using assms
    by (auto simp: mix_start_def thread_shares_def set_zip Let_def split: if_splits)
qed (use assms in \<open>auto simp: launched_def obj_start_def ckpt_start_def dl_start_def md_start_def ckpt_tidy_def
  Let_def split: if_splits res.splits\<close>)

lemma wl_start_enabled:
  assumes "en_recorder env \<noteq> Rec_nil" "wl_able w"
  shows "\<exists>r wd'. wl_start rt env w wd = Ok (r, wd')"
proof -
  have shards: "shard_all env is wd \<noteq> Panic" for "is"
    using shard_all_ok [OF assms(1), of "is" wd] by auto
  have run: "\<exists>r wd'. launched f g v wd s = Ok (r, wd')" if "s \<noteq> Panic" for f g v s
    using that by (cases s) (simp_all add: launched_def)
  show ?thesis
    by (cases w) (use assms shards in \<open>auto intro!: run simp: obj_start_def ckpt_start_def lc_start_def dl_start_def
      dl_template_def md_start_def mix_start_def new_lognormal_def new_zipfian_def Let_def split: res.splits\<close>)
qed

section \<open>What the steps keep\<close>

lemma fits_body [simp]: "fits (body entropy n) \<longleftrightarrow> n < max_int64"
  by (simp add: fits_def max_int64_def)

lemma manifest_size_less:
  assumes "lc_valid w" "lc_manifest_min w < max_int64" "manifest_size w ro = (Ok n, ro')"
  shows "n < max_int64"
proof (cases "lc_manifest_max w > lc_manifest_min w")
  case True
  then obtain r where r: "ro = Some r" using assms(3) by (cases ro) (auto simp: manifest_size_def)
  have valid: "0 \<le> lc_manifest_min w" "lc_manifest_max w < 2 ^ 63 - 1" using assms(1) by (simp_all add: lc_valid_def)
  define d where "d = lc_manifest_max w - lc_manifest_min w + 1"
  have d: "wrap64 d = d" "0 < d" using True valid by (auto simp: in_int64_iff d_def)
  have k: "0 \<le> shd r mod d" "shd r mod d < d" using d by simp_all
  then have "wrap64 (lc_manifest_min w + shd r mod d) = lc_manifest_min w + shd r mod d"
    using valid by (intro wrap64_id) (simp add: in_int64_iff d_def)
  then have "n = lc_manifest_min w + shd r mod d"
    using assms(3) True d by (simp add: manifest_size_def r int63n_def d_def [symmetric])
  then show ?thesis using k(2) valid(2) by (simp add: d_def max_int64_def)
next
  case False
  then show ?thesis using assms by (simp add: manifest_size_def)
qed

context responsive_store
begin

lemma sized_change:
  assumes "sized view s" "\<And>x b. view s' x = Some b \<Longrightarrow> fits b \<or> (\<exists>y. view s' x = view s y)"
  shows "sized view s'"
  using assms by (force simp: sized_def)

lemma sound_call:
  assumes "sound view calm s"
  shows "n = int (length b) \<Longrightarrow> fits b \<Longrightarrow> cl_put cl k b n s = (uo, s') \<Longrightarrow> sound view calm s'"
    "fits b \<Longrightarrow> cl_multipart cl k b n s = (uo, s') \<Longrightarrow> sound view calm s'"
    "cl_delete cl k s = (uo, s') \<Longrightarrow> sound view calm s'"
    "cl_copy cl src k s = (uo, s') \<Longrightarrow> sound view calm s'"
    "cl_get cl k s = (bo, s') \<Longrightarrow> sound view calm s'"
    "cl_range_get cl k off len s = (bo, s') \<Longrightarrow> sound view calm s'"
    "cl_head cl k s = (io, s') \<Longrightarrow> sound view calm s'"
    "cl_list cl p d tok m s = (lo, s') \<Longrightarrow> sound view calm s'"
    "cl_get_tags cl k s = (tagso, s') \<Longrightarrow> sound view calm s'"
    "cl_put_tags cl k ts s = (uo, s') \<Longrightarrow> sound view calm s'"
proof -
  have s: "calm s" "sized view s" using assms by (simp_all add: sound_def)
  show "sound view calm s'" if "n = int (length b)" "fits b" "cl_put cl k b n s = (uo, s')"
  proof -
    have "sized view s'"
      by (rule sized_change [OF s(2)])
        (metis that put_ok [OF s(1)] put_frame option.inject snd_conv)
    then show ?thesis using put_calm [OF s(1), of k b n] that(3) by (simp add: sound_def)
  qed
  show "sound view calm s'" if "fits b" "cl_multipart cl k b n s = (uo, s')"
  proof -
    have "sized view s'"
      by (rule sized_change [OF s(2)])
        (metis that multipart_ok [OF s(1)] multipart_frame option.inject snd_conv)
    then show ?thesis using multipart_calm [OF s(1), of k b n] that(2) by (simp add: sound_def)
  qed
  show "sound view calm s'" if "cl_delete cl k s = (uo, s')"
  proof -
    have "sized view s'"
      by (rule sized_change [OF s(2)])
        (metis that delete_gone [OF s(1)] delete_frame option.distinct(1) snd_conv)
    then show ?thesis using delete_calm [OF s(1), of k] that by (simp add: sound_def)
  qed
  show "sound view calm s'" if "cl_copy cl src k s = (uo, s')"
  proof -
    have "sized view s'"
      by (rule sized_change [OF s(2)]) (metis that copy_source copy_frame snd_conv)
    then show ?thesis using copy_calm [OF s(1), of src k] that by (simp add: sound_def)
  qed
qed (use assms reads_frame calm_inv.call_keeps in \<open>simp_all add: sound_def sized_def\<close>, (metis snd_conv)+)

lemma put_body_sound:
  "cl_put cl k (body entropy n) n s = (uo, s') \<Longrightarrow> 0 \<le> n \<Longrightarrow> n < max_int64 \<Longrightarrow> sound view calm s \<Longrightarrow> sound view calm s'"
  by (rule sound_call(1) [where b = "body entropy n"]) auto

lemma obj_write_sound:
  assumes "obj_write kind cl k (body entropy n) n s = (uo, s')" "0 \<le> n" "n < max_int64" "sound view calm s"
  shows "sound view calm s'"
  using assms put_body_sound sound_call(2) [OF assms(4), of "body entropy n"] by (cases kind) auto

lemma obj_read_sound: "obj_read kind cl w k s = (out, s') \<Longrightarrow> sound view calm s \<Longrightarrow> sound view calm s'"
  by (cases kind) (auto dest: sound_call)

lemma record_sound: "env_record env r e wd = (out, wd') \<Longrightarrow> sound view calm (wd_store wd) \<Longrightarrow> sound view calm (wd_store wd')"
  by (metis env_record_store snd_conv)

lemma obj_step_sound:
  assumes "obj_step kind entropy cl env l st = Ok st'" "wl_able (W_object kind (or_wl st))"
    and "sound view calm (wd_store (or_world st))"
  shows "sound view calm (wd_store (or_world st')) \<and> wl_able (W_object kind (or_wl st'))"
proof (cases l)
  case (Call i latency)
  have fin: "sound view calm (wd_store (or_world st')) \<and> or_wl st' = or_wl st"
    if "finish_call env i e s st = Ok st'" "sound view calm s" for e s
    using that by (auto simp: finish_call_def split: prod.splits res.splits dest: record_sound)
  have w: "0 \<le> ow_size (or_wl st)" "ow_size (or_wl st) < max_int64" using assms(2) by simp_all
  show ?thesis
    using assms Call w fin
    by (auto simp: call_step_def Let_def split: if_splits prod.splits worker_pc.splits
        dest!: obj_write_sound [OF _ w assms(3)] obj_read_sound [OF _ assms(3)])
next
  case (Loop i)
  then show ?thesis
    using assms by (auto simp: loop_step_def Let_def split: if_splits prod.splits res.splits)
qed

lemma upload_version_sound:
  "upload_version entropy cl env r latency w k wd = (out, wd') \<Longrightarrow> ck_size w < max_int64 \<Longrightarrow>
    sound view calm (wd_store wd) \<Longrightarrow> sound view calm (wd_store wd')"
  by (auto simp: upload_version_def Let_def split: prod.splits if_splits res.splits dest!: record_sound
      dest: sound_call(2) [where b = "body entropy (ck_size w)"])

lemma read_latest_sound:
  "read_latest cl env r latency w k wd = (out, wd') \<Longrightarrow> sound view calm (wd_store wd) \<Longrightarrow> sound view calm (wd_store wd')"
  by (auto simp: read_latest_def Let_def split: prod.splits if_splits dest!: record_sound dest: sound_call)

lemma ckpt_step_sound:
  assumes "ckpt_step entropy cl env st st'" "ck_size (cr_wl st) < max_int64" "sound view calm (wd_store (cr_world st))"
  shows "sound view calm (wd_store (cr_world st')) \<and> ck_size (cr_wl st') = ck_size (cr_wl st)"
  using assms
  by (elim ckpt_stepE)
    (auto simp: set_pc_def next_key_def commit_version_def Let_def split: if_splits
      dest: sound_call(3) upload_version_sound read_latest_sound)

lemma record_call_sound:
  "record_call env r name x latency n call wd = Ok wd' \<Longrightarrow> sound view calm (snd call) \<Longrightarrow> sound view calm (wd_store wd')"
  by (simp add: record_call_store)

lemma sound_snd:
  assumes "sound view calm s"
  shows "sound view calm (snd (cl_get cl k s))" "sound view calm (snd (cl_range_get cl k off len s))"
    "sound view calm (snd (cl_head cl k s))" "sound view calm (snd (cl_list cl p d tok m s))"
    "sound view calm (snd (cl_copy cl src k s))" "sound view calm (snd (cl_get_tags cl k s))"
    "sound view calm (snd (cl_put_tags cl k ts s))"
    "0 \<le> n \<Longrightarrow> n < max_int64 \<Longrightarrow> sound view calm (snd (cl_put cl k (body entropy n) n s))"
  using sound_call [OF assms] put_body_sound [OF _ _ _ assms] by (metis surjective_pairing)+

lemma dl_act_sound:
  "dl_act cl env i latency w k wd = Ok (w', k', wd') \<Longrightarrow> sound view calm (wd_store wd) \<Longrightarrow> sound view calm (wd_store wd')"
  by (auto simp: dl_act_def do_get_def do_range_get_def Let_def
      split: prod.splits if_splits dl_pc.splits res.splits elim!: record_call_sound intro: sound_snd)

lemma md_act_sound:
  "md_act cl env i latency w k wd = Ok (w', k', wd') \<Longrightarrow> sound view calm (wd_store wd) \<Longrightarrow> sound view calm (wd_store wd')"
  by (auto simp: md_act_def list_turn_def md_head_def md_copy_def md_put_tags_def md_get_tags_def Let_def
      split: prod.splits if_splits md_pc.splits res.splits elim!: record_call_sound intro: sound_snd)

lemma head_bounds:
  assumes "sound view calm s" "fst (cl_head cl k s) = Ok sz"
  shows "0 \<le> sz \<and> sz < 2 ^ 63 - 1"
proof (cases "view s (addr k)")
  case None
  then show ?thesis using assms head_none [of s k] by (auto simp: sound_def)
next
  case (Some b)
  then have "sz = int (length b)" using assms head_some [of s k b] by (simp add: sound_def)
  then show ?thesis using assms(1) Some by (auto simp: sound_def sized_def fits_def max_int64_def)
qed

lemma head_turn_ready:
  assumes "head_turn gauss cl env r latency w k key wd = Ok (k', wd')" "lk_ready k" "sound view calm (wd_store wd)"
  shows "sound view calm (wd_store wd') \<and> lk_ready k' \<and> (\<forall>key. lw_pc k' \<noteq> Lc_head key)"
proof -
  let ?call = "cl_head cl key (wd_store wd)"
  obtain wd1 where wd1: "record_call env r (lc_name w) OpHead latency 0 ?call wd = Ok wd1"
    using assms(1) by (auto simp: head_turn_def Let_def split: res.splits)
  then have sound: "sound view calm (wd_store wd1)" by (rule record_call_sound) (rule sound_snd [OF assms(3)])
  show ?thesis
  proof (cases "fst ?call")
    case (Ok sz)
    have l: "0 \<le> lg_min (lw_sampler k)" "lg_min (lw_sampler k) \<le> lg_max (lw_sampler k)"
      using assms(2) by (simp_all add: lk_ready_def)
    have sz: "0 \<le> sz" "sz < 2 ^ 63 - 1" using head_bounds [OF assms(3) Ok] by simp_all
    obtain off rs l' r' where plan: "plan_range gauss sz (lw_sampler k) (lw_rng k) = Ok (off, rs, l', r')"
      "0 \<le> off" "off + rs \<le> sz" "min sz (lg_min (lw_sampler k)) \<le> rs"
      "lg_min l' = lg_min (lw_sampler k)" "lg_max l' = lg_max (lw_sampler k)"
      by (rule plan_range_ok [OF sz l])
    then have "0 \<le> rs" using sz(1) l(1) by linarith
    then show ?thesis
      using assms(1) wd1 Ok plan sz l sound by (auto simp: head_turn_def Let_def lk_ready_def)
  qed (use assms(1,2) wd1 sound in \<open>auto simp: head_turn_def Let_def lk_ready_def\<close>)
qed

lemma lc_act_sound:
  assumes "lc_act entropy gauss cl env i latency w k wd = Ok (w', k', wd')"
    and "wl_able (W_lancedb w)" "lk_ready k" "sound view calm (wd_store wd)"
  shows "sound view calm (wd_store wd') \<and> wl_able (W_lancedb w') \<and> lk_ready k'"
proof (cases "lw_pc k")
  case Lc_loop
  obtain f r1 where f: "float64 (lw_rng k) = (f, r1)" by fastforce
  let ?k = "k\<lparr>lw_rng := r1\<rparr>"
  have k: "lk_ready ?k" using assms(3) by (simp add: lk_ready_def)
  show ?thesis
  proof (cases "f < lc_read_ratio w")
    case True
    then obtain k2 where "do_read w ?k = Ok k2" "w' = w" "k' = k2" "wd' = wd"
      using assms(1) Lc_loop f by (auto simp: lc_act_def Let_def split: res.splits)
    then show ?thesis
      using assms(2,4) k Lc_loop by (auto simp: do_read_def lk_ready_def split: prod.splits res.splits if_splits)
  next
    case False
    then have "do_write w ?k = Ok (w', k')" "wd' = wd"
      using assms(1) Lc_loop f by (auto simp: lc_act_def Let_def split: res.splits)
    then obtain n ro where "manifest_size w (Some r1) = (Ok n, ro)" "w' = w\<lparr>lc_written := wrap64 (lc_written w + 1)\<rparr>"
      "\<exists>key r. k' = k\<lparr>lw_pc := Lc_write key n, lw_rng := r\<rparr>"
      by (auto simp: do_write_def Let_def split: prod.splits res.splits)
    moreover from this have "0 \<le> n" "n < max_int64"
      using assms(2) manifest_size_nonneg manifest_size_less by simp_all blast+
    ultimately show ?thesis using assms(2-4) \<open>wd' = wd\<close> by (auto simp: lk_ready_def lc_valid_def)
  qed
next
  case (Lc_head key)
  then have "head_turn gauss cl env (Some (int i)) latency w k key wd = Ok (k', wd')" "w' = w"
    using assms(1) by (auto simp: lc_act_def Let_def split: res.splits)
  then show ?thesis using head_turn_ready assms(2-4) by blast
next
  case (Lc_write key n)
  then show ?thesis
    using assms by (auto simp: lc_act_def write_turn_def lk_ready_def Let_def elim!: record_call_sound intro!: sound_snd(8))
qed (use assms in \<open>auto simp: lc_act_def range_turn_def list_manifest_def lk_ready_def Let_def
  elim!: record_call_sound intro: sound_snd\<close>)

text \<open>A step of a run keeps the store sound and the run free of panics ahead.\<close>

lemma run_step_ready:
  assumes "run_step rt cl (r, wd) (r', wd')" "run_ready r" "sound view calm (wd_store wd)"
  shows "run_ready r' \<and> sound view calm (wd_store wd')"
  using assms
proof (induction "(r, wd)" "(r', wd')" arbitrary: r wd r' wd' rule: run_step.induct)
  case (launch env w wd r wd')
  then show ?case using wl_start_ready [OF launch(1)] by (simp add: wl_start_store)
next
  case (object kind env l wd st st')
  then show ?case using obj_step_sound [OF object(1)] by simp
next
  case (checkpoint env wd st st')
  then show ?case using ckpt_step_sound [OF checkpoint(1)] ckpt_step_tidy [OF checkpoint(1)]
    by (simp add: ckpt_tidy_def)
next
  case (lancedb env l wd st st')
  then show ?case
    using lc_act_sound
    by (auto simp: crew_step_def split: if_splits res.splits dest!: set_update_subset_insert [THEN subsetD])
next
  case (dataloader env l wd st st')
  then show ?case using dl_act_sound by (auto simp: crew_step_def split: if_splits res.splits)
next
  case (metadata env l wd st st')
  then show ?case using md_act_sound by (auto simp: crew_step_def split: if_splits res.splits)
next
  case (return r wd)
  then show ?case by (simp add: ready_able)
next
  case (child i rs wd r wd' name ws)
  then have "run_ready r \<and> sound view calm (wd_store wd')" by simp
  then show ?case using child(4) set_update_subset_insert [of rs i r] by auto
next
  case (join rs es name wd ws)
  then show ?case by (auto simp: ready_able)
qed

end

section \<open>One worker after the other\<close>

lemma length_filter_update:
  assumes "i < length ks"
  shows "length (filter P (ks[i := k])) + (if P (ks ! i) then 1 else 0) = length (filter P ks) + (if P k then 1 else 0)"
  using assms
proof (induction ks arbitrary: i)
  case (Cons x ks)
  then show ?case by (cases i) auto
qed simp

text \<open>If whoever is busy can be brought to rest by steps that leave the others where they are, then all
  of them can.\<close>

lemma drain_each:
  assumes turn: "\<And>x ks i. I x ks \<Longrightarrow> i < length ks \<Longrightarrow> busy (ks ! i) \<Longrightarrow>
      \<exists>x' k. R\<^sup>*\<^sup>* (mk x ks) (mk x' (ks[i := k])) \<and> I x' (ks[i := k]) \<and> \<not> busy k"
    and "I x ks"
  shows "\<exists>x' ks'. R\<^sup>*\<^sup>* (mk x ks) (mk x' ks') \<and> I x' ks' \<and> (\<forall>k \<in> set ks'. \<not> busy k)"
  using assms(2)
proof (induction "length (filter busy ks)" arbitrary: x ks rule: less_induct)
  case less
  show ?case
  proof (cases "\<forall>k \<in> set ks. \<not> busy k")
    case True
    then show ?thesis using less.prems by blast
  next
    case False
    then obtain i where i: "i < length ks" "busy (ks ! i)" by (auto simp: in_set_conv_nth)
    obtain x1 k where x1: "R\<^sup>*\<^sup>* (mk x ks) (mk x1 (ks[i := k]))" "I x1 (ks[i := k])" "\<not> busy k"
      using turn [OF less.prems i] by blast
    have "length (filter busy (ks[i := k])) < length (filter busy ks)"
      using length_filter_update [OF i(1), of busy k] i(2) x1(3) by simp
    from less.hyps [OF this x1(2)] x1(1) show ?thesis by (meson rtranclp_trans)
  qed
qed

context responsive_store
begin

definition fit :: "'s any_run \<times> 's world \<Rightarrow> bool" where
  "fit q \<longleftrightarrow> run_ready (fst q) \<and> sound view calm (wd_store (snd q))"

lemma run_steps_fit: "(run_step rt cl)\<^sup>*\<^sup>* q q' \<Longrightarrow> fit q \<Longrightarrow> fit q'"
proof (induction rule: rtranclp_induct)
  case (step y z)
  then show ?case using run_step_ready [of rt "fst y" "snd y" "fst z" "snd z"] by (simp add: fit_def)
qed

text \<open>For the workers of one workload it is enough that each gets to its loop.\<close>

lemma drain_workers:
  assumes turn: "\<And>x ks i. fit (mk x ks) \<Longrightarrow> i < length ks \<Longrightarrow> busy (ks ! i) \<Longrightarrow>
      \<exists>x' k. (run_step rt cl)\<^sup>*\<^sup>* (mk x ks) (mk x' (ks[i := k])) \<and> \<not> busy k"
    and "fit (mk x ks)" and idle: "\<And>x ks. (\<forall>k \<in> set ks. \<not> busy k) \<Longrightarrow> run_idle (fst (mk x ks))"
  shows "\<exists>q. (run_step rt cl)\<^sup>*\<^sup>* (mk x ks) q \<and> run_returned (fst q)"
proof -
  obtain x' ks' where ks': "(run_step rt cl)\<^sup>*\<^sup>* (mk x ks) (mk x' ks')" "\<forall>k \<in> set ks'. \<not> busy k"
    using drain_each [of "\<lambda>x ks. fit (mk x ks)" busy "run_step rt cl" mk x ks] turn run_steps_fit assms(2) by blast
  obtain r wd where r: "mk x' ks' = (r, wd)" by fastforce
  then have "run_step rt cl (r, wd) (Rn_done (run_workload r) None, wd)"
    using idle [OF ks'(2), of x'] by (intro run_step.return) simp
  then have "(run_step rt cl)\<^sup>*\<^sup>* (mk x ks) (Rn_done (run_workload r) None, wd)"
    using ks'(1) r by (simp add: rtranclp.rtrancl_into_rtrancl)
  then show ?thesis by (intro exI [of _ "(Rn_done (run_workload r) None, wd)"]) simp
qed

lemma put_body_returns: "calm s \<Longrightarrow> 0 \<le> n \<Longrightarrow> fst (cl_put cl k (body entropy n) n s) \<noteq> Panic"
  by (rule calls_return(1)) simp_all

text \<open>Objects: the call in flight returns and is recorded.\<close>

lemma call_step_enabled:
  assumes "en_recorder env \<noteq> Rec_nil" "wl_able (W_object kind (or_wl st))" "sound view calm (wd_store (or_world st))"
    and "or_pcs st ! i \<noteq> At_loop"
  shows "\<exists>st'. call_step kind entropy cl env i latency st = Ok st' \<and> or_pcs st' = (or_pcs st)[i := At_loop]"
proof -
  have calm: "calm (wd_store (or_world st))" using assms(3) by (simp add: sound_def)
  have size: "0 \<le> ow_size (or_wl st)" "ow_size (or_wl st) < 2 ^ 63" using assms(2) by (simp_all add: max_int64_def)
  have fin: "\<exists>st'. finish_call env i e s st = Ok st' \<and> or_pcs st' = (or_pcs st)[i := At_loop]" for e s
    using assms(1) by (cases "en_recorder env") (simp_all add: finish_call_def env_record_def)
  have read: "fst (obj_read kind cl (or_wl st) k (wd_store (or_world st))) \<noteq> Panic" for k
    using calls_return(4) [OF calm] range_returns [OF calm, of 0 "ow_size (or_wl st)"] size by (cases kind) simp_all
  have writes: "fst (obj_write kind cl k (body entropy (ow_size (or_wl st))) (ow_size (or_wl st)) (wd_store (or_world st))) \<noteq> Panic" for k
    using put_body_returns [OF calm size(1)] calls_return(2) [OF calm] by (cases kind) simp_all
  show ?thesis
  proof (cases "or_pcs st ! i")
    case (In_read k)
    then show ?thesis using read [of k] fin by (simp add: call_step_def Let_def case_prod_unfold)
  next
    case (In_write k)
    then show ?thesis using writes [of k] fin by (simp add: call_step_def Let_def case_prod_unfold)
  qed (use assms(4) in simp)
qed

lemma object_drains:
  assumes "fit (Rn_object env kind st, wd)"
  shows "\<exists>q. (run_step rt cl)\<^sup>*\<^sup>* (Rn_object env kind st, wd) q \<and> run_returned (fst q)"
proof -
  define mk where "mk x pcs = (Rn_object env kind ((fst x)\<lparr>or_pcs := pcs\<rparr>), snd x)" for x :: "'s obj_run \<times> 's world" and pcs
  have "\<exists>q. (run_step rt cl)\<^sup>*\<^sup>* (mk (st, wd) (or_pcs st)) q \<and> run_returned (fst q)"
  proof (rule drain_workers [where mk = mk and busy = "\<lambda>pc. pc \<noteq> At_loop"])
    fix x pcs i
    assume fit: "fit (mk x pcs)" and i: "i < length pcs" "pcs ! i \<noteq> At_loop"
    let ?st = "(fst x)\<lparr>or_pcs := pcs, or_world := snd x\<rparr>"
    obtain st' where st': "call_step kind (rt_entropy rt) cl env i 0 ?st = Ok st'" "or_pcs st' = pcs[i := At_loop]"
      using call_step_enabled [of env kind ?st i] fit i(2) by (auto simp: fit_def mk_def)
    have "run_step rt cl (mk x pcs) (Rn_object env kind st', or_world st')"
      unfolding mk_def by (rule run_step.object [where l = "Call i 0"]) (use st'(1) i(1) in simp)
    moreover have "st'\<lparr>or_pcs := pcs[i := At_loop]\<rparr> = st'" using st'(2) by simp
    ultimately show "\<exists>x' k. (run_step rt cl)\<^sup>*\<^sup>* (mk x pcs) (mk x' (pcs[i := k])) \<and> \<not> k \<noteq> At_loop"
      by (intro exI [of _ "(st', or_world st')"] exI [of _ At_loop]) (simp add: mk_def)
  qed (use assms in \<open>simp_all add: mk_def\<close>)
  then show ?thesis by (simp add: mk_def)
qed

text \<open>Crews: a turn of a worker that ends at its loop, or brings it there in several.\<close>

lemma crew_drains:
  fixes C :: "env \<Rightarrow> ('w, 'k, 's) crew \<Rightarrow> 's any_run"
    and rank :: "'w \<Rightarrow> 'k \<Rightarrow> 's world \<Rightarrow> nat"
  assumes step: "\<And>l st wd st'. crew_step act l (st\<lparr>cw_world := wd\<rparr>) = Ok st' \<Longrightarrow>
      run_step rt cl (C env st, wd) (C env st', cw_world st')"
    and turns: "\<And>i w ks wd. fit (C env \<lparr>cw_wl = w, cw_world = wd, cw_workers = ks\<rparr>, wd) \<Longrightarrow> i < length ks \<Longrightarrow> busy (ks ! i) \<Longrightarrow>
      \<exists>w' k wd'. act i 0 w (ks ! i) wd = Ok (w', k, wd') \<and> (rank w' k wd' < rank w (ks ! i) wd \<or> \<not> busy k)"
    and idle: "\<And>st. run_idle (C env st) \<longleftrightarrow> (\<forall>k \<in> set (cw_workers st). \<not> busy k)"
    and world: "\<And>st st' wd. cw_wl st' = cw_wl st \<Longrightarrow> cw_workers st' = cw_workers st \<Longrightarrow> fit (C env st, wd) = fit (C env st', wd)"
    and fit: "fit (C env st, wd)"
  shows "\<exists>q. (run_step rt cl)\<^sup>*\<^sup>* (C env st, wd) q \<and> run_returned (fst q)"
proof -
  define mk where "mk x ks = (C env ((fst x)\<lparr>cw_workers := ks\<rparr>), snd x)" for x :: "('w, 'k, 's) crew \<times> 's world" and ks
  have turn: "\<exists>x' k. (run_step rt cl)\<^sup>*\<^sup>* (mk x ks) (mk x' (ks[i := k])) \<and> \<not> busy k"
    if "fit (mk x ks)" "i < length ks" "busy (ks ! i)" for x ks i
    using that
  proof (induction "rank (cw_wl (fst x)) (ks ! i) (snd x)" arbitrary: x ks rule: less_induct)
    case less
    let ?st = "\<lparr>cw_wl = cw_wl (fst x), cw_world = snd x, cw_workers = ks\<rparr>"
    have fit: "fit (C env ?st, snd x)" using less.prems(1) unfolding mk_def by (subst world) simp_all
    obtain w' k wd' where act: "act i 0 (cw_wl (fst x)) (ks ! i) (snd x) = Ok (w', k, wd')"
      "rank w' k wd' < rank (cw_wl (fst x)) (ks ! i) (snd x) \<or> \<not> busy k"
      using turns [OF fit less.prems(2,3)] by blast
    let ?x = "(\<lparr>cw_wl = w', cw_world = wd', cw_workers = ks[i := k]\<rparr>, wd')"
    have "crew_step act (i, 0) ((fst x)\<lparr>cw_workers := ks, cw_world := snd x\<rparr>) = Ok (fst ?x)"
      using act(1) less.prems(2) by (simp add: crew_step_def)
    from step [OF this] have one: "run_step rt cl (mk x ks) (mk ?x (ks[i := k]))" by (simp add: mk_def)
    show ?case
    proof (cases "busy k")
      case True
      have "fit (mk ?x (ks[i := k]))" by (rule run_steps_fit [OF _ less.prems(1)]) (use one in blast)
      then have "\<exists>x' k'. (run_step rt cl)\<^sup>*\<^sup>* (mk ?x (ks[i := k])) (mk x' (ks[i := k, i := k'])) \<and> \<not> busy k'"
        using act(2) True less.prems(2) by (intro less.hyps) simp_all
      then show ?thesis using one by (auto intro: converse_rtranclp_into_rtranclp)
    qed (use one in blast)
  qed
  have "\<exists>q. (run_step rt cl)\<^sup>*\<^sup>* (mk (st, wd) (cw_workers st)) q \<and> run_returned (fst q)"
    by (rule drain_workers [where mk = mk and busy = busy]) (use turn fit in \<open>simp_all add: mk_def idle\<close>)
  then show ?thesis by (simp add: mk_def)
qed

lemma after_call_enabled:
  assumes "fst call \<noteq> Panic" "en_recorder env \<noteq> Rec_nil"
  shows "\<exists>wd'. after_call w k (record_call env r name x latency n call wd) = Ok (w, k, wd')"
  using record_call_Ok [OF assms] by auto

lemma dataloader_drains:
  assumes "fit (Rn_dataloader env st, wd)"
  shows "\<exists>q. (run_step rt cl)\<^sup>*\<^sup>* (Rn_dataloader env st, wd) q \<and> run_returned (fst q)"
proof (rule crew_drains [where act = "dl_act cl env" and busy = "\<lambda>k. dw_pc k \<noteq> Dl_loop" and rank = "\<lambda>_ _ _. 0"])
  fix i w ks wd
  assume "fit (Rn_dataloader env \<lparr>cw_wl = w, cw_world = wd, cw_workers = ks\<rparr>, wd)" and busy: "dw_pc (ks ! i) \<noteq> Dl_loop"
  then have rec: "en_recorder env \<noteq> Rec_nil" and calm: "calm (wd_store wd)" by (simp_all add: fit_def sound_def)
  have "\<exists>wd'. dl_act cl env i 0 w (ks ! i) wd = Ok (w, (ks ! i)\<lparr>dw_pc := Dl_loop\<rparr>, wd')"
  proof (cases "dw_pc (ks ! i)")
    case (Dl_get key)
    then show ?thesis
      using after_call_enabled [OF calls_return(4) [OF calm] rec] by (simp add: dl_act_def do_get_def Let_def)
  next
    case (Dl_range key)
    then show ?thesis
      using after_call_enabled [OF range_returns [OF calm] rec, of 0 65536] by (simp add: dl_act_def do_range_get_def Let_def)
  qed (use busy in simp)
  then show "\<exists>w' k wd'. dl_act cl env i 0 w (ks ! i) wd = Ok (w', k, wd') \<and> ((0 :: nat) < 0 \<or> \<not> dw_pc k \<noteq> Dl_loop)"
    by fastforce
qed (use assms in \<open>auto intro: run_step.dataloader simp: fit_def\<close>)

text \<open>A listing ends because each page starts later than the one before.\<close>

fun list_rank :: "'s world \<Rightarrow> metadata_wl \<Rightarrow> md_pc \<Rightarrow> nat" where
  "list_rank wd w (Md_list d tok) =
     card {k \<in> dom (view (wd_store wd)). has_prefix k (addr (md_name w @ ''/'')) \<and> after tok k}"
| "list_rank wd w pc = 0"

lemma list_turn_enabled:
  assumes "en_recorder env \<noteq> Rec_nil" "calm (wd_store wd)"
  shows "\<exists>pc wd'. list_turn cl env r latency w d tok wd = Ok (pc, wd') \<and>
    (list_rank wd' w pc < list_rank wd w (Md_list d tok) \<or> pc = Md_loop)"
proof -
  let ?call = "cl_list cl (md_name w @ ''/'') d tok 100 (wd_store wd)"
  obtain wd' where wd': "record_call env r (md_name w) OpList latency (list_count (fst ?call)) ?call wd = Ok wd'"
    using record_call_Ok [OF calls_return(6) [OF assms(2)] assms(1)] by blast
  have view: "view (wd_store wd') = view (wd_store wd)"
    by (simp add: record_call_store [OF wd'] list_frame)
  have turn: "list_turn cl env r latency w d tok wd = Ok (list_next_pc d (fst ?call), wd')"
    using wd' by (simp add: list_turn_def Let_def)
  show ?thesis
  proof (cases "\<exists>res. fst ?call = Ok res \<and> lr_truncated res")
    case True
    then obtain res where res: "fst ?call = Ok res" "lr_truncated res" by blast
    let ?K = "\<lambda>t. {k \<in> dom (view (wd_store wd)). has_prefix k (addr (md_name w @ ''/'')) \<and> after t k}"
    have "finite (?K tok)" using finite_view [OF assms(2)] by simp
    then have "card (?K (lr_next res)) < card (?K tok)"
      using list_later [OF assms(2) _ _ res] by (intro psubset_card_mono) simp_all
    then show ?thesis using turn res view by (simp add: list_next_pc_def)
  next
    case False
    then have "list_next_pc d (fst ?call) = Md_loop" by (auto simp: list_next_pc_def split: res.splits)
    then show ?thesis using turn by simp
  qed
qed

lemma metadata_drains:
  assumes "fit (Rn_metadata env st, wd)"
  shows "\<exists>q. (run_step rt cl)\<^sup>*\<^sup>* (Rn_metadata env st, wd) q \<and> run_returned (fst q)"
proof (rule crew_drains [where act = "md_act cl env" and busy = "\<lambda>k. mw_pc k \<noteq> Md_loop"
      and rank = "\<lambda>w k wd. list_rank wd w (mw_pc k)"])
  fix i w ks wd
  assume "fit (Rn_metadata env \<lparr>cw_wl = w, cw_world = wd, cw_workers = ks\<rparr>, wd)" and busy: "mw_pc (ks ! i) \<noteq> Md_loop"
  then have rec: "en_recorder env \<noteq> Rec_nil" and calm: "calm (wd_store wd)" by (simp_all add: fit_def sound_def)
  note enabled = after_call_enabled [OF calls_return(5) [OF calm] rec] after_call_enabled [OF calls_return(7) [OF calm] rec]
    after_call_enabled [OF calls_return(8) [OF calm] rec] after_call_enabled [OF calls_return(9) [OF calm] rec]
  let ?k = "ks ! i"
  show "\<exists>w' k wd'. md_act cl env i 0 w ?k wd = Ok (w', k, wd') \<and>
    (list_rank wd' w' (mw_pc k) < list_rank wd w (mw_pc ?k) \<or> \<not> mw_pc k \<noteq> Md_loop)"
  proof (cases "\<exists>d tok. mw_pc ?k = Md_list d tok")
    case True
    then obtain d tok where pc: "mw_pc ?k = Md_list d tok" by blast
    obtain pc' wd' where turn: "list_turn cl env (Some (int i)) 0 w d tok wd = Ok (pc', wd')"
      "list_rank wd' w pc' < list_rank wd w (Md_list d tok) \<or> pc' = Md_loop"
      using list_turn_enabled [OF rec calm] by blast
    have "md_act cl env i 0 w ?k wd = Ok (w, ?k\<lparr>mw_pc := pc'\<rparr>, wd')" by (simp add: md_act_def pc turn(1) Let_def)
    then show ?thesis using turn(2) by (intro exI conjI) (assumption | simp add: pc)+
  next
    case False
    have "\<exists>wd'. md_act cl env i 0 w ?k wd = Ok (w, ?k\<lparr>mw_pc := Md_loop\<rparr>, wd')"
      using False busy enabled
      by (cases "mw_pc ?k") (simp_all add: md_act_def md_head_def md_copy_def md_put_tags_def md_get_tags_def Let_def)
    then show ?thesis by fastforce
  qed
qed (use assms in \<open>auto intro: run_step.metadata simp: fit_def\<close>)

text \<open>A worker of LanceDB that waits for a size has a ranged read to go.\<close>

fun head_rank :: "lc_pc \<Rightarrow> nat" where
  "head_rank (Lc_head key) = 1"
| "head_rank pc = 0"

lemma head_turn_enabled:
  assumes "en_recorder env \<noteq> Rec_nil" "sound view calm (wd_store wd)" "lk_ready k"
  shows "\<exists>k' wd'. head_turn gauss cl env r latency w k key wd = Ok (k', wd') \<and> head_rank (lw_pc k') = 0"
proof -
  let ?call = "cl_head cl key (wd_store wd)"
  have calm: "calm (wd_store wd)" using assms(2) by (simp add: sound_def)
  obtain wd1 where wd1: "record_call env r (lc_name w) OpHead latency 0 ?call wd = Ok wd1"
    using record_call_Ok [OF calls_return(5) [OF calm] assms(1)] by blast
  show ?thesis
  proof (cases "fst ?call")
    case (Ok sz)
    have l: "0 \<le> lg_min (lw_sampler k)" "lg_min (lw_sampler k) \<le> lg_max (lw_sampler k)"
      using assms(3) by (simp_all add: lk_ready_def)
    have sz: "0 \<le> sz" "sz < 2 ^ 63 - 1" using head_bounds [OF assms(2) Ok] by simp_all
    obtain off rs l' r' where "plan_range gauss sz (lw_sampler k) (lw_rng k) = Ok (off, rs, l', r')"
      by (rule plan_range_ok [OF sz l])
    then show ?thesis using wd1 Ok by (simp add: head_turn_def Let_def)
  qed (use wd1 in \<open>simp_all add: head_turn_def Let_def\<close>)
qed

lemma lancedb_drains:
  assumes "fit (Rn_lancedb env st, wd)"
  shows "\<exists>q. (run_step rt cl)\<^sup>*\<^sup>* (Rn_lancedb env st, wd) q \<and> run_returned (fst q)"
proof (rule crew_drains [where act = "lc_act (rt_entropy rt) (rt_gauss rt) cl env" and busy = "\<lambda>k. lw_pc k \<noteq> Lc_loop"
      and rank = "\<lambda>w k wd. head_rank (lw_pc k)"])
  fix i w ks wd
  assume fit: "fit (Rn_lancedb env \<lparr>cw_wl = w, cw_world = wd, cw_workers = ks\<rparr>, wd)"
    and i: "i < length ks" and busy: "lw_pc (ks ! i) \<noteq> Lc_loop"
  let ?k = "ks ! i"
  have rec: "en_recorder env \<noteq> Rec_nil" and calm: "calm (wd_store wd)" and k: "lk_ready ?k"
    and sound: "sound view calm (wd_store wd)"
    using fit i by (auto simp: fit_def sound_def)
  have returned: "\<exists>w' k wd'. lc_act (rt_entropy rt) (rt_gauss rt) cl env i 0 w ?k wd = Ok (w', k, wd') \<and>
      (head_rank (lw_pc k) < head_rank (lw_pc ?k) \<or> \<not> lw_pc k \<noteq> Lc_loop)"
    if "\<exists>wd'. lc_act (rt_entropy rt) (rt_gauss rt) cl env i 0 w ?k wd = Ok (w, ?k\<lparr>lw_pc := Lc_loop\<rparr>, wd')"
    using that by fastforce
  show "\<exists>w' k wd'. lc_act (rt_entropy rt) (rt_gauss rt) cl env i 0 w ?k wd = Ok (w', k, wd') \<and>
    (head_rank (lw_pc k) < head_rank (lw_pc ?k) \<or> \<not> lw_pc k \<noteq> Lc_loop)"
  proof (cases "lw_pc ?k")
    case (Lc_head key)
    then show ?thesis
      using head_turn_enabled [OF rec sound k, of "rt_gauss rt" "Some (int i)" 0 w key]
      by (auto simp: lc_act_def Let_def)
  next
    case (Lc_range key off rs)
    then have "fst (cl_range_get cl key off rs (wd_store wd)) \<noteq> Panic"
      using k by (intro range_returns [OF calm]) (simp_all add: lk_ready_def)
    then show ?thesis
      using after_call_enabled [OF _ rec] Lc_range by (intro returned) (simp add: lc_act_def range_turn_def Let_def)
  next
    case (Lc_list d)
    then show ?thesis
      using after_call_enabled [OF calls_return(6) [OF calm] rec] by (intro returned) (simp add: lc_act_def list_manifest_def Let_def)
  next
    case (Lc_write key n)
    then have "fst (cl_put cl key (body (rt_entropy rt) n) n (wd_store wd)) \<noteq> Panic"
      using k by (intro put_body_returns [OF calm]) (simp add: lk_ready_def)
    then show ?thesis
      using after_call_enabled [OF _ rec] Lc_write by (intro returned) (simp add: lc_act_def write_turn_def Let_def)
  qed (use busy in simp)
qed (use assms in \<open>auto intro: run_step.lancedb simp: fit_def\<close>)

text \<open>A checkpoint run by its rank.\<close>

lemma sound_returns_at: "sound view calm s \<Longrightarrow> returns_at cl s"
  by (simp add: returns_at_def sound_def calls_return)

lemma checkpoint_drains:
  assumes "fit (Rn_checkpoint env st, wd)"
  shows "\<exists>q. (run_step rt cl)\<^sup>*\<^sup>* (Rn_checkpoint env st, wd) q \<and> run_returned (fst q)"
  using assms
proof (induction "ckpt_rank st" arbitrary: st wd rule: less_induct)
  case less
  let ?st = "st\<lparr>cr_world := wd\<rparr>"
  have fit: "en_recorder env \<noteq> Rec_nil" "ckpt_tidy ?st" "returns_at cl (wd_store (cr_world ?st))"
    using less.prems by (simp_all add: fit_def ckpt_tidy_def sound_returns_at)
  show ?case
  proof (cases "ckpt_quiet st")
    case True
    then have "run_step rt cl (Rn_checkpoint env st, wd) (Rn_done (W_checkpoint (cr_wl st)) None, wd)"
      using run_step.return [of "Rn_checkpoint env st" rt cl wd] by simp
    then show ?thesis by (intro exI [of _ "(Rn_done (W_checkpoint (cr_wl st)) None, wd)"]) auto
  next
    case False
    then have "\<not> ckpt_quiet ?st" by (simp add: ckpt_quiet_def)
    then obtain st' where st': "ckpt_drain (rt_entropy rt) cl env ?st st'"
      using ckpt_drain_enabled [OF fit(3,1,2)] by blast
    then have rank: "ckpt_rank st' < ckpt_rank st" using ckpt_drain_rank [OF st' fit(2)] by simp
    have step: "run_step rt cl (Rn_checkpoint env st, wd) (Rn_checkpoint env st', cr_world st')"
      by (rule run_step.checkpoint) (use st' in \<open>simp add: ckpt_drain_def\<close>)
    have "fit (Rn_checkpoint env st', cr_world st')" by (rule run_steps_fit [OF _ less.prems]) (use step in blast)
    from less.hyps [OF rank this] show ?thesis using step by (meson converse_rtranclp_into_rtranclp)
  qed
qed

text \<open>Several runs, in a mix or in a phase, return one after the other.\<close>

lemma lift_child:
  assumes lift: "\<And>i rs wd r wd'. i < length rs \<Longrightarrow> run_step rt cl (rs ! i, wd) (r, wd') \<Longrightarrow> S (F rs, wd) (F (rs[i := r]), wd')"
    and "(run_step rt cl)\<^sup>*\<^sup>* (rs ! i, wd) (r, wd')" "i < length rs"
  shows "S\<^sup>*\<^sup>* (F rs, wd) (F (rs[i := r]), wd')"
  using assms(2)
proof (induction rule: rtranclp_induct2)
  case (step r1 wd1 r2 wd2)
  have "S (F (rs[i := r1]), wd1) (F (rs[i := r1, i := r2]), wd2)"
    by (rule lift) (use step.hyps(2) assms(3) in simp_all)
  then show ?case using step.IH by (simp add: rtranclp.rtrancl_into_rtrancl)
qed simp

lemma all_return:
  assumes lift: "\<And>i rs wd r wd'. i < length rs \<Longrightarrow> run_step rt cl (rs ! i, wd) (r, wd') \<Longrightarrow> S (F rs, wd) (F (rs[i := r]), wd')"
    and each: "\<And>r wd. r \<in> set rs \<Longrightarrow> fit (r, wd) \<Longrightarrow> \<exists>q. (run_step rt cl)\<^sup>*\<^sup>* (r, wd) q \<and> run_returned (fst q)"
    and "\<forall>r \<in> set rs. run_ready r" "sound view calm (wd_store wd)"
  shows "\<exists>rs' wd'. S\<^sup>*\<^sup>* (F rs, wd) (F rs', wd') \<and> length rs' = length rs \<and>
    (\<forall>r \<in> set rs'. run_returned r \<and> run_ready r) \<and> sound view calm (wd_store wd')"
proof -
  define I where "I wd ks \<longleftrightarrow> length ks = length rs \<and> sound view calm (wd_store wd) \<and>
    (\<forall>k \<in> set ks. run_ready k \<and> (run_returned k \<or> k \<in> set rs))" for wd :: "'s world" and ks
  have "\<exists>wd' ks. S\<^sup>*\<^sup>* (F rs, wd) (F ks, wd') \<and> I wd' ks \<and> (\<forall>k \<in> set ks. \<not> \<not> run_returned k)"
  proof (rule drain_each [where mk = "\<lambda>wd ks. (F ks, wd)" and I = I and busy = "\<lambda>r. \<not> run_returned r"])
    fix wd :: "'s world" and ks :: "'s any_run list" and i
    assume I: "I wd ks" and i: "i < length ks" and busy: "\<not> run_returned (ks ! i)"
    then have "ks ! i \<in> set rs" "fit (ks ! i, wd)" using nth_mem [OF i] by (auto simp: I_def fit_def)
    then obtain r wd' where r: "(run_step rt cl)\<^sup>*\<^sup>* (ks ! i, wd) (r, wd')" "run_returned r"
      using each by fastforce
    have "fit (r, wd')" by (rule run_steps_fit [OF r(1)]) fact
    then have "I wd' (ks[i := r])"
      using I r(2) set_update_subset_insert [of ks i r] by (auto simp: I_def fit_def)
    then show "\<exists>wd' k. S\<^sup>*\<^sup>* (F ks, wd) (F (ks[i := k]), wd') \<and> I wd' (ks[i := k]) \<and> \<not> \<not> run_returned k"
      using lift_child [where S = S and F = F, OF lift r(1) i] r(2) by blast
  qed (use assms(3,4) in \<open>simp add: I_def\<close>)
  then show ?thesis by (auto simp: I_def)
qed

lemma mix_drains:
  assumes "fit (Rn_mix name rs ws, wd)"
    and "\<And>r wd. r \<in> set rs \<Longrightarrow> fit (r, wd) \<Longrightarrow> \<exists>q. (run_step rt cl)\<^sup>*\<^sup>* (r, wd) q \<and> run_returned (fst q)"
  shows "\<exists>q. (run_step rt cl)\<^sup>*\<^sup>* (Rn_mix name rs ws, wd) q \<and> run_returned (fst q)"
proof -
  have "\<exists>rs' wd'. (run_step rt cl)\<^sup>*\<^sup>* (Rn_mix name rs ws, wd) (Rn_mix name rs' ws, wd') \<and> length rs' = length rs \<and>
      (\<forall>r \<in> set rs'. run_returned r \<and> run_ready r) \<and> sound view calm (wd_store wd')"
    by (rule all_return [where rt = rt and F = "\<lambda>rs. Rn_mix name rs ws"])
      (use assms run_step.child in \<open>auto simp: fit_def\<close>)
  then obtain rs' wd' where rs': "(run_step rt cl)\<^sup>*\<^sup>* (Rn_mix name rs ws, wd) (Rn_mix name rs' ws, wd')"
    "\<forall>r \<in> set rs'. run_returned r" by blast
  have "run_step rt cl (Rn_mix name rs' ws, wd')
      (Rn_done (W_mix name (map run_workload rs') ws) (mix_result rt name []), wd')"
    by (rule run_step.join [OF rs'(2)]) simp
  then have "(run_step rt cl)\<^sup>*\<^sup>* (Rn_mix name rs ws, wd)
      (Rn_done (W_mix name (map run_workload rs') ws) (mix_result rt name []), wd')"
    using rs'(1) by (rule rtranclp.rtrancl_into_rtrancl [rotated])
  then show ?thesis by (metis fst_conv run_returned.simps(1))
qed

text \<open>A child that has not started yet starts; what it then is comes to its end.\<close>

lemma launch_leaf:
  assumes "fit (Rn_launch env w, wd)"
    and "\<And>r wd'. wl_start rt env w wd = Ok (r, wd') \<Longrightarrow> fit (r, wd') \<Longrightarrow>
      run_returned r \<or> (\<exists>q. (run_step rt cl)\<^sup>*\<^sup>* (r, wd') q \<and> run_returned (fst q))"
  shows "\<exists>q. (run_step rt cl)\<^sup>*\<^sup>* (Rn_launch env w, wd) q \<and> run_returned (fst q)"
proof -
  obtain r wd1 where r: "wl_start rt env w wd = Ok (r, wd1)"
    using wl_start_enabled [of env w rt wd] assms(1) by (auto simp: fit_def)
  have step: "run_step rt cl (Rn_launch env w, wd) (r, wd1)" by (rule run_step.launch [OF r])
  have "fit (r, wd1)" by (rule run_steps_fit [OF _ assms(1)]) (use step in blast)
  then obtain q where "(run_step rt cl)\<^sup>*\<^sup>* (r, wd1) q" "run_returned (fst q)"
    using assms(2) [OF r] by (metis fst_conv rtranclp.rtrancl_refl)
  then show ?thesis using step by (meson converse_rtranclp_into_rtranclp)
qed

lemma launch_drains:
  assumes "fit (Rn_launch env w, wd)"
  shows "\<exists>q. (run_step rt cl)\<^sup>*\<^sup>* (Rn_launch env w, wd) q \<and> run_returned (fst q)"
  using assms
proof (induction w arbitrary: env wd)
  case (W_mix name cs ws)
  show ?case
  proof (rule launch_leaf [OF W_mix.prems])
    fix r wd1
    assume r: "wl_start rt env (W_mix name cs ws) wd = Ok (r, wd1)" and fit: "fit (r, wd1)"
    show "run_returned r \<or> (\<exists>q. (run_step rt cl)\<^sup>*\<^sup>* (r, wd1) q \<and> run_returned (fst q))"
    proof (cases "\<exists>rs. r = Rn_mix name rs ws")
      case True
      then obtain rs where rs: "r = Rn_mix name rs ws" by blast
      have "\<exists>env c. x = Rn_launch env c \<and> c \<in> set cs" if "x \<in> set rs" for x
        using r that unfolding rs by (auto simp: mix_start_def set_zip split: if_splits)
      then have "\<exists>q. (run_step rt cl)\<^sup>*\<^sup>* (x, wd2) q \<and> run_returned (fst q)" if "x \<in> set rs" "fit (x, wd2)" for x wd2
        using W_mix.IH that by blast
      then show ?thesis using mix_drains fit unfolding rs by blast
    next
      case False
      then show ?thesis using r by (auto simp: mix_start_def split: if_splits)
    qed
  qed
next
  case leaf: (W_object kind x)
  show ?case by (rule launch_leaf [OF leaf.prems]) (auto intro: object_drains simp: launched_def simp del: split_paired_Ex split: res.splits)
next
  case leaf: (W_checkpoint x)
  show ?case by (rule launch_leaf [OF leaf.prems]) (auto intro: checkpoint_drains simp: launched_def simp del: split_paired_Ex split: res.splits)
next
  case leaf: (W_lancedb x)
  show ?case by (rule launch_leaf [OF leaf.prems]) (auto intro: lancedb_drains simp: launched_def simp del: split_paired_Ex split: res.splits)
next
  case leaf: (W_dataloader x)
  show ?case by (rule launch_leaf [OF leaf.prems]) (auto intro: dataloader_drains simp: launched_def simp del: split_paired_Ex split: res.splits)
next
  case leaf: (W_metadata x)
  show ?case by (rule launch_leaf [OF leaf.prems]) (auto intro: metadata_drains simp: launched_def simp del: split_paired_Ex split: res.splits)
qed

text \<open>So from every state a run can be in, it can return.\<close>

lemma run_drains:
  assumes "fit (r, wd)"
  shows "\<exists>q. (run_step rt cl)\<^sup>*\<^sup>* (r, wd) q \<and> run_returned (fst q)"
  using assms
proof (induction r arbitrary: wd)
  case (Rn_mix name rs ws)
  then show ?case by (intro mix_drains) blast+
next
  case (Rn_done w err)
  then show ?case by (intro exI [of _ "(Rn_done w err, wd)"]) simp
qed (blast intro: launch_drains object_drains checkpoint_drains lancedb_drains dataloader_drains metadata_drains)+

end

section \<open>The phases of the runner\<close>

fun runner_ready :: "'s runner \<Rightarrow> bool" where
  "runner_ready (Warming es rs) \<longleftrightarrow> (\<forall>r \<in> set rs. run_ready r)"
| "runner_ready (Measuring es rs) \<longleftrightarrow> (\<forall>r \<in> set rs. run_ready r)"
| "runner_ready (Finished es ws) \<longleftrightarrow> (\<forall>w \<in> set ws. wl_able w)"

lemma write_one_at_able:
  assumes "write_one_at entropy cl env r latency w wd = (out, w', wd')" "wl_able (W_checkpoint w)"
  shows "wl_able (W_checkpoint w')"
proof -
  let ?w = "w\<lparr>ck_counter := wrap64 (ck_counter w + 1)\<rparr>" and ?k = "ckpt_key w (wrap64 (ck_counter w + 1))"
  have able: "wl_able (W_checkpoint ?w)" using assms(2) by simp
  then have "int (length (ck_versions ?w)) \<le> ck_retain ?w" by simp
  then obtain vs old where "commit_version ?w ?k = Ok (?w\<lparr>ck_versions := vs\<rparr>, old)" "length old \<le> 1"
    "int (length vs) \<le> ck_retain ?w"
    by (rule commit_version_tidy)
  then show ?thesis
    using assms(1) able
    by (auto simp: write_one_at_def next_key_def Let_def split: prod.splits res.splits)
qed

lemma prepopulate_able:
  "wl_prepopulate rt cl env w wd = (out, w', env', wd') \<Longrightarrow> wl_able w \<Longrightarrow> wl_able w'"
  "mix_prepopulate rt cl env cs wd = (out, cs', env', wd') \<Longrightarrow> \<forall>c \<in> set cs. wl_able c \<Longrightarrow>
     length cs' = length cs \<and> (\<forall>c \<in> set cs'. wl_able c)"
proof (induction rt cl env w wd and rt cl env cs wd arbitrary: out w' env' wd' and out cs' env' wd'
    rule: wl_prepopulate_mix_prepopulate.induct)
  case (1 rt cl env kind w wd)
  then show ?case by (auto simp: obj_prepopulate_def split: prod.splits res.splits)
next
  case (2 rt cl env w wd)
  then show ?case by (auto simp: ckpt_prepopulate_def split: prod.splits dest!: write_one_at_able)
next
  case (3 rt cl env w wd)
  then show ?case by (auto simp: lc_prepopulate_def lc_valid_def Let_def split: prod.splits if_splits)
next
  case (4 rt cl env w wd)
  then show ?case by (auto split: prod.splits)
next
  case (5 rt cl env w wd)
  then show ?case by (auto split: prod.splits)
next
  case (6 rt cl env name cs ws wd)
  then show ?case by (auto split: prod.splits)
next
  case (7 rt cl env wd)
  then show ?case by simp
next
  case (8 rt cl env c cs wd)
  obtain o1 c1 env1 wd1 where c: "wl_prepopulate rt cl env c wd = (o1, c1, env1, wd1)" by (metis prod_cases4)
  have c1: "wl_able c1" using "8.IH"(1) [OF c] "8.prems"(2) by simp
  show ?case
  proof (cases o1)
    case (Ok u)
    obtain o2 cs1 env2 wd2 where cs: "mix_prepopulate rt cl env1 cs wd1 = (o2, cs1, env2, wd2)" by (metis prod_cases4)
    have "length cs1 = length cs \<and> (\<forall>c \<in> set cs1. wl_able c)"
      by (rule "8.IH"(2) [OF c [symmetric] Ok refl refl cs]) (use "8.prems"(2) in simp)
    then show ?thesis using "8.prems"(1) c cs c1 Ok by auto
  qed (use "8.prems" c c1 in auto)
qed

lemma prepopulate_all_able:
  "prepopulate_all rt cl opt i ws wd = (out, ws', wd') \<Longrightarrow> \<forall>w \<in> set ws. wl_able w \<Longrightarrow> \<forall>w \<in> set ws'. wl_able w"
proof (induction ws arbitrary: i wd out ws' wd')
  case (Cons w ws)
  obtain o1 w1 env1 wd1 where w: "wl_prepopulate rt cl (mk_env rt opt i) w wd = (o1, w1, env1, wd1)"
    by (metis prod_cases4)
  have w1: "wl_able w1" by (rule prepopulate_able(1) [OF w]) (use Cons.prems(2) in simp)
  obtain o2 ws1 wd2 where ws: "prepopulate_all rt cl opt (Suc i) ws wd1 = (o2, ws1, wd2)" by (metis prod_cases3)
  have "\<forall>w \<in> set ws1. wl_able w" by (rule Cons.IH [OF ws]) (use Cons.prems(2) in simp)
  then show ?case using Cons.prems w ws w1 by (auto split: res.splits)
qed simp

lemma launch_all_ready:
  assumes "rec \<noteq> Rec_nil" "\<forall>w \<in> set ws. wl_able w"
  shows "\<forall>r \<in> set (launch_all rt opt rec ws). run_ready r"
  using assms by (auto simp: launch_all_def set_zip)

lemma runner_start_ready:
  assumes "runner_start rt cl opt wd = (Ok r, wd')" "\<forall>w \<in> set (ro_workloads opt). wl_able w"
  shows "runner_ready r"
proof -
  have rec: "ro_recorder opt \<noteq> Rec_nil" using assms(1) by (auto simp: runner_start_def run_check_def)
  obtain es ws where "if ro_prepopulate opt then prepopulate_all rt cl opt 0 (ro_workloads opt) wd = (Ok es, ws, wd')
      else ws = ro_workloads opt"
    and r: "r = (if ro_warmup opt > 0 then Warming es (launch_all rt opt Rec_discard ws)
      else Measuring es (launch_all rt opt (ro_recorder opt) ws))"
    using assms(1) by (auto simp: runner_start_def split: res.splits prod.splits if_splits)
  then have "\<forall>w \<in> set ws. wl_able w"
    using prepopulate_all_able [of rt cl opt 0 "ro_workloads opt" wd] assms(2) by (auto split: if_splits)
  then show ?thesis
    using rec by (auto simp: r elim: launch_all_ready [THEN bspec, rotated 2])
qed

context responsive_store
begin

lemma runner_step_ready:
  assumes "runner_step rt cl opt (r, wd) (r', wd')" "ro_recorder opt \<noteq> Rec_nil"
    and "runner_ready r" "sound view calm (wd_store wd)"
  shows "runner_ready r' \<and> sound view calm (wd_store wd')"
proof -
  have child: "(\<forall>x \<in> set (rs[i := q]). run_ready x) \<and> sound view calm (wd_store wd')"
    if "i < length rs" "run_step rt cl (rs ! i, wd) (q, wd')" "\<forall>x \<in> set rs. run_ready x" for rs i q
  proof -
    have "run_ready q \<and> sound view calm (wd_store wd')"
      by (rule run_step_ready [OF that(2)]) (use that(1,3) assms(4) in simp_all)
    then show ?thesis using that(3) set_update_subset_insert [of rs i q] by auto
  qed
  show ?thesis
    using assms(1)
  proof cases
    case (warm i rs q es)
    then show ?thesis using child [of i rs q] assms(3) by simp
  next
    case (measure i rs q es)
    then show ?thesis using child [of i rs q] assms(3) by simp
  next
    case (warmed rs es)
    then have "\<forall>w \<in> set (map run_workload rs). wl_able w" using assms(3) ready_able by auto
    from launch_all_ready [OF assms(2) this, of rt opt] show ?thesis using warmed assms(4) by simp
  next
    case (measured rs es)
    then show ?thesis using assms(3,4) ready_able by auto
  qed
qed

text \<open>A phase whose runs have all returned gives way to the next, so the end can always be reached.\<close>

lemma measuring_drains:
  assumes "\<forall>r \<in> set rs. run_ready r" "sound view calm (wd_store wd)"
  shows "\<exists>ws wd'. (runner_step rt cl opt)\<^sup>*\<^sup>* (Measuring es rs, wd) (Finished es ws, wd')"
proof -
  have "\<exists>rs' wd'. (runner_step rt cl opt)\<^sup>*\<^sup>* (Measuring es rs, wd) (Measuring es rs', wd') \<and> length rs' = length rs \<and>
      (\<forall>r \<in> set rs'. run_returned r \<and> run_ready r) \<and> sound view calm (wd_store wd')"
    by (rule all_return [where rt = rt and F = "Measuring es"])
      (use assms runner_step.measure run_drains in \<open>simp_all\<close>)
  then obtain rs' wd' where rs': "(runner_step rt cl opt)\<^sup>*\<^sup>* (Measuring es rs, wd) (Measuring es rs', wd')"
    "\<forall>r \<in> set rs'. run_returned r" by blast
  show ?thesis using rtranclp.rtrancl_into_rtrancl [OF rs'(1) runner_step.measured [OF rs'(2)]] by blast
qed

lemma runner_drains:
  assumes "runner_ready r" "sound view calm (wd_store wd)" "ro_recorder opt \<noteq> Rec_nil"
  shows "\<exists>es ws wd'. (runner_step rt cl opt)\<^sup>*\<^sup>* (r, wd) (Finished es ws, wd')"
proof (cases r)
  case (Warming es rs)
  have "\<exists>rs' wd'. (runner_step rt cl opt)\<^sup>*\<^sup>* (Warming es rs, wd) (Warming es rs', wd') \<and> length rs' = length rs \<and>
      (\<forall>r \<in> set rs'. run_returned r \<and> run_ready r) \<and> sound view calm (wd_store wd')"
    by (rule all_return [where rt = rt and F = "Warming es"])
      (use assms Warming runner_step.warm run_drains in \<open>simp_all\<close>)
  then obtain rs' wd' where rs': "(runner_step rt cl opt)\<^sup>*\<^sup>* (Warming es rs, wd) (Warming es rs', wd')"
    "\<forall>r \<in> set rs'. run_returned r" "\<forall>r \<in> set rs'. run_ready r" "sound view calm (wd_store wd')" by blast
  let ?m = "launch_all rt opt (ro_recorder opt) (map run_workload rs')"
  have "\<forall>w \<in> set (map run_workload rs'). wl_able w" using rs'(3) ready_able by auto
  then obtain ws wd2 where "(runner_step rt cl opt)\<^sup>*\<^sup>* (Measuring es ?m, wd') (Finished es ws, wd2)"
    using measuring_drains [OF launch_all_ready [OF assms(3)] rs'(4)] by blast
  moreover have "(runner_step rt cl opt)\<^sup>*\<^sup>* (Warming es rs, wd) (Measuring es ?m, wd')"
    by (rule rtranclp.rtrancl_into_rtrancl [OF rs'(1) runner_step.warmed [OF rs'(2)]])
  ultimately show ?thesis unfolding Warming by (blast intro: rtranclp_trans)
next
  case (Measuring es rs)
  then show ?thesis using measuring_drains assms by fastforce
qed blast

end

end
