(* ===== verification/Progress.thy ===== *)
theory Progress
  imports Cli Drain
begin

text \<open>
  The whole tool comes to its end. \<open>Drain\<close> shows that the phases of a run can always be completed on a
  responsive store; here this is carried up through \<open>doRun\<close>: over the SDK-backed client, from every
  state a run can be in, it can get to its reports and its cleanup, exit in success and leave the
  bucket as it found it. Nothing in the tool waits for something that cannot happen.
\<close>

section \<open>From every state to the exit\<close>

context responsive_store
begin

lemma do_run_steps_ready:
  assumes "(do_run_step t)\<^sup>*\<^sup>* (Busy cl opt cfg r, wd, w) (Busy cl' opt' cfg' r', wd', w')"
    and "ro_recorder opt \<noteq> Rec_nil" "runner_ready r" "sound view calm (wd_store wd)"
  shows "cl' = cl \<and> opt' = opt \<and> cfg' = cfg \<and> runner_ready r' \<and> sound view calm (wd_store wd')"
  using assms(1)
proof (induction "(Busy cl' opt' cfg' r', wd', w')" arbitrary: cl' opt' cfg' r' wd' w' rule: rtranclp_induct)
  case base
  then show ?case using assms(3,4) by simp
next
  case (step y)
  obtain d1 wd1 w1 where y: "y = (d1, wd1, w1)" by (metis prod_cases3)
  show ?case
  proof (cases d1)
    case (Busy cl1 opt1 cfg1 r1)
    have 1: "cl1 = cl \<and> opt1 = opt \<and> cfg1 = cfg \<and> runner_ready r1 \<and> sound view calm (wd_store wd1)"
      by (rule step.hyps(3)) (simp add: y Busy)
    have "do_run_step t (Busy cl1 opt1 cfg1 r1, wd1, w1) (Busy cl' opt' cfg' r', wd', w')"
      using step.hyps(2) unfolding y Busy .
    then have "runner_step (tl_runtime t) cl opt (r1, wd1) (r', wd')" "cl' = cl" "opt' = opt" "cfg' = cfg"
      using 1 by (auto elim: busyE)
    then show ?thesis using runner_step_ready [OF _ assms(2)] 1 by blast
  next
    case (Exited out)
    then show ?thesis using step.hyps(2) unfolding y by (auto elim: exitedE)
  qed
qed

lemma do_run_drains:
  assumes "runner_ready r" "sound view calm (wd_store wd)" "ro_recorder opt \<noteq> Rec_nil"
  shows "\<exists>es ws wd'. (do_run_step t)\<^sup>*\<^sup>* (Busy cl opt cfg r, wd, w) (Busy cl opt cfg (Finished es ws), wd', w)"
proof -
  have lift: "(do_run_step t)\<^sup>*\<^sup>* (Busy cl opt cfg r, wd, w) (Busy cl opt cfg r', wd', w)"
    if "(runner_step (tl_runtime t) cl opt)\<^sup>*\<^sup>* (r, wd) (r', wd')" for r' wd'
    using that
  proof (induction rule: rtranclp_induct2)
    case (step r1 wd1 r2 wd2)
    then show ?case using do_run_step.busy by (metis rtranclp.rtrancl_into_rtrancl)
  qed simp
  then show ?thesis using runner_drains [OF assms, of "tl_runtime t"] by blast
qed

end

lemma do_run_begin_runner:
  assumes "do_run_begin t cfg run_id wd = (Busy cl opt cfg' r, wd')"
  obtains wd1 where "runner_start (tl_runtime t) cl opt wd1 = (Ok r, wd')" "ro_recorder opt = Rec_collector"
    "tl_client t (with_run_id cfg run_id) = Ok cl" "cfg' = with_run_id cfg run_id"
  using assms
  by (auto simp: do_run_begin_def Let_def options_of_def split: res.splits prod.splits)

lemma responsive_client:
  assumes "s3_responsive api (cf_bucket cfg) view calm after" "tl_client t = aws_clients api"
    and "tl_client t (with_run_id cfg run_id) = Ok cl"
  obtains addr where "responsive_store cl view addr calm after"
proof -
  obtain a where a: "cl = aws_client a api" "aws_bucket a = cf_bucket cfg"
    using assms(2,3) by (auto elim: aws_clients_Ok)
  have over: "aws_over_responsive a api view calm after" using assms(1) a(2) by (simp add: aws_over_responsive_def)
  show thesis by (rule that) (unfold a(1), rule aws_over_responsive.aws_responsive [OF over])
qed


lemma sample_responsive: "s3_responsive mem_sdk (cf_bucket sample_cfg) fake_view fake_calm (\<lambda>tok k. tok \<le> k)"
  using mem.aws_over_responsive_axioms [of "bench_aws\<lparr>aws_bucket := cf_bucket sample_cfg\<rparr>"]
  by (simp add: aws_over_responsive_def)


end
