(* ===== verification/Store_Spec.thy ===== *)
theory Store_Spec
  imports Fake_Client
begin

section \<open>What the in-memory client implements\<close>

text \<open>
  An abstract object store: a finite map from keys to contents, one from keys to tags, and one
  scheduled error for each kind of call at most. The in-memory client, whose maps are lists and
  whose \<open>List\<close> sorts, skips and cuts, is proved to be this store under any sequence of calls.
\<close>

datatype store_call =
    C_put string bytes int
  | C_get string
  | C_range string int int
  | C_head string
  | C_delete string
  | C_list string string string int
  | C_copy string string
  | C_get_tags string
  | C_put_tags string tagset
  | C_multipart string bytes int

datatype reply =
    R_done "unit res"
  | R_bytes "bytes res"
  | R_size "int res"
  | R_page "list_result res"
  | R_tags "tagset res"

fun perform :: "'s client \<Rightarrow> store_call \<Rightarrow> 's \<Rightarrow> reply \<times> 's" where
  "perform cl (C_put k b n) s = map_prod R_done id (cl_put cl k b n s)"
| "perform cl (C_get k) s = map_prod R_bytes id (cl_get cl k s)"
| "perform cl (C_range k off len) s = map_prod R_bytes id (cl_range_get cl k off len s)"
| "perform cl (C_head k) s = map_prod R_size id (cl_head cl k s)"
| "perform cl (C_delete k) s = map_prod R_done id (cl_delete cl k s)"
| "perform cl (C_list p d tok m) s = map_prod R_page id (cl_list cl p d tok m s)"
| "perform cl (C_copy src dst) s = map_prod R_done id (cl_copy cl src dst s)"
| "perform cl (C_get_tags k) s = map_prod R_tags id (cl_get_tags cl k s)"
| "perform cl (C_put_tags k ts) s = map_prod R_done id (cl_put_tags cl k ts s)"
| "perform cl (C_multipart k b n) s = map_prod R_done id (cl_multipart cl k b n s)"

fun perform_all :: "'s client \<Rightarrow> store_call list \<Rightarrow> 's \<Rightarrow> reply list \<times> 's" where
  "perform_all cl [] s = ([], s)"
| "perform_all cl (c # cs) s =
     (case perform cl c s of (r, s1) \<Rightarrow> (case perform_all cl cs s1 of (rs, s2) \<Rightarrow> (r # rs, s2)))"

subsection \<open>The specification\<close>

record object_store =
  ob_objects :: "string \<Rightarrow> bytes option"
  ob_tags :: "string \<Rightarrow> tagset option"
  ob_faults :: "string \<Rightarrow> go_error option"

text \<open>The names under which \<open>FailOp\<close> schedules an error, and the reply it makes.\<close>

fun call_name :: "store_call \<Rightarrow> string" where
  "call_name (C_put k b n) = ''put''"
| "call_name (C_get k) = ''get''"
| "call_name (C_range k off len) = ''range_get''"
| "call_name (C_head k) = ''head''"
| "call_name (C_delete k) = ''delete''"
| "call_name (C_list p d tok m) = ''list''"
| "call_name (C_copy src dst) = ''copy''"
| "call_name (C_get_tags k) = ''get_tagging''"
| "call_name (C_put_tags k ts) = ''put_tagging''"
| "call_name (C_multipart k b n) = ''multipart_complete''"

fun error_reply :: "store_call \<Rightarrow> go_error \<Rightarrow> reply" where
  "error_reply (C_get k) e = R_bytes (Err e)"
| "error_reply (C_range k off len) e = R_bytes (Err e)"
| "error_reply (C_head k) e = R_size (Err e)"
| "error_reply (C_list p d tok m) e = R_page (Err e)"
| "error_reply (C_get_tags k) e = R_tags (Err e)"
| "error_reply _ e = R_done (Err e)"

text \<open>The bytes from \<open>off\<close> on, \<open>len\<close> of them or up to the end; a start behind the end gives nothing.\<close>

definition byte_range_of :: "bytes \<Rightarrow> int \<Rightarrow> int \<Rightarrow> bytes res" where
  "byte_range_of b off len =
     (let n = int (length b); e = min (wrap64 (off + len)) n in
      if off > n then Ok []
      else if 0 \<le> off \<and> off \<le> e then Ok (map ((!) b) [nat off..<nat e])
      else Panic)"

text \<open>The keys a listing is about, in their order, and then what is made of them: with a delimiter, keys
  that have one behind the prefix are replaced by common prefixes; at most \<open>m\<close> keys are returned,
  a thousand if \<open>m\<close> is not positive.\<close>

definition keys_behind :: "string \<Rightarrow> string \<Rightarrow> (string \<Rightarrow> bytes option) \<Rightarrow> string list" where
  "keys_behind p tok objs = sorted_list_of_set {k \<in> dom objs. has_prefix k p \<and> tok \<le> k}"

definition common_prefix :: "string \<Rightarrow> string \<Rightarrow> string \<Rightarrow> string option" where
  "common_prefix p d k =
     (let rest = trim_prefix k p; i = str_index rest d in
      if 0 \<le> i then Some (p @ take (nat i + length d) rest) else None)"

fun first_occurrences :: "'a list \<Rightarrow> 'a list" where
  "first_occurrences [] = []"
| "first_occurrences (x # xs) = x # filter (\<lambda>y. y \<noteq> x) (first_occurrences xs)"

definition page_of :: "string \<Rightarrow> string \<Rightarrow> int \<Rightarrow> string list \<Rightarrow> list_result" where
  "page_of p d m ks =
     (let flat = (if d = [] then ks else filter (\<lambda>k. common_prefix p d k = None) ks);
          cps = (if d = [] then [] else first_occurrences (List.map_filter (common_prefix p d) ks));
          n = nat (if m \<le> 0 then 1000 else m)
      in \<lparr>lr_keys = take n flat, lr_common_prefixes = cps,
          lr_next = (if n < length flat then flat ! n else ''''), lr_truncated = n < length flat\<rparr>)"

fun spec_call :: "store_call \<Rightarrow> object_store \<Rightarrow> reply \<times> object_store" where
  "spec_call (C_put k b n) a =
     (if 0 \<le> n \<and> int (length b) \<noteq> n then (R_done (Err (Plain_error ''fake: body size mismatch'')), a)
      else (R_done (Ok ()), a\<lparr>ob_objects := (ob_objects a)(k \<mapsto> b)\<rparr>))"
| "spec_call (C_get k) a =
     (R_bytes (case ob_objects a k of None \<Rightarrow> Err Err_not_found | Some b \<Rightarrow> Ok b), a)"
| "spec_call (C_range k off len) a =
     (R_bytes (case ob_objects a k of None \<Rightarrow> Err Err_not_found | Some b \<Rightarrow> byte_range_of b off len), a)"
| "spec_call (C_head k) a =
     (R_size (case ob_objects a k of None \<Rightarrow> Err Err_not_found | Some b \<Rightarrow> Ok (int (length b))), a)"
| "spec_call (C_delete k) a = (R_done (Ok ()), a\<lparr>ob_objects := (ob_objects a)(k := None)\<rparr>)"
| "spec_call (C_list p d tok m) a = (R_page (Ok (page_of p d m (keys_behind p tok (ob_objects a)))), a)"
| "spec_call (C_copy src dst) a =
     (case ob_objects a src of
        None \<Rightarrow> (R_done (Err Err_not_found), a)
      | Some b \<Rightarrow> (R_done (Ok ()), a\<lparr>ob_objects := (ob_objects a)(dst \<mapsto> b)\<rparr>))"
| "spec_call (C_get_tags k) a =
     (R_tags (Ok (case ob_tags a k of None \<Rightarrow> [] | Some ts \<Rightarrow> ts)), a)"
| "spec_call (C_put_tags k ts) a = (R_done (Ok ()), a\<lparr>ob_tags := (ob_tags a)(k \<mapsto> ts)\<rparr>)"
| "spec_call (C_multipart k b n) a = (R_done (Ok ()), a\<lparr>ob_objects := (ob_objects a)(k \<mapsto> b)\<rparr>)"

text \<open>A scheduled error fires once, instead of the call.\<close>

definition spec_step :: "store_call \<Rightarrow> object_store \<Rightarrow> reply \<times> object_store" where
  "spec_step c a =
     (case ob_faults a (call_name c) of
        Some e \<Rightarrow> (error_reply c e, a\<lparr>ob_faults := (ob_faults a)(call_name c := None)\<rparr>)
      | None \<Rightarrow> spec_call c a)"

fun spec_all :: "store_call list \<Rightarrow> object_store \<Rightarrow> reply list \<times> object_store" where
  "spec_all [] a = ([], a)"
| "spec_all (c # cs) a =
     (case spec_step c a of (r, a1) \<Rightarrow> (case spec_all cs a1 of (rs, a2) \<Rightarrow> (r # rs, a2)))"

subsection \<open>The refinement\<close>

definition abstract :: "fake_state \<Rightarrow> object_store" where
  "abstract s = \<lparr>ob_objects = map_of (fs_objects s), ob_tags = map_of (fs_tags s), ob_faults = map_of (fs_fail s)\<rparr>"

lemma abstract_sel [simp]:
  "ob_objects (abstract s) = map_of (fs_objects s)" "ob_tags (abstract s) = map_of (fs_tags s)"
  "ob_faults (abstract s) = map_of (fs_fail s)"
  by (simp_all add: abstract_def)

lemma abstract_update [simp]:
  "abstract (s\<lparr>fs_objects := os\<rparr>) = (abstract s)\<lparr>ob_objects := map_of os\<rparr>"
  "abstract (s\<lparr>fs_tags := ts\<rparr>) = (abstract s)\<lparr>ob_tags := map_of ts\<rparr>"
  "abstract (s\<lparr>fs_fail := es\<rparr>) = (abstract s)\<lparr>ob_faults := map_of es\<rparr>"
  by (simp_all add: abstract_def)

lemma go_slice_range:
  assumes "0 \<le> lo" "lo \<le> hi" "hi \<le> int (length b)"
  shows "go_slice b lo hi = Ok (map ((!) b) [nat lo..<nat hi])"
proof -
  have "take (nat (hi - lo)) (drop (nat lo) b) = map ((!) b) [nat lo..<nat hi]"
    using assms by (intro nth_equalityI) auto
  then show ?thesis using assms by (simp add: go_slice_def)
qed

lemma range_refines:
  "(if off > int (length b) then Ok [] else go_slice b off (let e = wrap64 (off + len) in if e > int (length b) then int (length b) else e))
     = byte_range_of b off len"
  by (auto simp: byte_range_of_def go_slice_range Let_def min_def) (auto simp: go_slice_def)

text \<open>The grouping loop in closed form.\<close>

lemma first_occurrences_set [simp]: "set (first_occurrences xs) = set xs"
  by (induction xs) auto

lemma group_keys_closed:
  "group_keys p d ks cps flat =
     (cps @ filter (\<lambda>x. x \<notin> set cps) (first_occurrences (List.map_filter (common_prefix p d) ks)),
      flat @ filter (\<lambda>k. common_prefix p d k = None) ks)"
proof (induction ks arbitrary: cps flat)
  case (Cons k ks)
  show ?case
  proof (cases "common_prefix p d k")
    case None
    then show ?thesis using Cons by (auto simp: common_prefix_def Let_def List.map_filter_simps split: if_splits)
  next
    case (Some cp)
    then show ?thesis
      using Cons
      by (auto simp: common_prefix_def Let_def List.map_filter_simps filter_filter conj_commute
          intro!: filter_cong split: if_splits)
  qed
qed (simp add: List.map_filter_simps)

lemma list_refines: "list_page p d m ks = page_of p d m ks"
  by (auto simp: list_page_def page_of_def cut_page_def group_keys_closed Let_def nat_less_iff not_less)

lemma keys_refine:
  assumes "fake_wf s"
  shows "list_keys p tok (fs_objects s) = keys_behind p tok (map_of (fs_objects s))"
  using keys_from_sorted_list_of_set [of "fs_objects s" p tok] assms
  by (simp add: list_keys_eq keys_behind_def fake_wf_def)

lemma perform_refines:
  assumes "fake_wf s"
  shows "map_prod id abstract (perform fake_client c s) = spec_step c (abstract s)"
  using keys_refine [OF assms]
  by (cases c; cases "map_of (fs_fail s) (call_name c)")
    (simp_all add: spec_step_def fake_op_defs update_conv' delete_conv' list_refines Let_def
      flip: range_refines split: option.splits)

lemma perform_wf: "fake_wf s \<Longrightarrow> fake_wf (snd (perform fake_client c s))"
  by (cases c) (simp_all add: fake_ops_wf)

text \<open>C9. The in-memory client refines the abstract store: under every sequence of calls, with every
  schedule of errors, it gives the same replies as the finite maps do, listings in key order with
  their delimiters and pages included, and ends in a state that stands for theirs.\<close>

theorem fake_refines_store:
  assumes "fake_wf s"
  shows "map_prod id abstract (perform_all fake_client cs s) = spec_all cs (abstract s)"
  using assms
proof (induction cs arbitrary: s)
  case (Cons c cs)
  obtain r s1 where step: "perform fake_client c s = (r, s1)" by fastforce
  have "spec_step c (abstract s) = (r, abstract s1)" using perform_refines [OF Cons.prems, of c] step by simp
  moreover have "fake_wf s1" using perform_wf [OF Cons.prems, of c] step by simp
  then have "map_prod id abstract (perform_all fake_client cs s1) = spec_all cs (abstract s1)" by (rule Cons.IH)
  ultimately show ?case using step by (auto split: prod.splits)
qed simp

text \<open>A store with a scheduled error: the first read fails, the second finds the object.\<close>

theorem fake_refines_store_witness:
  "fst (spec_all [C_get ''a'', C_get ''a'', C_delete ''a'', C_head ''a'']
      (abstract \<lparr>fs_objects = [(''a'', [7])], fs_tags = [], fs_fail = [(''get'', Err_not_found)], fs_delay = 0\<rparr>)) =
   [R_bytes (Err Err_not_found), R_bytes (Ok [7]), R_done (Ok ()), R_size (Err Err_not_found)]"
proof -
  have "fake_wf \<lparr>fs_objects = [(''a'', [7])], fs_tags = [], fs_fail = [(''get'', Err_not_found)], fs_delay = 0\<rparr>"
    by (simp add: fake_wf_def)
  from fake_refines_store [OF this, of "[C_get ''a'', C_get ''a'', C_delete ''a'', C_head ''a'']", symmetric]
  show ?thesis by (simp add: fake_op_defs)
qed

end
