(* ===== verification/Spec2Isabelle.thy ===== *)
theory Spec2Isabelle
  imports Progress Store_Spec
begin

text \<open>
  s3aibench: a model of the benchmark tool in Isabelle/HOL, and the theorems that make it correct.

  The program. A plan (YAML) names an S3 endpoint, a bucket and a list of workloads. A command loads
  and validates it (\<open>internal/plan\<close>), resolves every setting through flags, environment, plan and
  defaults (\<open>internal/config\<close>), builds the workloads through a registry (\<open>internal/workload\<close>) and a
  client (\<open>internal/s3client\<close>), checks the bucket (\<open>internal/safety\<close>), and lets the runner
  (\<open>internal/runner\<close>) prepopulate, warm up and measure them. The workers of a workload call the
  client and record every call (\<open>internal/metrics\<close>), bodies come from a shared block of entropy
  (\<open>internal/bodygen\<close>), sizes and choices from random samplers (\<open>internal/sizedist\<close>). At the end a
  report is built and written (\<open>internal/report\<close>, \<open>pkg/reportschema\<close>) and everything below the run
  prefix is deleted.

  The theories, in the order of their imports:

  \<^item> \<open>Go_Prelude\<close>: what the model uses of Go: \<open>int\<close> as \<open>int64\<close> with \<open>wrap64\<close> wherever an operation can
    overflow, truncating division, \<open>strings\<close>, errors with their chains (\<open>go_error\<close>), and results
    \<open>'a res\<close> that are a value, an error or a panic. \<open>Go_Strconv\<close>: decimal printing and parsing.
  \<^item> \<open>S3_Client\<close>: the interface \<open>Client\<close> of \<open>s3client.go\<close> as a record of operations over a store state,
    \<open>joinPrefix\<close>, \<open>IsNotFound\<close>, and four locales: \<open>store_frame\<close> (what an operation may touch, with or
    without faults), \<open>reliable_store\<close> (what it achieves when no fault occurs), \<open>responsive_store\<close>
    (which calls answer without an error) and \<open>client_invariant\<close> (a property of the store no
    operation destroys).
  \<^item> \<open>Fake_Client\<close>: the in-memory client of \<open>fake/fake.go\<close> with its fault injection; it interprets all
    four. \<open>Store_Spec\<close>: the abstract object store of finite maps that it refines.
  \<^item> \<open>Aws_Client\<close>: the SDK-backed client of \<open>aws.go\<close> and the transport settings over an abstract SDK;
    the locales \<open>s3_endpoint\<close> and \<open>s3_responsive\<close> state what S3 documents, \<open>aws_over_s3\<close> and
    \<open>aws_over_responsive\<close> derive the client contracts from it, and an in-memory SDK interprets them.
  \<^item> \<open>Safety\<close>: \<open>CheckBucket\<close> and the paged \<open>Cleanup\<close> of \<open>safety.go\<close>, a \<open>partial_function\<close> whose
    termination on a working store is part of the theorems.
  \<^item> \<open>Plan\<close>, \<open>Params\<close>, \<open>Config\<close>: \<open>load.go\<close>, \<open>schema.go\<close>, \<open>types.go\<close>, \<open>validate.go\<close>; the readers of dynamic
    parameters; \<open>config.go\<close>, \<open>resolve.go\<close>, \<open>cli/flags.go\<close>.
  \<^item> \<open>Metrics\<close>: shards, collector, snapshot and totals of \<open>metrics.go\<close>, \<open>errors.go\<close> and \<open>hdr.go\<close>; the
    HDR histogram is a parameter. \<open>Bodygen\<close>: \<open>bodygen.go\<close>, \<open>drain.go\<close>, \<open>bufpool.go\<close>. \<open>Sizedist\<close>: the
    samplers of \<open>sizedist.go\<close>.
  \<^item> \<open>Workload\<close>: environment, registry, seeds and keys of \<open>workload.go\<close>. \<open>Crew\<close>: workers that take
    turns, shared by three workloads.
  \<^item> \<open>Object_Workloads\<close> (\<open>smallobj.go\<close>, \<open>largeobj.go\<close>), \<open>Checkpoint\<close>, \<open>Dataloader\<close>, \<open>Metadata\<close>,
    \<open>Lancedb\<close>: one theory for each pattern: its factory, \<open>Prepopulate\<close>, \<open>Run\<close> as an interleaving of
    workers whose atomic steps are the accesses of shared counters and the client calls, and
    \<open>Cleanup\<close>.
  \<^item> \<open>Mix\<close>: the values behind the interface \<open>Workload\<close> as one datatype, the factory of \<open>mix.go\<close> with
    its nested entries, and the three methods for all of them; \<open>Run\<close> is a tree of running workloads
    over one world.
  \<^item> \<open>Runner\<close>: \<open>Run\<close> of \<open>runner.go\<close>: checks, prepopulation, and the two concurrent phases as a step
    relation. \<open>Report\<close>: \<open>report.go\<close>, \<open>text.go\<close>, \<open>json.go\<close>, \<open>progress.go\<close>, the schema, \<open>version.go\<close>.
  \<^item> \<open>Cli\<close>: \<open>doRun\<close> as a state machine around the runner, the reports and the cleanup of \<open>run.go\<close>, and the
    commands of \<open>run.go\<close>, \<open>validate.go\<close>, \<open>prepopulate.go\<close>, \<open>cleanup.go\<close>; the exit code of \<open>main.go\<close>.
  \<^item> \<open>Drain\<close> and \<open>Progress\<close>: that a run is never stuck. \<open>Drain\<close> shows it of every workload, of nested
    mixes and of the phases of the runner, over an endpoint that answers; \<open>Progress\<close> of \<open>doRun\<close>.

  What the lemmas show. Each component has the functional behaviour of its operations on every branch.
  The clients satisfy their contracts; every other theory uses a client through the locales only, so
  that what is proved of cleanup, of a workload or of a whole run holds over the in-memory client
  and over the SDK-backed one alike. The workloads have invariants over every interleaving of
  their workers (claims of keys are disjoint, retention holds at every moment, only keys of the
  workload are touched), and lifecycles: prepopulate, run, clean up, and the bucket is as before. The
  collector counts exactly what was recorded, whatever the shards and the order, and the report says
  what the collector counted. From the locales the properties of a whole run follow in \<open>Cli\<close>: it
  never touches an object outside its prefix, and with cleanup it restores the bucket. \<open>Progress\<close>
  adds the converse of these safety claims: from every state such a run can reach on an endpoint
  that answers, some continuation reaches the successful exit with the bucket restored.

  Steps, bounds and fuel. There is no fuel: loops over lists are structural, the factory of nested mixes
  terminates by the size of the document, the cleanup walk is partial and proved to return, and what
  may go on for ever (workers, phases, runs) is a step relation or a schedule, so that every claim
  is about all finite prefixes of all interleavings. Numbers that bound a claim (below \<open>2 ^ 63\<close>
  claims, products that fit 64 bits) are hypotheses where the code itself would overflow.

  Parameters. The SDK, the YAML and JSON codecs, the digest of the configuration, the HDR histogram, the
  parsers and formatters of the standard library for floats, times and durations, the file system and
  the writers, the entropy block and the normal variate are arguments of the definitions that use
  them. A random generator is a stream of raw numbers of which each method takes the next and maps
  it into its documented range, \<open>Intn\<close> like \<open>Int63n\<close>; every statement is for all streams.

  Not modelled. Contexts: cancellation only decides when workers stop, so a phase may end whenever all
  of them are at the head of their loop; a cleanup under a context that has ended is not covered.
  Time: latencies are arbitrary numbers given with each step. Logging; the progress ticker's
  interleaving with the report on the standard output; the assembly of the command tree
  (\<open>cli/root.go\<close>) and the parsing of flags by the cobra and pflag libraries; the profiling server
  (\<open>cli/pprof.go\<close>); signals and the process exit. Floats are real numbers, so rounding is not
  covered. Error texts are those of the code up to the quoting of names by \<open>%q\<close>.
\<close>

end
